(* ===== verification/Prelude.thy ===== *)
theory Prelude
  imports Complex_Main "HOL-Library.AList" "HOL-Library.Multiset" "HOL-Library.List_Lexorder"
    "HOL-Library.Char_ord"
begin

text \<open>
  Shared vocabulary of the development: the Python errors the sources raise, results as sums,
  Python dictionaries as association lists in insertion order, Python's \<open>bisect_left\<close>, the
  generic interfaces (a keyed store, a stepping component with an invariant) and the generic
  lemmas that the component theories use.
\<close>

section \<open>Errors and results\<close>

text \<open>One constructor per exception class that a modelled operation can raise.\<close>

datatype py_error =
    ValueError | KeyError | IndexError | StopIteration | TypeError | RuntimeError
  | AttributeError | ZeroDivisionError | EmptyRingError | TenantScopeError | SchemaError
  | UntypedValue | NetworkError | PeerError | DecryptError | OSError

type_synonym 'a result = "py_error + 'a"

definition is_ok :: "'a result \<Rightarrow> bool" where
  "is_ok r = (case r of Inl _ \<Rightarrow> False | Inr _ \<Rightarrow> True)"

lemma is_ok_simps [simp]: "is_ok (Inr x)" "\<not> is_ok (Inl e)"
  by (simp_all add: is_ok_def)

lemma is_ok_iff: "is_ok r \<longleftrightarrow> (\<exists>x. r = Inr x)"
  by (cases r) simp_all

definition bind_result :: "'a result \<Rightarrow> ('a \<Rightarrow> 'b result) \<Rightarrow> 'b result" where
  "bind_result r f = (case r of Inl e \<Rightarrow> Inl e | Inr x \<Rightarrow> f x)"

lemma bind_result_simps [simp]:
  "bind_result (Inl e) f = Inl e" "bind_result (Inr x) f = f x"
  by (simp_all add: bind_result_def)

lemma bind_result_eq_Inr [simp]:
  "bind_result r f = Inr y \<longleftrightarrow> (\<exists>x. r = Inr x \<and> f x = Inr y)"
  by (cases r) simp_all

fun map_result :: "('a \<Rightarrow> 'b result) \<Rightarrow> 'a list \<Rightarrow> 'b list result" where
  "map_result f [] = Inr []"
| "map_result f (x # xs) =
     bind_result (f x) (\<lambda>y. bind_result (map_result f xs) (\<lambda>ys. Inr (y # ys)))"

lemma map_result_Inr: "map_result f xs = Inr ys \<longleftrightarrow> list_all2 (\<lambda>x y. f x = Inr y) xs ys"
  by (induction xs arbitrary: ys) (auto simp: list_all2_Cons1)

text \<open>Python's list indexing: a negative index counts from the end, out of range raises.\<close>

definition py_index :: "'a list \<Rightarrow> int \<Rightarrow> nat result" where
  "py_index xs i =
     (if 0 \<le> i \<and> i < int (length xs) then Inr (nat i)
      else if - int (length xs) \<le> i \<and> i < 0 then Inr (nat (int (length xs) + i))
      else Inl IndexError)"

lemma py_index_less: "py_index xs i = Inr n \<Longrightarrow> n < length xs"
  by (auto simp: py_index_def split: if_splits)

section \<open>Dictionaries\<close>

text \<open>
  A Python \<open>dict\<close> is an association list in insertion order: \<open>d[k] = v\<close> is
  \<^const>\<open>AList.update\<close> (in place for a present key, at the end for a new one), \<open>d.pop(k)\<close> and
  \<open>del d[k]\<close> are \<^const>\<open>AList.delete\<close>, \<open>d.get(k)\<close> is \<^const>\<open>map_of\<close>. The invariant of a
  dictionary is that its keys are distinct.
\<close>

type_synonym ('k, 'v) dict = "('k \<times> 'v) list"

abbreviation dict_ok :: "('k, 'v) dict \<Rightarrow> bool" where
  "dict_ok d \<equiv> distinct (map fst d)"

abbreviation dict_set :: "('k, 'v) dict \<Rightarrow> 'k \<Rightarrow> 'v \<Rightarrow> ('k, 'v) dict" where
  "dict_set d k v \<equiv> AList.update k v d"

abbreviation dict_del :: "('k, 'v) dict \<Rightarrow> 'k \<Rightarrow> ('k, 'v) dict" where
  "dict_del d k \<equiv> AList.delete k d"

definition dict_has :: "('k, 'v) dict \<Rightarrow> 'k \<Rightarrow> bool" where
  "dict_has d k = (map_of d k \<noteq> None)"

definition dict_get :: "('k, 'v) dict \<Rightarrow> 'k \<Rightarrow> 'v \<Rightarrow> 'v" where
  "dict_get d k v = (case map_of d k of None \<Rightarrow> v | Some x \<Rightarrow> x)"

text \<open>\<open>OrderedDict.move_to_end\<close> on a present key.\<close>

definition dict_move_to_end :: "('k, 'v) dict \<Rightarrow> 'k \<Rightarrow> ('k, 'v) dict" where
  "dict_move_to_end d k =
     (case map_of d k of None \<Rightarrow> d | Some v \<Rightarrow> dict_del d k @ [(k, v)])"

definition dict_setdefault :: "('k, 'v) dict \<Rightarrow> 'k \<Rightarrow> 'v \<Rightarrow> ('k, 'v) dict" where
  "dict_setdefault d k v = (if dict_has d k then d else dict_set d k v)"

text \<open>The slice \<open>xs[:k]\<close>: a negative bound counts from the end.\<close>

definition slice_to :: "int \<Rightarrow> 'a list \<Rightarrow> 'a list" where
  "slice_to k xs = (if k < 0 then take (nat (int (length xs) + k)) xs else take (nat k) xs)"

lemma map_of_dict_set [simp]: "map_of (dict_set d k v) k' = (if k' = k then Some v else map_of d k')"
  by (simp add: update_conv')

lemma map_of_dict_del [simp]: "map_of (dict_del d k) k' = (if k' = k then None else map_of d k')"
  by (simp add: delete_conv')

lemma dict_has_iff: "dict_has d k \<longleftrightarrow> k \<in> fst ` set d"
  by (simp add: dict_has_def map_of_eq_None_iff)

lemma dict_has_set [simp]: "dict_has (dict_set d k v) k' \<longleftrightarrow> k' = k \<or> dict_has d k'"
  by (simp add: dict_has_def)

lemma dict_has_del [simp]: "dict_has (dict_del d k) k' \<longleftrightarrow> k' \<noteq> k \<and> dict_has d k'"
  by (simp add: dict_has_def)

lemma dict_get_set [simp]:
  "dict_get (dict_set d k v) k' x = (if k' = k then v else dict_get d k' x)"
  by (simp add: dict_get_def)

lemma dict_get_setdefault [simp]:
  "dict_get (dict_setdefault d k v) k' x = (if k' = k then dict_get d k v else dict_get d k' x)"
  by (simp add: dict_setdefault_def dict_has_def dict_get_def split: option.splits)

lemma dict_ok_setdefault [simp]: "dict_ok d \<Longrightarrow> dict_ok (dict_setdefault d k v)"
  by (simp add: dict_setdefault_def distinct_update)

lemma dict_has_setdefault [simp]: "dict_has (dict_setdefault d k v) k' \<longleftrightarrow> k' = k \<or> dict_has d k'"
  by (auto simp: dict_setdefault_def dict_has_def)

lemma map_of_map_snd: "map_of (map (\<lambda>(k, v). (k, g k v)) d) x = map_option (g x) (map_of d x)"
  by (induction d) auto

lemma dict_ok_map_snd [simp]: "dict_ok (map (\<lambda>(k, v). (k, g k v)) d) \<longleftrightarrow> dict_ok d"
  by (simp add: comp_def case_prod_beta)

lemma dict_get_del [simp]:
  "dict_get (dict_del d k) k' x = (if k' = k then x else dict_get d k' x)"
  by (simp add: dict_get_def)

lemma dict_ok_set [simp]: "dict_ok d \<Longrightarrow> dict_ok (dict_set d k v)"
  by (rule distinct_update)

lemma dict_ok_del [simp]: "dict_ok d \<Longrightarrow> dict_ok (dict_del d k)"
  by (rule distinct_delete)

lemma dict_set_new: "\<not> dict_has d k \<Longrightarrow> dict_set d k v = d @ [(k, v)]"
  by (induction d) (auto simp: dict_has_def split: if_splits)

lemma set_dict_set: "set (dict_set d k v) \<subseteq> insert (k, v) (set d)"
  by (induction d) auto

lemma dict_set_keys: "set (map fst (dict_set d k v)) = insert k (set (map fst d))"
  by (simp add: dom_update)

lemma dict_del_keys: "set (map fst (dict_del d k)) = set (map fst d) - {k}"
  by (simp only: delete_keys set_removeAll)

lemma dict_del_mset:
  assumes "dict_ok d" and "map_of d k = Some v"
  shows "mset d = add_mset (k, v) (mset (dict_del d k))"
  using assms
proof (induction d)
  case Nil
  then show ?case by simp
next
  case (Cons e d)
  show ?case
  proof (cases "fst e = k")
    case True
    with Cons.prems have "e = (k, v)" and "k \<notin> fst ` set d"
      by (cases e; auto)+
    then show ?thesis by simp
  next
    case False
    with Cons show ?thesis by (cases e) auto
  qed
qed

lemma dict_del_sum:
  fixes f :: "'k \<times> 'v \<Rightarrow> 'a::ab_group_add"
  assumes "dict_ok d" and "map_of d k = Some v"
  shows "sum_list (map f (dict_del d k)) = sum_list (map f d) - f (k, v)"
proof -
  have "mset (map f d) = add_mset (f (k, v)) (mset (map f (dict_del d k)))"
    using dict_del_mset [OF assms] by simp
  then have "sum_list (map f d) = f (k, v) + sum_list (map f (dict_del d k))"
    by (metis sum_mset.add_mset sum_mset_sum_list)
  then show ?thesis by simp
qed

lemma dict_del_length:
  "dict_ok d \<Longrightarrow> map_of d k = Some v \<Longrightarrow> length d = Suc (length (dict_del d k))"
  using dict_del_mset [of d k v] by (metis size_add_mset size_mset)

lemma dict_ok_move_to_end [simp]: "dict_ok d \<Longrightarrow> dict_ok (dict_move_to_end d k)"
  by (auto simp: dict_move_to_end_def distinct_delete delete_notin_dom split: option.splits)

lemma map_of_move_to_end [simp]: "map_of (dict_move_to_end d k) = map_of d"
  by (rule ext) (auto simp: dict_move_to_end_def map_add_def split: option.splits)

section \<open>Decimal strings\<close>

text \<open>Python's \<open>str\<close> and f-string formatting of a non-negative integer, and \<open>int\<close> on digits.\<close>

definition digit_char :: "nat \<Rightarrow> char" where
  "digit_char d = char_of (48 + d)"

fun str_nat :: "nat \<Rightarrow> string" where
  "str_nat n = (if n < 10 then [digit_char n] else str_nat (n div 10) @ [digit_char (n mod 10)])"

declare str_nat.simps [simp del]

definition str_int :: "int \<Rightarrow> string" where
  "str_int i = (if i < 0 then CHR ''-'' # str_nat (nat (- i)) else str_nat (nat i))"

definition is_digit_char :: "char \<Rightarrow> bool" where
  "is_digit_char c \<longleftrightarrow> 48 \<le> (of_char c :: nat) \<and> (of_char c :: nat) \<le> 57"

definition isdigit :: "string \<Rightarrow> bool" where
  "isdigit s \<longleftrightarrow> s \<noteq> [] \<and> list_all is_digit_char s"

definition int_of_digits :: "string \<Rightarrow> nat" where
  "int_of_digits s = foldl (\<lambda>acc c. 10 * acc + (of_char c - 48)) 0 s"

lemma of_digit_char: "d < 10 \<Longrightarrow> (of_char (digit_char d) :: nat) = 48 + d"
  by (simp add: digit_char_def)

lemma isdigit_str_nat: "isdigit (str_nat n)"
proof (induction n rule: str_nat.induct)
  case (1 n)
  then show ?case
    by (subst str_nat.simps) (auto simp: isdigit_def is_digit_char_def of_digit_char)
qed

lemma int_of_digits_str_nat [simp]: "int_of_digits (str_nat n) = n"
proof (induction n rule: str_nat.induct)
  case (1 n)
  then show ?case
    by (subst str_nat.simps) (auto simp: int_of_digits_def of_digit_char)
qed

lemma str_nat_inject [simp]: "str_nat m = str_nat n \<longleftrightarrow> m = n"
  by (metis int_of_digits_str_nat)

lemma str_nat_not_in:
  assumes "\<not> is_digit_char c"
  shows "c \<notin> set (str_nat n)"
  using assms isdigit_str_nat [of n] by (auto simp: isdigit_def list_all_iff)

section \<open>Searching sorted lists\<close>

text \<open>\<open>bisect.bisect_left\<close>: the least index whose element is not below the key.\<close>

fun bisect_left :: "'a::linorder list \<Rightarrow> 'a \<Rightarrow> nat" where
  "bisect_left [] x = 0"
| "bisect_left (y # ys) x = (if y < x then Suc (bisect_left ys x) else 0)"

lemma bisect_left_le: "bisect_left ys x \<le> length ys"
  by (induction ys) auto

lemma bisect_left_below: "i < bisect_left ys x \<Longrightarrow> ys ! i < x"
  by (induction ys arbitrary: i) (auto simp: nth_Cons' split: if_splits)

lemma bisect_left_above:
  "sorted ys \<Longrightarrow> bisect_left ys x \<le> i \<Longrightarrow> i < length ys \<Longrightarrow> x \<le> ys ! i"
proof (induction ys arbitrary: i)
  case Nil
  then show ?case by simp
next
  case (Cons y ys)
  show ?case
  proof (cases "y < x")
    case True
    with Cons show ?thesis by (cases i) auto
  next
    case False
    then have "x \<le> y" by simp
    moreover have "y \<le> (y # ys) ! i"
      using Cons.prems by (cases i) auto
    ultimately show ?thesis by simp
  qed
qed

section \<open>Interfaces\<close>

text \<open>
  A keyed store: what every byte store and every metadata store of the program promises its
  clients. The abstraction \<open>get\<close> is the store's contents as a map.
\<close>

locale keyed_store =
  fixes put :: "'k \<Rightarrow> 'v \<Rightarrow> 's \<Rightarrow> 's"
    and get :: "'s \<Rightarrow> 'k \<Rightarrow> 'v option"
    and del :: "'k \<Rightarrow> 's \<Rightarrow> 's"
    and inv :: "'s \<Rightarrow> bool"
  assumes get_put: "inv s \<Longrightarrow> get (put k v s) = (get s)(k := Some v)"
    and get_del: "inv s \<Longrightarrow> get (del k s) = (get s)(k := None)"
    and inv_put: "inv s \<Longrightarrow> inv (put k v s)"
    and inv_del: "inv s \<Longrightarrow> inv (del k s)"
begin

lemma get_put_same: "inv s \<Longrightarrow> get (put k v s) k = Some v"
  by (simp add: get_put)

lemma get_put_other: "inv s \<Longrightarrow> k' \<noteq> k \<Longrightarrow> get (put k v s) k' = get s k'"
  by (simp add: get_put)

lemma get_del_put: "inv s \<Longrightarrow> get (del k (put k v s)) = (get s)(k := None)"
  by (simp add: get_del get_put inv_put)

lemma put_commutes:
  "inv s \<Longrightarrow> k \<noteq> k' \<Longrightarrow> get (put k v (put k' v' s)) = get (put k' v' (put k v s))"
  by (simp add: get_put inv_put fun_upd_twist)

end

text \<open>
  A stepping component: an initial state, a step function on events and an invariant that every
  step keeps. The lemma lifts the invariant to whole runs.
\<close>

locale stepping =
  fixes step :: "'s \<Rightarrow> 'e \<Rightarrow> 's"
    and ok :: "'s \<Rightarrow> bool"
  assumes step_ok: "ok s \<Longrightarrow> ok (step s e)"
begin

lemma run_ok: "ok s \<Longrightarrow> ok (foldl step s es)"
  by (induction es arbitrary: s) (auto intro: step_ok)

end

text \<open>
  A stamping component: every step moves a stamp strictly up, so the stamps handed out by a run
  are strictly increasing and no stamp is handed out twice.
\<close>

locale stamping = stepping step ok
  for step :: "'s \<Rightarrow> 'e \<Rightarrow> 's" and ok :: "'s \<Rightarrow> bool" +
  fixes stamp :: "'s \<Rightarrow> 'a::linorder"
  assumes stamp_less: "ok s \<Longrightarrow> stamp s < stamp (step s e)"
begin

lemma stamps_above:
  assumes f: "\<And>s. f s [] = []" "\<And>s e es. f s (e # es) = stamp (step s e) # f (step s e) es"
    and "ok s" and "t \<in> set (f s es)"
  shows "stamp s < t"
  using assms(3,4)
proof (induction es arbitrary: s)
  case Nil
  then show ?case by (simp add: f)
next
  case (Cons e es)
  then have "t = stamp (step s e) \<or> stamp (step s e) < t"
    by (auto simp: f step_ok)
  with stamp_less [OF Cons.prems(1), of e] show ?case by auto
qed

lemma stamps_increasing:
  assumes f: "\<And>s. f s [] = []" "\<And>s e es. f s (e # es) = stamp (step s e) # f (step s e) es"
    and "ok s"
  shows "sorted_wrt (<) (stamp s # f s es)"
  using assms(3)
proof (induction es arbitrary: s)
  case Nil
  then show ?case by (simp add: f)
next
  case (Cons e es)
  then have "sorted_wrt (<) (stamp (step s e) # f (step s e) es)"
    by (simp add: step_ok)
  with stamps_above [OF f Cons.prems, of _ "e # es"] show ?case by (simp add: f)
qed

end

end
