(* ===== verification/Hlc.thy ===== *)
theory Hlc
  imports Prelude "HOL-Library.Word"
begin

text \<open>
  The hybrid logical clock of \<open>membrane/hlc.py\<close>: the 64-bit packing of a physical millisecond
  and a logical counter, the local advance \<open>tick\<close>, the reconciliation \<open>merge\<close>, the comparison
  of wire values, and the lock-guarded \<open>Clock\<close>. Python integers are \<open>int\<close>; the reading of the
  system clock (\<open>int(time.time() * 1000)\<close>) is an argument.
\<close>

unbundle bit_operations_syntax

section \<open>Packing\<close>

definition PHYSICAL_SHIFT :: nat where
  "PHYSICAL_SHIFT = 16"

definition LOGICAL_MAX :: int where
  "LOGICAL_MAX = push_bit 16 1 - 1"

definition PHYSICAL_MAX :: int where
  "PHYSICAL_MAX = push_bit 48 1 - 1"

record hlc =
  physical_ms :: int
  logical :: int

definition unpack :: "int \<Rightarrow> hlc" where
  "unpack value =
     (let physical = drop_bit PHYSICAL_SHIFT value AND PHYSICAL_MAX;
          logical = value AND LOGICAL_MAX
      in \<lparr>physical_ms = physical, logical = logical\<rparr>)"

definition pack :: "hlc \<Rightarrow> int" where
  "pack clock = push_bit PHYSICAL_SHIFT (physical_ms clock) OR (logical clock AND LOGICAL_MAX)"

section \<open>Advancing\<close>

definition tick :: "int \<Rightarrow> hlc \<Rightarrow> hlc" where
  "tick now_ms previous =
     (if now_ms > physical_ms previous then \<lparr>physical_ms = now_ms, logical = 0\<rparr>
      else if logical previous < LOGICAL_MAX
      then \<lparr>physical_ms = physical_ms previous, logical = logical previous + 1\<rparr>
      else \<lparr>physical_ms = physical_ms previous + 1, logical = 0\<rparr>)"

text \<open>The second argument of \<open>merge\<close> is a wire integer or a decoded clock.\<close>

datatype observed = Wire int | Decoded hlc

fun observed_hlc :: "observed \<Rightarrow> hlc" where
  "observed_hlc (Wire v) = unpack v"
| "observed_hlc (Decoded h) = h"

definition merge :: "hlc \<Rightarrow> observed \<Rightarrow> hlc" where
  "merge local observed =
     (let other = observed_hlc observed in
      if physical_ms other > physical_ms local
      then \<lparr>physical_ms = physical_ms other, logical = 0\<rparr>
      else if physical_ms other < physical_ms local
      then (if logical local < LOGICAL_MAX
            then \<lparr>physical_ms = physical_ms local, logical = logical local + 1\<rparr>
            else \<lparr>physical_ms = physical_ms local + 1, logical = 0\<rparr>)
      else (let new_logical = max (logical local) (logical other) + 1 in
            if new_logical > LOGICAL_MAX
            then \<lparr>physical_ms = physical_ms local + 1, logical = 0\<rparr>
            else \<lparr>physical_ms = physical_ms local, logical = new_logical\<rparr>))"

definition compare :: "int \<Rightarrow> int \<Rightarrow> int" where
  "compare a b = (if a < b then -1 else if a > b then 1 else 0)"

section \<open>The clock object\<close>

text \<open>
  \<open>Clock\<close> holds one state behind a lock; each method runs in one critical section, so a use of
  the clock is a sequence of the following events. Both return the new packed value.
\<close>

datatype clock_event = Tick int | Merge observed

definition clock_init :: "int \<Rightarrow> hlc option \<Rightarrow> hlc" where
  "clock_init now_ms seed =
     (case seed of None \<Rightarrow> \<lparr>physical_ms = now_ms, logical = 0\<rparr> | Some s \<Rightarrow> s)"

fun clock_step :: "hlc \<Rightarrow> clock_event \<Rightarrow> hlc" where
  "clock_step st (Tick now_ms) = tick now_ms st"
| "clock_step st (Merge observed) = merge st observed"

definition clock_tick :: "int \<Rightarrow> hlc \<Rightarrow> hlc \<times> int" where
  "clock_tick now_ms st = (let st' = clock_step st (Tick now_ms) in (st', pack st'))"

definition clock_merge :: "observed \<Rightarrow> hlc \<Rightarrow> hlc \<times> int" where
  "clock_merge observed st = (let st' = clock_step st (Merge observed) in (st', pack st'))"

fun clock_stamps :: "hlc \<Rightarrow> clock_event list \<Rightarrow> int list" where
  "clock_stamps st [] = []"
| "clock_stamps st (e # es) = (let st' = clock_step st e in pack st' # clock_stamps st' es)"

section \<open>Arithmetic of the packing\<close>

text \<open>A well-formed clock: what every constructor call of the module keeps.\<close>

definition hlc_ok :: "hlc \<Rightarrow> bool" where
  "hlc_ok c \<longleftrightarrow> 0 \<le> physical_ms c \<and> 0 \<le> logical c \<and> logical c \<le> LOGICAL_MAX"

named_theorems hlc_defs

declare tick_def [hlc_defs] merge_def [hlc_defs] hlc_ok_def [hlc_defs] Let_def [hlc_defs]

lemma LOGICAL_MAX_eq [hlc_defs]: "LOGICAL_MAX = 65535"
  by (simp add: LOGICAL_MAX_def)

lemma PHYSICAL_MAX_eq: "PHYSICAL_MAX = 2 ^ 48 - 1"
  by (simp add: PHYSICAL_MAX_def)

lemma and_LOGICAL_MAX: "v AND LOGICAL_MAX = v mod 2 ^ 16"
proof -
  have "LOGICAL_MAX = mask 16"
    by (simp add: LOGICAL_MAX_def mask_eq_exp_minus_1)
  then show ?thesis
    by (metis take_bit_eq_mask take_bit_eq_mod)
qed

lemma and_PHYSICAL_MAX: "v AND PHYSICAL_MAX = v mod 2 ^ 48"
proof -
  have "PHYSICAL_MAX = mask 48"
    by (simp add: PHYSICAL_MAX_def mask_eq_exp_minus_1)
  then show ?thesis
    by (metis take_bit_eq_mask take_bit_eq_mod)
qed

lemma pack_eq: "pack c = physical_ms c * 2 ^ 16 + logical c mod 2 ^ 16"
proof -
  have "pack c = take_bit 16 (logical c) OR push_bit 16 (physical_ms c)"
    by (simp add: pack_def PHYSICAL_SHIFT_def and_LOGICAL_MAX take_bit_eq_mod or.commute)
  also have "\<dots> = take_bit 16 (logical c) + push_bit 16 (physical_ms c)"
    using concat_bit_eq [of 16 "logical c" "physical_ms c"] by (simp add: concat_bit_def)
  finally show ?thesis by (simp add: take_bit_eq_mod push_bit_eq_mult)
qed

lemma pack_ok_eq: "hlc_ok c \<Longrightarrow> pack c = physical_ms c * 65536 + logical c"
  by (simp add: pack_eq hlc_ok_def LOGICAL_MAX_eq)

lemma unpack_eq:
  "unpack v = \<lparr>physical_ms = v div 2 ^ 16 mod 2 ^ 48, logical = v mod 2 ^ 16\<rparr>"
  by (simp add: unpack_def PHYSICAL_SHIFT_def and_LOGICAL_MAX and_PHYSICAL_MAX drop_bit_eq_div)

lemma unpack_ok: "hlc_ok (unpack v)"
  using pos_mod_bound [of 65536 v]
  by (simp add: unpack_eq hlc_ok_def LOGICAL_MAX_eq)

lemma hlc_okD:
  assumes "hlc_ok c"
  shows "0 \<le> physical_ms c" "0 \<le> logical c" "logical c \<le> 65535"
  using assms by (simp_all add: hlc_ok_def LOGICAL_MAX_eq)

lemma pack_less_iff:
  assumes "hlc_ok a" and "hlc_ok b"
  shows "pack a < pack b \<longleftrightarrow>
    physical_ms a < physical_ms b \<or> physical_ms a = physical_ms b \<and> logical a < logical b"
  using assms [THEN hlc_okD(2)] assms [THEN hlc_okD(3)]
  by (simp add: pack_ok_eq assms) linarith

lemma tick_ok: "hlc_ok c \<Longrightarrow> hlc_ok (tick now_ms c)"
  by (auto simp: hlc_defs)

lemma merge_ok: "hlc_ok c \<Longrightarrow> hlc_ok (merge c obs)"
  by (auto simp: hlc_defs)

lemma tick_advances: "hlc_ok c \<Longrightarrow> pack c < pack (tick now_ms c)"
  by (simp add: pack_less_iff tick_ok) (auto simp: hlc_defs)

lemma merge_advances_local: "hlc_ok c \<Longrightarrow> pack c < pack (merge c obs)"
  by (simp add: pack_less_iff merge_ok) (auto simp: hlc_defs)

lemma clock_step_ok: "hlc_ok c \<Longrightarrow> hlc_ok (clock_step c e)"
  by (cases e) (simp_all add: tick_ok merge_ok)

lemma clock_step_advances: "hlc_ok c \<Longrightarrow> pack c < pack (clock_step c e)"
  by (cases e) (simp_all add: tick_advances merge_advances_local)

text \<open>The clock object keeps the interface of a stamping component.\<close>

interpretation hlc_clock: stamping clock_step hlc_ok pack
  by unfold_locales (simp_all add: clock_step_ok clock_step_advances)

section \<open>Properties\<close>

text \<open>
  The wire encoding of a clock is lossless: decoding the packed integer of a well-formed
  clock whose physical half fits 48 bits returns the clock.
\<close>

theorem unpack_pack:
  assumes "hlc_ok c" and "physical_ms c \<le> PHYSICAL_MAX"
  shows "unpack (pack c) = c"
proof -
  have "pack c div 2 ^ 16 = physical_ms c" and "pack c mod 2 ^ 16 = logical c"
    using hlc_okD [OF assms(1)] by (simp_all add: pack_ok_eq [OF assms(1)] div_mult_self3)
  then show ?thesis
    using hlc_okD(1) [OF assms(1)] assms(2) by (simp add: unpack_eq PHYSICAL_MAX_eq)
qed

theorem unpack_pack_witness:
  "unpack (pack \<lparr>physical_ms = 1700000000000, logical = 7\<rparr>)
     = \<lparr>physical_ms = 1700000000000, logical = 7\<rparr>"
  by (rule unpack_pack) (simp_all add: hlc_ok_def LOGICAL_MAX_eq PHYSICAL_MAX_eq)

text \<open>
  C24. Every use of one clock object, ticks and merges in any order and whatever the system clock
  reads, hands out strictly increasing stamps, all above the stamp the clock started at.
\<close>

theorem clock_stamps_increasing:
  assumes "hlc_ok c"
  shows "sorted_wrt (<) (pack c # clock_stamps c es)"
  by (rule hlc_clock.stamps_increasing) (simp_all add: assms Let_def)

theorem clock_stamps_increasing_witness:
  "sorted_wrt (<) (pack \<lparr>physical_ms = 5, logical = 65535\<rparr>
     # clock_stamps \<lparr>physical_ms = 5, logical = 65535\<rparr> [Tick 3, Merge (Wire 400000), Tick 5])"
  by (rule clock_stamps_increasing) (simp add: hlc_ok_def LOGICAL_MAX_eq)

text \<open>
  Merging an observed stamp moves a clock past that stamp exactly when the observed physical
  time is not newer than the local one. When it is newer, the logical half restarts at 0 and the
  merged clock does not get past the observed stamp, although the docstring of \<open>merge\<close> promises
  a state with both halves advanced past the maximum of the two inputs.
\<close>

theorem merge_advances_observed_iff:
  assumes "hlc_ok c" and "hlc_ok (observed_hlc obs)"
  shows "pack (observed_hlc obs) < pack (merge c obs) \<longleftrightarrow>
    physical_ms (observed_hlc obs) \<le> physical_ms c"
  using assms by (simp add: pack_less_iff merge_ok) (auto simp: hlc_defs)

theorem merge_advances_observed_iff_witness:
  "(pack (unpack 393223) < pack (merge \<lparr>physical_ms = 5, logical = 0\<rparr> (Wire 393223))
    \<longleftrightarrow> physical_ms (unpack 393223) \<le> 5) \<and> \<not> physical_ms (unpack 393223) \<le> 5"
  using merge_advances_observed_iff [of "\<lparr>physical_ms = 5, logical = 0\<rparr>" "Wire 393223"]
  by (simp add: unpack_ok) (simp add: unpack_eq hlc_ok_def LOGICAL_MAX_eq)

end
