(* ===== verification/Fragment.thy ===== *)
theory Fragment
  imports Hlc
begin

text \<open>
  The immutable data model: \<open>PayloadIdentity\<close> (\<open>membrane/identity.py\<close>), \<open>Fragment\<close> with its
  constructor checks, copies and \<open>merge\<close>, and the tenant-scoped storage keys
  (\<open>membrane/fragment.py\<close>). Floats are reals; the \<open>isinstance\<close> checks hold by typing.
\<close>

section \<open>Payload identity\<close>

definition DTYPE_VALUES :: "string list" where
  "DTYPE_VALUES =
     [''float16'', ''bfloat16'', ''float32'', ''float64'', ''int8'', ''int16'', ''int32'',
      ''int64'', ''uint8'', ''fp8_e4m3'', ''fp8_e5m2'', ''nf4'']"

record payload_identity =
  payload_hash :: string
  model_id :: string
  model_revision :: string
  tokenizer_name :: string
  tokenizer_revision :: string
  layer_range :: "int \<times> int"
  head_range :: "int \<times> int"
  token_span :: "int \<times> int"
  dtype :: string
  shape :: "int list"

definition check_range :: "int \<times> int \<Rightarrow> unit result" where
  "check_range r =
     (let (start, stop) = r in
      if start < 0 \<or> stop < 0 then Inl ValueError
      else if start > stop then Inl ValueError
      else Inr ())"

definition identity_post_init :: "payload_identity \<Rightarrow> unit result" where
  "identity_post_init i =
     (if payload_hash i = [] then Inl ValueError
      else if dtype i \<notin> set DTYPE_VALUES then Inl ValueError
      else bind_result (check_range (layer_range i)) (\<lambda>_.
        bind_result (check_range (token_span i)) (\<lambda>_.
        bind_result (if head_range i \<noteq> (-1, -1) then check_range (head_range i) else Inr ()) (\<lambda>_.
        if head_range i = (-1, -1) \<and> shape i = [] then Inl ValueError
        else if shape i = [] then Inl ValueError
        else Inr ()))))"

definition PayloadIdentity :: "payload_identity \<Rightarrow> payload_identity result" where
  "PayloadIdentity i = bind_result (identity_post_init i) (\<lambda>_. Inr i)"

section \<open>Storage keys\<close>

definition CONSISTENCY_LEVELS :: "string list" where
  "CONSISTENCY_LEVELS = [''strong'', ''quorum'', ''eventual'']"

definition DEFAULT_TENANT :: string where
  "DEFAULT_TENANT = ''public''"

definition KEY_SEPARATOR :: char where
  "KEY_SEPARATOR = CHR '':''"

definition fragment_key :: "string \<Rightarrow> string \<Rightarrow> string" where
  "fragment_key tenant hash =
     (if tenant = DEFAULT_TENANT then hash else tenant @ [KEY_SEPARATOR] @ hash)"

text \<open>\<open>str.rpartition\<close> with a one-character separator: split at its last occurrence.\<close>

definition rpartition :: "char \<Rightarrow> string \<Rightarrow> string \<times> string \<times> string" where
  "rpartition c s =
     (if c \<in> set s
      then (rev (tl (dropWhile (\<lambda>x. x \<noteq> c) (rev s))), [c], rev (takeWhile (\<lambda>x. x \<noteq> c) (rev s)))
      else ([], [], s))"

definition split_key :: "string \<Rightarrow> string \<times> string" where
  "split_key key =
     (let (tenant, sep, hash) = rpartition KEY_SEPARATOR key
      in if sep \<noteq> [] then (tenant, hash) else (DEFAULT_TENANT, key))"

definition forbidden_tenant_chars :: "char list" where
  "forbidden_tenant_chars =
     [CHR '' '', CHR '':'', CHR ''/'', CHR 0x5C, CHR 0x22, CHR 0x0A, CHR 0x09, CHR 0x0D]"

definition validate_tenant_id :: "string \<Rightarrow> unit result" where
  "validate_tenant_id tenant =
     (if tenant = [] then Inl ValueError
      else if length tenant > 128 then Inl ValueError
      else if list_ex (\<lambda>ch. ch \<in> set forbidden_tenant_chars) tenant then Inl ValueError
      else Inr ())"

section \<open>Fragments\<close>

record fragment =
  identity :: payload_identity
  payload_ref :: "string option"
  payload_size :: int
  ttl :: real
  reuse_score :: real
  version_id :: int
  consistency :: string
  hlc :: int
  fingerprint_compat :: string
  tenant_id :: string

definition hex_digits :: string where
  "hex_digits = ''0123456789abcdef''"

definition fragment_post_init :: "fragment \<Rightarrow> unit result" where
  "fragment_post_init f =
     (if payload_size f < 0 then Inl ValueError
      else if ttl f < 0 then Inl ValueError
      else if \<not> (0 \<le> reuse_score f \<and> reuse_score f \<le> 1) then Inl ValueError
      else if version_id f < 1 then Inl ValueError
      else if consistency f \<notin> set CONSISTENCY_LEVELS then Inl ValueError
      else bind_result (validate_tenant_id (tenant_id f)) (\<lambda>_.
        if hlc f < 0 then Inl ValueError
        else if fingerprint_compat f \<noteq> [] \<and>
          (length (fingerprint_compat f) \<noteq> 64 \<or>
           \<not> list_all (\<lambda>c. c \<in> set hex_digits) (fingerprint_compat f))
        then Inl ValueError
        else Inr ()))"

definition Fragment_new :: "fragment \<Rightarrow> fragment result" where
  "Fragment_new f = bind_result (fragment_post_init f) (\<lambda>_. Inr f)"

definition key :: "fragment \<Rightarrow> string" where
  "key f = fragment_key (tenant_id f) (payload_hash (identity f))"

definition hlc_state :: "fragment \<Rightarrow> hlc" where
  "hlc_state f = unpack (hlc f)"

definition with_consistency :: "fragment \<Rightarrow> string \<Rightarrow> fragment result" where
  "with_consistency f level =
     (if level \<notin> set CONSISTENCY_LEVELS then Inl ValueError
      else Fragment_new (f\<lparr>consistency := level\<rparr>))"

definition with_fingerprint :: "fragment \<Rightarrow> string \<Rightarrow> fragment result" where
  "with_fingerprint f fingerprint = Fragment_new (f\<lparr>fingerprint_compat := fingerprint\<rparr>)"

definition with_tenant :: "fragment \<Rightarrow> string \<Rightarrow> fragment result" where
  "with_tenant f tenant = Fragment_new (f\<lparr>tenant_id := tenant\<rparr>)"

text \<open>Python's \<open>a or b\<close> on an optional string: the empty string is falsy too.\<close>

definition or_ref :: "string option \<Rightarrow> string option \<Rightarrow> string option" where
  "or_ref a b = (case a of None \<Rightarrow> b | Some s \<Rightarrow> if s = [] then b else Some s)"

definition fragment_merge :: "fragment \<Rightarrow> fragment \<Rightarrow> fragment result" where
  "fragment_merge self other =
     (if identity other \<noteq> identity self then Inl ValueError
      else if tenant_id other \<noteq> tenant_id self then Inl ValueError
      else if hlc self \<ge> hlc other then Inr self
      else Fragment_new
        (self\<lparr>payload_ref := or_ref (payload_ref self) (payload_ref other),
              hlc := hlc other,
              fingerprint_compat := (if fingerprint_compat other \<noteq> [] then fingerprint_compat other
                                     else fingerprint_compat self)\<rparr>))"

section \<open>What the constructors guarantee\<close>

definition range_ok :: "int \<times> int \<Rightarrow> bool" where
  "range_ok r \<longleftrightarrow> 0 \<le> fst r \<and> fst r \<le> snd r"

definition identity_ok :: "payload_identity \<Rightarrow> bool" where
  "identity_ok i \<longleftrightarrow>
     payload_hash i \<noteq> [] \<and> dtype i \<in> set DTYPE_VALUES \<and> range_ok (layer_range i) \<and>
     range_ok (token_span i) \<and> (head_range i = (-1, -1) \<or> range_ok (head_range i)) \<and> shape i \<noteq> []"

definition tenant_ok :: "string \<Rightarrow> bool" where
  "tenant_ok t \<longleftrightarrow> t \<noteq> [] \<and> length t \<le> 128 \<and> set t \<inter> set forbidden_tenant_chars = {}"

definition fragment_ok :: "fragment \<Rightarrow> bool" where
  "fragment_ok f \<longleftrightarrow>
     0 \<le> payload_size f \<and> 0 \<le> ttl f \<and> 0 \<le> reuse_score f \<and> reuse_score f \<le> 1 \<and>
     1 \<le> version_id f \<and> consistency f \<in> set CONSISTENCY_LEVELS \<and> tenant_ok (tenant_id f) \<and>
     0 \<le> hlc f \<and>
     (fingerprint_compat f = [] \<or>
      length (fingerprint_compat f) = 64 \<and> set (fingerprint_compat f) \<subseteq> set hex_digits)"

text \<open>A fragment used by the witnesses of this development.\<close>

definition sample_identity :: payload_identity where
  "sample_identity =
     \<lparr>payload_hash = ''ab12'', model_id = ''m'', model_revision = [], tokenizer_name = ''t'',
      tokenizer_revision = [], layer_range = (0, 3), head_range = (-1, -1), token_span = (0, 127),
      dtype = ''float16'', shape = [1, 128]\<rparr>"

definition sample_fragment :: "string \<Rightarrow> int \<Rightarrow> fragment" where
  "sample_fragment t n =
     \<lparr>identity = sample_identity, payload_ref = Some ''ab12'', payload_size = 64, ttl = 60,
      reuse_score = 1 / 2, version_id = n, consistency = ''strong'', hlc = n,
      fingerprint_compat = [], tenant_id = t\<rparr>"

lemma check_range_Inr [simp]: "check_range r = Inr u \<longleftrightarrow> range_ok r"
  by (auto simp: check_range_def range_ok_def split: prod.splits)

lemma validate_tenant_id_Inr [simp]: "validate_tenant_id t = Inr u \<longleftrightarrow> tenant_ok t"
  by (auto simp: validate_tenant_id_def tenant_ok_def list_ex_iff)

lemma identity_post_init_Inr: "identity_post_init i = Inr u \<longleftrightarrow> identity_ok i"
  by (auto simp: identity_post_init_def identity_ok_def)

lemma fragment_post_init_Inr [simp]: "fragment_post_init f = Inr u \<longleftrightarrow> fragment_ok f"
  by (auto simp: fragment_post_init_def fragment_ok_def list_all_iff not_less)

lemma Fragment_new_Inr [simp]: "Fragment_new f = Inr g \<longleftrightarrow> g = f \<and> fragment_ok f"
  by (auto simp: Fragment_new_def)

lemma tenant_ok_no_separator: "tenant_ok t \<Longrightarrow> KEY_SEPARATOR \<notin> set t"
  by (auto simp: tenant_ok_def KEY_SEPARATOR_def forbidden_tenant_chars_def)

lemma tenant_ok_public: "tenant_ok DEFAULT_TENANT"
  by (simp add: tenant_ok_def DEFAULT_TENANT_def forbidden_tenant_chars_def)

lemma DEFAULT_TENANT_no_separator [simp]: "KEY_SEPARATOR \<notin> set DEFAULT_TENANT"
  by (rule tenant_ok_no_separator [OF tenant_ok_public])

section \<open>Keys\<close>

lemma rpartition_append:
  "c \<notin> set h \<Longrightarrow> rpartition c (t @ [c] @ h) = (t, [c], h)"
  by (auto simp: rpartition_def dropWhile_append takeWhile_append)

lemma split_key_bare: "KEY_SEPARATOR \<notin> set h \<Longrightarrow> split_key h = (DEFAULT_TENANT, h)"
  by (simp add: split_key_def rpartition_def)

lemma split_key_scoped:
  "KEY_SEPARATOR \<notin> set h \<Longrightarrow> split_key (t @ KEY_SEPARATOR # h) = (t, h)"
  using rpartition_append [of KEY_SEPARATOR h t] by (simp add: split_key_def)

lemma split_key_hash_no_separator: "KEY_SEPARATOR \<notin> set (snd (split_key k))"
  by (auto simp: split_key_def rpartition_def split: if_splits dest: set_takeWhileD)

lemma split_key_fragment_key_ok:
  "KEY_SEPARATOR \<notin> set h \<Longrightarrow> split_key (fragment_key t h) = (t, h)"
  by (simp add: fragment_key_def split_key_bare split_key_scoped)

lemma fragment_key_eq_public: "fragment_key t h = h \<longleftrightarrow> t = DEFAULT_TENANT"
proof
  assume "fragment_key t h = h"
  then have "length (fragment_key t h) = length h" by simp
  then show "t = DEFAULT_TENANT" by (auto simp: fragment_key_def split: if_splits)
qed (simp add: fragment_key_def)

section \<open>Copies\<close>

text \<open>A constructor call either refuses with a \<open>ValueError\<close> or returns its argument.\<close>

lemma validate_tenant_id_cases:
  "validate_tenant_id t = Inl ValueError \<or> validate_tenant_id t = Inr ()"
  by (simp add: validate_tenant_id_def)

lemma fragment_post_init_cases:
  "fragment_post_init f = Inl ValueError \<or> fragment_post_init f = Inr ()"
  using validate_tenant_id_cases [of "tenant_id f"] unfolding fragment_post_init_def
  by (elim disjE) (simp_all del: validate_tenant_id_Inr)

lemma Fragment_new_cases:
  "Fragment_new f = Inl ValueError \<and> \<not> fragment_ok f \<or> Fragment_new f = Inr f \<and> fragment_ok f"
  using fragment_post_init_cases [of f] fragment_post_init_Inr [of f "()"]
  by (elim disjE) (simp_all add: Fragment_new_def)

lemma or_ref_cases: "or_ref a b = a \<or> or_ref a b = b"
  by (simp add: or_ref_def split: option.splits)

section \<open>Properties\<close>

text \<open>
  A storage key splits back into the tenant and the content hash it was built from exactly
  when the content hash has no key separator. \<open>PayloadIdentity\<close> accepts any non-empty content
  hash, so the round trip rests on producers using separator-free digests.
\<close>

theorem split_key_fragment_key_iff:
  "split_key (fragment_key t h) = (t, h) \<longleftrightarrow> KEY_SEPARATOR \<notin> set h"
  using split_key_hash_no_separator [of "fragment_key t h"] split_key_fragment_key_ok [of h t]
  by auto

text \<open>
  Tenant isolation of the key space: two fragments with separator-free content hashes share a
  storage key only if they have the same tenant and the same content hash, so byte-identical
  content of two tenants is never stored under one key.
\<close>

theorem key_injective:
  assumes "KEY_SEPARATOR \<notin> set (payload_hash (identity f))"
    and "KEY_SEPARATOR \<notin> set (payload_hash (identity g))"
    and "key f = key g"
  shows "tenant_id f = tenant_id g \<and> payload_hash (identity f) = payload_hash (identity g)"
proof -
  have "split_key (key f) = (tenant_id f, payload_hash (identity f))"
    using assms(1) by (simp add: key_def split_key_fragment_key_ok)
  moreover have "split_key (key g) = (tenant_id g, payload_hash (identity g))"
    using assms(2) by (simp add: key_def split_key_fragment_key_ok)
  ultimately show ?thesis using assms(3) by simp
qed

theorem key_injective_witness:
  "tenant_id (sample_fragment ''acme'' 1) = tenant_id (sample_fragment ''acme'' 2) \<and>
   payload_hash (identity (sample_fragment ''acme'' 1))
     = payload_hash (identity (sample_fragment ''acme'' 2))"
  by (rule key_injective)
     (simp_all add: sample_fragment_def sample_identity_def KEY_SEPARATOR_def key_def)

text \<open>
  The constructor accepts exactly the well-formed fragments and refuses every other argument
  with a \<open>ValueError\<close>.
\<close>

theorem Fragment_new_accepts_iff:
  "Fragment_new f = (if fragment_ok f then Inr f else Inl ValueError)"
  using Fragment_new_cases [of f] by auto

text \<open>
  Merging two well-formed fragments of one identity and tenant succeeds and keeps the larger
  clock, but the size, lifetime, score, version and consistency level of the result are always
  those of the receiver, also when the argument's clock wins. Merging in the two orders can
  therefore give different fragments, although the docstring says that the fragment with the
  higher clock is returned.
\<close>

theorem fragment_merge_keeps_self:
  assumes "fragment_ok f" and "fragment_ok g"
    and "identity g = identity f" and "tenant_id g = tenant_id f"
  shows "\<exists>m. fragment_merge f g = Inr m \<and> fragment_ok m \<and> hlc m = max (hlc f) (hlc g) \<and>
    identity m = identity f \<and> tenant_id m = tenant_id f \<and> payload_size m = payload_size f \<and>
    ttl m = ttl f \<and> reuse_score m = reuse_score f \<and> version_id m = version_id f \<and>
    consistency m = consistency f \<and> payload_ref m \<in> {payload_ref f, payload_ref g}"
proof (cases "hlc f \<ge> hlc g")
  case True
  with assms show ?thesis by (simp add: fragment_merge_def max_def)
next
  case False
  define m where "m = f\<lparr>payload_ref := or_ref (payload_ref f) (payload_ref g), hlc := hlc g,
    fingerprint_compat := (if fingerprint_compat g \<noteq> [] then fingerprint_compat g
                           else fingerprint_compat f)\<rparr>"
  have "fragment_ok m"
    using assms(1,2) by (auto simp: m_def fragment_ok_def)
  then have "fragment_merge f g = Inr m"
    using assms False by (simp add: fragment_merge_def m_def)
  with \<open>fragment_ok m\<close> False or_ref_cases show ?thesis by (auto simp: m_def)
qed

theorem fragment_merge_keeps_self_witness:
  "\<exists>m. fragment_merge (sample_fragment ''acme'' 1) (sample_fragment ''acme'' 2) = Inr m \<and>
    fragment_ok m \<and> hlc m = 2 \<and> version_id m = 1 \<and>
    fragment_merge (sample_fragment ''acme'' 2) (sample_fragment ''acme'' 1) \<noteq> Inr m"
  using fragment_merge_keeps_self [of "sample_fragment ''acme'' 1" "sample_fragment ''acme'' 2"]
  by (auto simp: sample_fragment_def fragment_ok_def tenant_ok_def CONSISTENCY_LEVELS_def
      forbidden_tenant_chars_def fragment_merge_def)

end
