(* ===== verification/Digest.thy ===== *)
theory Digest
  imports Fragment "HOL-Library.Word"
begin

text \<open>
  The bucketed inventory digest of \<open>membrane/store/digest.py\<close>: every bucket keeps its members and
  the XOR of a 64-bit leaf per member, \<open>root\<close> is a cached SHA-256 over the bucket digests, and
  \<open>page\<close> lists one bucket in hash order. The digest functions of \<open>hashlib\<close> are arguments:
  \<open>blake4\<close> and \<open>blake8\<close> are BLAKE2b with 4 and 8 bytes of output read as big-endian integers,
  \<open>sha\<close> is SHA-256. A lock makes every operation one step.
\<close>

unbundle bit_operations_syntax

definition BUCKETS :: nat where
  "BUCKETS = 1024"

definition bucket_of :: "(string \<Rightarrow> nat) \<Rightarrow> string \<Rightarrow> nat" where
  "bucket_of blake4 h = blake4 h mod BUCKETS"

definition leaf :: "(string \<Rightarrow> 64 word) \<Rightarrow> string \<Rightarrow> int \<Rightarrow> 64 word" where
  "leaf blake8 h version = blake8 (h @ [CHR 0x00] @ str_int version)"

definition fold_leaves :: "(string \<Rightarrow> 64 word) \<Rightarrow> (string, int) dict \<Rightarrow> 64 word" where
  "fold_leaves blake8 entries = foldl (\<lambda>value (h, version). value XOR leaf blake8 h version) 0 entries"

record inventory_digest =
  digests :: "64 word list"
  members :: "(string, int) dict list"
  root_cache :: "(nat \<times> string) option"
  changes :: nat

definition digest_init :: inventory_digest where
  "digest_init =
     \<lparr>digests = replicate BUCKETS 0, members = replicate BUCKETS [], root_cache = None, changes = 0\<rparr>"

definition digest_add ::
  "(string \<Rightarrow> nat) \<Rightarrow> (string \<Rightarrow> 64 word) \<Rightarrow> string \<Rightarrow> int \<Rightarrow> inventory_digest \<Rightarrow> inventory_digest" where
  "digest_add blake4 blake8 h version d =
     (let bucket = bucket_of blake4 h;
          ms = members d ! bucket;
          previous = map_of ms h in
      if previous = Some version then d
      else
        let ds = (case previous of
                    None \<Rightarrow> digests d
                  | Some p \<Rightarrow> (digests d)[bucket := digests d ! bucket XOR leaf blake8 h p])
        in d\<lparr>digests := ds[bucket := ds ! bucket XOR leaf blake8 h version],
             members := (members d)[bucket := dict_set ms h version],
             changes := Suc (changes d)\<rparr>)"

definition digest_remove ::
  "(string \<Rightarrow> nat) \<Rightarrow> (string \<Rightarrow> 64 word) \<Rightarrow> string \<Rightarrow> inventory_digest \<Rightarrow> inventory_digest" where
  "digest_remove blake4 blake8 h d =
     (let bucket = bucket_of blake4 h; ms = members d ! bucket in
      case map_of ms h of
        None \<Rightarrow> d
      | Some previous \<Rightarrow>
          d\<lparr>digests := (digests d)[bucket := digests d ! bucket XOR leaf blake8 h previous],
            members := (members d)[bucket := dict_del ms h],
            changes := Suc (changes d)\<rparr>)"

definition buckets :: "inventory_digest \<Rightarrow> 64 word list" where
  "buckets d = digests d"

definition digest_len :: "inventory_digest \<Rightarrow> nat" where
  "digest_len d = sum_list (map length (members d))"

text \<open>\<open>int.to_bytes(8, "big")\<close> of a 64-bit value.\<close>

definition to_bytes8 :: "64 word \<Rightarrow> string" where
  "to_bytes8 w = map (\<lambda>i. char_of (unat (drop_bit (8 * i) w))) [7, 6, 5, 4, 3, 2, 1, 0]"

definition packed_root :: "(string \<Rightarrow> string) \<Rightarrow> 64 word list \<Rightarrow> string" where
  "packed_root sha ds = sha (concat (map to_bytes8 ds))"

definition digest_root :: "(string \<Rightarrow> string) \<Rightarrow> inventory_digest \<Rightarrow> inventory_digest \<times> string" where
  "digest_root sha d =
     (case root_cache d of
        Some (c, r) \<Rightarrow>
          if c = changes d then (d, r)
          else (d\<lparr>root_cache := Some (changes d, packed_root sha (digests d))\<rparr>, packed_root sha (digests d))
      | None \<Rightarrow>
          (d\<lparr>root_cache := Some (changes d, packed_root sha (digests d))\<rparr>, packed_root sha (digests d)))"

text \<open>\<open>random.shuffle\<close> fixes the order in which \<open>sample\<close> visits the buckets; it is an argument.\<close>

fun sample_loop :: "(string, int) dict list \<Rightarrow> nat \<Rightarrow> nat list \<Rightarrow> string list \<Rightarrow> string list" where
  "sample_loop mss cnt [] picked = picked"
| "sample_loop mss cnt (b # order) picked =
     (if mss ! b \<noteq> []
      then let picked' = picked @ take (cnt - length picked) (map fst (mss ! b))
           in if length picked' \<ge> cnt then picked' else sample_loop mss cnt order picked'
      else sample_loop mss cnt order picked)"

definition digest_sample :: "nat list \<Rightarrow> int \<Rightarrow> inventory_digest \<Rightarrow> string list" where
  "digest_sample order cnt d =
     (if cnt \<le> 0 then [] else sample_loop (members d) (nat cnt) order [])"

definition page :: "nat \<Rightarrow> string \<Rightarrow> int \<Rightarrow> inventory_digest \<Rightarrow> (string, int) dict \<times> string" where
  "page bucket after limit d =
     (let ms = members d ! bucket;
          ordered = sort (filter (\<lambda>h. h > after) (map fst ms)) in
      if limit > 0 \<and> int (length ordered) > limit
      then let cut = take (nat limit) ordered in (map (\<lambda>h. (h, the (map_of ms h))) cut, last cut)
      else (map (\<lambda>h. (h, the (map_of ms h))) ordered, []))"

definition encode_cursor :: "nat \<Rightarrow> string \<Rightarrow> string" where
  "encode_cursor bucket h = str_nat bucket @ [CHR '':''] @ h"

text \<open>\<open>str.partition\<close> with a one-character separator: split at its first occurrence.\<close>

definition partition_str :: "char \<Rightarrow> string \<Rightarrow> string \<times> string \<times> string" where
  "partition_str c s =
     (if c \<in> set s then (takeWhile (\<lambda>x. x \<noteq> c) s, [c], tl (dropWhile (\<lambda>x. x \<noteq> c) s))
      else (s, [], []))"

definition decode_cursor :: "string \<Rightarrow> nat \<times> string" where
  "decode_cursor cursor =
     (let (bucket, sep, h) = partition_str (CHR '':'') cursor in
      if sep = [] \<or> \<not> isdigit bucket then (0, [])
      else (min (int_of_digits bucket) (BUCKETS - 1), h))"

section \<open>XOR folds\<close>

text \<open>
  The XOR of a list of leaves depends only on their multiset, and XOR-ing a leaf twice removes it:
  this is what makes the constant-time updates of the digest right.
\<close>

definition xor_all :: "64 word list \<Rightarrow> 64 word" where
  "xor_all ws = foldr (XOR) ws 0"

lemma xor_all_simps [simp]: "xor_all [] = 0" "xor_all (w # ws) = w XOR xor_all ws"
  by (simp_all add: xor_all_def)

lemma xor_cancel [simp]: "(a XOR (a XOR b)) = (b :: 64 word)"
  by (simp add: xor.assoc [symmetric])

lemma xor_all_append: "xor_all (us @ ws) = xor_all us XOR xor_all ws"
  by (induction us) (simp_all add: xor.assoc)

lemma xor_all_mset: "mset us = mset ws \<Longrightarrow> xor_all us = xor_all ws"
proof (induction us arbitrary: ws)
  case Nil
  then show ?case by simp
next
  case (Cons u us)
  then have "u \<in> set ws" by (metis list.set_intros(1) set_mset_mset)
  then obtain ws1 ws2 where ws: "ws = ws1 @ u # ws2" by (meson split_list)
  with Cons.prems have "mset us = mset (ws1 @ ws2)" by simp
  then have "xor_all us = xor_all (ws1 @ ws2)" by (rule Cons.IH)
  then show ?case by (simp add: ws xor_all_append xor.left_commute)
qed

abbreviation entry_leaf :: "(string \<Rightarrow> 64 word) \<Rightarrow> string \<times> int \<Rightarrow> 64 word" where
  "entry_leaf blake8 e \<equiv> leaf blake8 (fst e) (snd e)"

lemma fold_leaves_eq: "fold_leaves blake8 es = xor_all (map (entry_leaf blake8) es)"
proof -
  have "foldl (\<lambda>value (h, version). value XOR leaf blake8 h version) x es
      = x XOR xor_all (map (entry_leaf blake8) es)" for x
    by (induction es arbitrary: x) (auto simp: xor.assoc)
  then show ?thesis by (simp add: fold_leaves_def)
qed

lemma fold_leaves_set_new:
  "\<not> dict_has ms h \<Longrightarrow>
    fold_leaves blake8 (dict_set ms h v) = fold_leaves blake8 ms XOR leaf blake8 h v"
  by (simp add: fold_leaves_eq dict_set_new xor_all_append)

lemma fold_leaves_del:
  assumes "dict_ok ms" and "map_of ms h = Some p"
  shows "fold_leaves blake8 (dict_del ms h) = fold_leaves blake8 ms XOR leaf blake8 h p"
proof -
  have "mset (map (entry_leaf blake8) ms)
      = mset (leaf blake8 h p # map (entry_leaf blake8) (dict_del ms h))"
    using dict_del_mset [OF assms] by simp
  from xor_all_mset [OF this]
  have eq: "fold_leaves blake8 ms = leaf blake8 h p XOR fold_leaves blake8 (dict_del ms h)"
    by (simp add: fold_leaves_eq)
  show ?thesis unfolding eq by (simp add: xor.commute [of _ "leaf blake8 h p"])
qed

lemma fold_leaves_set_old:
  assumes "dict_ok ms" and "map_of ms h = Some p"
  shows "fold_leaves blake8 (dict_set ms h v)
    = (fold_leaves blake8 ms XOR leaf blake8 h p) XOR leaf blake8 h v"
proof -
  have "dict_del (dict_set ms h v) h = dict_del ms h"
    by (rule delete_update_same)
  moreover have "fold_leaves blake8 (dict_del (dict_set ms h v) h)
      = fold_leaves blake8 (dict_set ms h v) XOR leaf blake8 h v"
    by (rule fold_leaves_del) (simp_all add: assms)
  ultimately have eq: "fold_leaves blake8 ms XOR leaf blake8 h p
      = fold_leaves blake8 (dict_set ms h v) XOR leaf blake8 h v"
    using fold_leaves_del [OF assms, of blake8] by simp
  show ?thesis unfolding eq by (simp add: xor.assoc)
qed

section \<open>Invariant and abstraction\<close>

text \<open>
  The contents of a digest as a map from content hash to version, and the invariant: every bucket
  holds only hashes that belong to it and digests to the XOR of its leaves.
\<close>

definition digest_contents :: "(string \<Rightarrow> nat) \<Rightarrow> inventory_digest \<Rightarrow> string \<rightharpoonup> int" where
  "digest_contents blake4 d h = map_of (members d ! bucket_of blake4 h) h"

definition digest_inv :: "(string \<Rightarrow> nat) \<Rightarrow> (string \<Rightarrow> 64 word) \<Rightarrow> inventory_digest \<Rightarrow> bool" where
  "digest_inv blake4 blake8 d \<longleftrightarrow>
     length (digests d) = BUCKETS \<and> length (members d) = BUCKETS \<and>
     (\<forall>b < BUCKETS. dict_ok (members d ! b) \<and>
        (\<forall>h. dict_has (members d ! b) h \<longrightarrow> bucket_of blake4 h = b) \<and>
        digests d ! b = fold_leaves blake8 (members d ! b))"

definition root_inv :: "(string \<Rightarrow> string) \<Rightarrow> inventory_digest \<Rightarrow> bool" where
  "root_inv sha d \<longleftrightarrow>
     (case root_cache d of None \<Rightarrow> True
      | Some (c, r) \<Rightarrow> c \<le> changes d \<and> (c = changes d \<longrightarrow> r = packed_root sha (digests d)))"

lemma bucket_of_less [simp]: "bucket_of blake4 h < BUCKETS"
  by (simp add: bucket_of_def BUCKETS_def)

lemma digest_invD:
  assumes "digest_inv blake4 blake8 d"
  shows "length (digests d) = BUCKETS" "length (members d) = BUCKETS"
    "b < BUCKETS \<Longrightarrow> dict_ok (members d ! b)"
    "b < BUCKETS \<Longrightarrow> dict_has (members d ! b) h \<Longrightarrow> bucket_of blake4 h = b"
    "b < BUCKETS \<Longrightarrow> digests d ! b = fold_leaves blake8 (members d ! b)"
  using assms by (auto simp: digest_inv_def)

text \<open>
  Replacing one bucket's members and its digest keeps the invariant when they agree: the shape of
  both updates.
\<close>

lemma digest_inv_update:
  assumes "digest_inv blake4 blake8 d" and "b < BUCKETS"
    and "dict_ok ms" and "\<And>h. dict_has ms h \<Longrightarrow> bucket_of blake4 h = b"
    and "w = fold_leaves blake8 ms"
  shows "digest_inv blake4 blake8
    (d\<lparr>digests := (digests d)[b := w], members := (members d)[b := ms], changes := n\<rparr>)"
  using assms unfolding digest_inv_def by (auto simp: nth_list_update)

lemma digest_inv_init: "digest_inv blake4 blake8 digest_init"
  by (simp add: digest_inv_def digest_init_def fold_leaves_def dict_has_def)

lemma digest_add_eq:
  assumes "digest_inv blake4 blake8 d"
  shows "digest_add blake4 blake8 h v d =
    (let b = bucket_of blake4 h; ms = members d ! b in
     if map_of ms h = Some v then d
     else d\<lparr>digests := (digests d)[b := fold_leaves blake8 (dict_set ms h v)],
            members := (members d)[b := dict_set ms h v], changes := Suc (changes d)\<rparr>)"
proof -
  define b where "b = bucket_of blake4 h"
  have b: "b < BUCKETS" "b < length (digests d)"
    using digest_invD(1) [OF assms] by (simp_all add: b_def)
  note inv = digest_invD(3,5) [OF assms b(1)]
  show ?thesis
  proof (cases "map_of (members d ! b) h")
    case None
    then have "fold_leaves blake8 (dict_set (members d ! b) h v)
        = digests d ! b XOR leaf blake8 h v"
      by (simp add: fold_leaves_set_new dict_has_def inv)
    with None show ?thesis
      by (simp add: digest_add_def b_def [symmetric] Let_def)
  next
    case (Some p)
    then have "fold_leaves blake8 (dict_set (members d ! b) h v)
        = (digests d ! b XOR leaf blake8 h p) XOR leaf blake8 h v"
      by (simp add: fold_leaves_set_old inv)
    with Some b show ?thesis
      by (simp add: digest_add_def b_def [symmetric] Let_def)
  qed
qed

lemma digest_remove_eq:
  assumes "digest_inv blake4 blake8 d"
  shows "digest_remove blake4 blake8 h d =
    (let b = bucket_of blake4 h; ms = members d ! b in
     if map_of ms h = None then d
     else d\<lparr>digests := (digests d)[b := fold_leaves blake8 (dict_del ms h)],
            members := (members d)[b := dict_del ms h], changes := Suc (changes d)\<rparr>)"
  using digest_invD(3,5) [OF assms, of "bucket_of blake4 h"]
  by (auto simp: digest_remove_def Let_def fold_leaves_del split: option.splits)

lemma digest_inv_add:
  assumes "digest_inv blake4 blake8 d"
  shows "digest_inv blake4 blake8 (digest_add blake4 blake8 h v d)"
  using digest_invD(3,4) [OF assms bucket_of_less]
  by (auto simp: digest_add_eq [OF assms] Let_def assms intro!: digest_inv_update)

lemma digest_inv_remove:
  assumes "digest_inv blake4 blake8 d"
  shows "digest_inv blake4 blake8 (digest_remove blake4 blake8 h d)"
  using digest_invD(3,4) [OF assms bucket_of_less]
  by (auto simp: digest_remove_eq [OF assms] Let_def assms intro!: digest_inv_update)

lemma digest_contents_init [simp]: "digest_contents blake4 digest_init = Map.empty"
  by (rule ext) (simp add: digest_contents_def digest_init_def)

lemma digest_contents_add:
  assumes "digest_inv blake4 blake8 d"
  shows "digest_contents blake4 (digest_add blake4 blake8 h v d) = (digest_contents blake4 d)(h := Some v)"
  by (rule ext)
     (auto simp: digest_add_eq [OF assms] digest_contents_def Let_def nth_list_update
       digest_invD(2) [OF assms])

lemma digest_contents_remove:
  assumes "digest_inv blake4 blake8 d"
  shows "digest_contents blake4 (digest_remove blake4 blake8 h d) = (digest_contents blake4 d)(h := None)"
  by (rule ext)
     (auto simp: digest_remove_eq [OF assms] digest_contents_def Let_def nth_list_update
       digest_invD(2) [OF assms])

text \<open>The digest is a keyed store of versions, whatever the hash functions are.\<close>

interpretation digest_store: keyed_store "digest_add blake4 blake8" "digest_contents blake4"
  "digest_remove blake4 blake8" "digest_inv blake4 blake8"
  for blake4 :: "string \<Rightarrow> nat" and blake8 :: "string \<Rightarrow> 64 word"
  by unfold_locales
     (simp_all add: digest_contents_add digest_contents_remove digest_inv_add digest_inv_remove)

lemma members_mset_eq:
  assumes "digest_inv blake4 blake8 d" and "digest_inv blake4 blake8 e"
    and "digest_contents blake4 d = digest_contents blake4 e" and "b < BUCKETS"
  shows "mset (members d ! b) = mset (members e ! b)"
proof -
  have "map_of (members d ! b) h = map_of (members e ! b) h" for h
  proof (cases "bucket_of blake4 h = b")
    case True
    then show ?thesis using fun_cong [OF assms(3), of h] by (simp add: digest_contents_def)
  next
    case False
    then show ?thesis
      using digest_invD(4) [OF assms(1,4)] digest_invD(4) [OF assms(2,4)]
      by (metis dict_has_def)
  qed
  then have "map_of (members d ! b) = map_of (members e ! b)" by (rule ext)
  then have "set (members d ! b) = set (members e ! b)"
    using digest_invD(3) [OF assms(1,4)] digest_invD(3) [OF assms(2,4)]
    by (simp add: map_of_inject_set)
  then show ?thesis
    using digest_invD(3) [OF assms(1,4)] digest_invD(3) [OF assms(2,4)]
    by (simp add: set_eq_iff_mset_eq_distinct distinct_map)
qed

section \<open>Histories\<close>

text \<open>The operations of a digest, to speak about arbitrary histories of one.\<close>

datatype digest_op = Add string int | Remove string | Root

fun digest_step ::
  "(string \<Rightarrow> nat) \<Rightarrow> (string \<Rightarrow> 64 word) \<Rightarrow> (string \<Rightarrow> string) \<Rightarrow> inventory_digest \<Rightarrow> digest_op
    \<Rightarrow> inventory_digest" where
  "digest_step b4 b8 sha d (Add h v) = digest_add b4 b8 h v d"
| "digest_step b4 b8 sha d (Remove h) = digest_remove b4 b8 h d"
| "digest_step b4 b8 sha d Root = fst (digest_root sha d)"

abbreviation digest_run ::
  "(string \<Rightarrow> nat) \<Rightarrow> (string \<Rightarrow> 64 word) \<Rightarrow> (string \<Rightarrow> string) \<Rightarrow> digest_op list \<Rightarrow> inventory_digest" where
  "digest_run b4 b8 sha ops \<equiv> foldl (digest_step b4 b8 sha) digest_init ops"

lemma digest_root_members [simp]:
  "members (fst (digest_root sha d)) = members d" "digests (fst (digest_root sha d)) = digests d"
  "changes (fst (digest_root sha d)) = changes d"
  by (auto simp: digest_root_def split: option.splits)

lemma digest_root_inv [simp]: "digest_inv b4 b8 (fst (digest_root sha d)) = digest_inv b4 b8 d"
  by (simp add: digest_inv_def)

lemma digest_root_contents [simp]:
  "digest_contents b4 (fst (digest_root sha d)) = digest_contents b4 d"
  by (rule ext) (simp add: digest_contents_def)

lemma digest_step_inv: "digest_inv b4 b8 d \<Longrightarrow> digest_inv b4 b8 (digest_step b4 b8 sha d opn)"
  by (cases opn) (simp_all add: digest_inv_add digest_inv_remove)

lemma root_inv_changed:
  "root_inv sha d \<Longrightarrow> root_inv sha (d\<lparr>digests := ds, members := ms, changes := Suc (changes d)\<rparr>)"
  by (auto simp: root_inv_def split: option.splits)

lemma digest_step_root_inv: "root_inv sha d \<Longrightarrow> root_inv sha (digest_step b4 b8 sha d opn)"
proof (cases opn)
  case Root
  then show "root_inv sha d \<Longrightarrow> ?thesis"
    by (auto simp: root_inv_def digest_root_def split: option.splits)
qed (auto simp: digest_add_def digest_remove_def Let_def split: option.splits
    intro: root_inv_changed)

interpretation digest_history: stepping "digest_step b4 b8 sha" "\<lambda>d. digest_inv b4 b8 d \<and> root_inv sha d"
  for b4 :: "string \<Rightarrow> nat" and b8 :: "string \<Rightarrow> 64 word" and sha :: "string \<Rightarrow> string"
  by unfold_locales (simp add: digest_step_inv digest_step_root_inv)

lemma digest_run_ok:
  "digest_inv b4 b8 (digest_run b4 b8 sha ops)" "root_inv sha (digest_run b4 b8 sha ops)"
proof -
  have "digest_inv b4 b8 digest_init \<and> root_inv sha digest_init"
    by (simp add: digest_inv_init) (simp add: root_inv_def digest_init_def)
  from digest_history.run_ok [OF this, of ops]
  show "digest_inv b4 b8 (digest_run b4 b8 sha ops)" "root_inv sha (digest_run b4 b8 sha ops)"
    by simp_all
qed

lemma digest_root_value:
  "root_inv sha d \<Longrightarrow> snd (digest_root sha d) = packed_root sha (digests d)"
  by (auto simp: digest_root_def root_inv_def split: option.splits)

section \<open>Paging\<close>

lemma filter_greater_drop:
  assumes "sorted xs" and "distinct xs" and "0 < n" and "n < length xs"
  shows "filter (\<lambda>x. xs ! (n - 1) < x) xs = drop n xs"
proof -
  have "\<forall>x \<in> set (take n xs). \<not> xs ! (n - 1) < x"
    using assms(1,3,4) by (auto simp: in_set_conv_nth not_less intro!: sorted_nth_mono) arith+
  moreover have "\<forall>x \<in> set (drop n xs). xs ! (n - 1) < x"
  proof
    fix x assume "x \<in> set (drop n xs)"
    then obtain i where i: "x = xs ! (n + i)" "n + i < length xs"
      by (auto simp: in_set_conv_nth)
    have "xs ! (n - 1) \<le> xs ! (n + i)" using assms(1) i by (intro sorted_nth_mono) auto
    moreover have "xs ! (n - 1) \<noteq> xs ! (n + i)" using assms(2,3) i by (simp add: nth_eq_iff_index_eq)
    ultimately show "xs ! (n - 1) < x" using i by simp
  qed
  ultimately have "filter (\<lambda>x. xs ! (n - 1) < x) (take n xs @ drop n xs) = drop n xs"
    unfolding filter_append by (simp add: filter_empty_conv)
  then show ?thesis by simp
qed

lemma sort_filter_greater:
  assumes "distinct ks" and "0 < n" and "n < length ys" and "ys = sort (filter (\<lambda>h. a < h) ks)"
  shows "sort (filter (\<lambda>h. last (take n ys) < h) ks) = drop n (ys :: string list)"
proof -
  let ?l = "last (take n ys)"
  have "take n ys \<noteq> []" using assms(2,3) by auto
  then have l: "?l = ys ! (n - 1)" using assms(2,3) by (simp add: last_conv_nth min_def)
  have ys: "sorted ys" "distinct ys" using assms(1,4) by simp_all
  have "?l \<in> set ys" using assms(2,3) by (simp add: l)
  then have "a < ?l" using assms(4) by auto
  then have "filter (\<lambda>h. ?l < h) ks = filter (\<lambda>h. ?l < h) (filter (\<lambda>h. a < h) ks)"
    by (auto intro: filter_cong)
  then have "sort (filter (\<lambda>h. ?l < h) ks) = filter (\<lambda>h. ?l < h) ys"
    using assms(4) by (simp only: filter_sort)
  then show ?thesis using filter_greater_drop [OF ys assms(2,3)] by (simp add: l)
qed

lemma page_values:
  assumes "0 < limit" and "page b after limit d = (es, cursor)"
  defines "ys \<equiv> sort (filter (\<lambda>h. after < h) (map fst (members d ! b)))"
  shows "es = map (\<lambda>h. (h, the (map_of (members d ! b) h))) (map fst es)"
    and "map fst es = (if int (length ys) > limit then take (nat limit) ys else ys)"
    and "cursor = (if int (length ys) > limit then last (take (nat limit) ys) else [])"
proof -
  have "page b after limit d =
      (map (\<lambda>h. (h, the (map_of (members d ! b) h)))
         (if int (length ys) > limit then take (nat limit) ys else ys),
       if int (length ys) > limit then last (take (nat limit) ys) else [])"
    using assms(1) unfolding page_def Let_def ys_def by simp
  with assms(2) show "es = map (\<lambda>h. (h, the (map_of (members d ! b) h))) (map fst es)"
    and "map fst es = (if int (length ys) > limit then take (nat limit) ys else ys)"
    and "cursor = (if int (length ys) > limit then last (take (nat limit) ys) else [])"
    by (simp_all only: prod.inject) (auto simp: comp_def)
qed

section \<open>Properties\<close>

text \<open>
  C23. The bucket digests are a function of the inventory alone: two nodes that hold the same
  hashes at the same versions have equal bucket digests, whatever the orders of stores, version
  changes, removals and root queries that led there.
\<close>

theorem buckets_determined_by_contents:
  assumes "digest_contents b4 (digest_run b4 b8 sha ops) = digest_contents b4 (digest_run b4 b8 sha ops')"
  shows "buckets (digest_run b4 b8 sha ops) = buckets (digest_run b4 b8 sha ops')"
proof (rule nth_equalityI)
  note inv = digest_run_ok(1) [of b4 b8 sha ops] digest_run_ok(1) [of b4 b8 sha ops']
  show "length (buckets (digest_run b4 b8 sha ops)) = length (buckets (digest_run b4 b8 sha ops'))"
    by (simp add: buckets_def digest_invD(1) [OF inv(1)] digest_invD(1) [OF inv(2)])
  fix b assume "b < length (buckets (digest_run b4 b8 sha ops))"
  then have b: "b < BUCKETS" by (simp add: buckets_def digest_invD(1) [OF inv(1)])
  have "mset (map (entry_leaf b8) (members (digest_run b4 b8 sha ops) ! b))
      = mset (map (entry_leaf b8) (members (digest_run b4 b8 sha ops') ! b))"
    using members_mset_eq [OF inv assms b] by simp
  then have "fold_leaves b8 (members (digest_run b4 b8 sha ops) ! b)
      = fold_leaves b8 (members (digest_run b4 b8 sha ops') ! b)"
    unfolding fold_leaves_eq by (rule xor_all_mset)
  then show "buckets (digest_run b4 b8 sha ops) ! b = buckets (digest_run b4 b8 sha ops') ! b"
    by (simp add: buckets_def digest_invD(5) [OF inv(1) b] digest_invD(5) [OF inv(2) b])
qed

theorem buckets_determined_by_contents_witness:
  "buckets (digest_run length (\<lambda>s. of_nat (length s)) id [Add ''a'' 1, Add ''b'' 2])
   = buckets (digest_run length (\<lambda>s. of_nat (length s)) id
       [Add ''b'' 7, Add ''c'' 3, Root, Add ''a'' 1, Remove ''c'', Add ''b'' 2])"
  by (rule buckets_determined_by_contents)
     (auto simp: digest_contents_add digest_contents_remove digest_inv_add digest_inv_remove
       digest_inv_init fun_eq_iff)

text \<open>
  The cached root is never stale: after any history, \<open>root\<close> returns the hash of the current
  bucket digests, as if it were computed from scratch.
\<close>

theorem root_is_fresh:
  "snd (digest_root sha (digest_run b4 b8 sha ops)) = packed_root sha (buckets (digest_run b4 b8 sha ops))"
  by (simp add: digest_root_value digest_run_ok buckets_def)

text \<open>
  Paging loses nothing and repeats nothing: a page followed by the members after its cursor
  is exactly the sorted list of members after the starting point, the cursor is empty exactly
  when nothing is left, and a page with a cursor is full, so a paging loop makes progress.
\<close>

theorem page_step_complete:
  assumes "digest_inv b4 b8 d" and "b < BUCKETS" and "0 < limit" and "page b after limit d = (es, cursor)"
  shows "sort (filter (\<lambda>h. after < h) (map fst (members d ! b)))
       = map fst es @ (if cursor = [] then []
                       else sort (filter (\<lambda>h. cursor < h) (map fst (members d ! b)))) \<and>
    (cursor \<noteq> [] \<longrightarrow> length es = nat limit) \<and>
    (\<forall>(h, v) \<in> set es. map_of (members d ! b) h = Some v)"
proof -
  define ys where "ys = sort (filter (\<lambda>h. after < h) (map fst (members d ! b)))"
  have keys: "distinct (map fst (members d ! b))" by (rule digest_invD(3) [OF assms(1,2)])
  note pg = page_values [OF assms(3,4), folded ys_def]
  have "map_of (members d ! b) h = Some v" if "(h, v) \<in> set es" for h v
  proof -
    have "h \<in> set (map fst es)" using that by force
    then have "h \<in> set ys" by (auto simp: pg(2) dest: in_set_takeD split: if_splits)
    then have "dict_has (members d ! b) h" by (auto simp: ys_def dict_has_iff)
    moreover have "v = the (map_of (members d ! b) h)" using that by (subst (asm) pg(1)) auto
    ultimately show ?thesis by (auto simp: dict_has_def)
  qed
  moreover have "cursor \<noteq> []" if "int (length ys) > limit"
  proof -
    have "take (nat limit) ys \<noteq> []" using that assms(3) by auto
    then have "last (take (nat limit) ys) \<in> set ys" by (meson in_set_takeD last_in_set)
    then have "after < last (take (nat limit) ys)" by (auto simp: ys_def)
    then show ?thesis using that by (auto simp: pg(3))
  qed
  moreover have "length es = length (map fst es)" by simp
  ultimately show ?thesis
    using sort_filter_greater [OF keys _ _ ys_def, of "nat limit"] assms(3)
    unfolding ys_def [symmetric] by (auto simp: pg(2,3))
qed

definition sample_digest :: inventory_digest where
  "sample_digest = digest_run (\<lambda>_. 0) (\<lambda>_. 0) id [Add ''c'' 3, Add ''a'' 1, Add ''b'' 2]"

lemma sample_digest_members: "members sample_digest ! 0 = [(''c'', 3), (''a'', 1), (''b'', 2)]"
  by (simp add: sample_digest_def digest_add_def bucket_of_def digest_init_def BUCKETS_def)

theorem page_step_complete_witness:
  "sort (filter (\<lambda>h. [] < h) (map fst (members sample_digest ! 0)))
     = [''a'', ''b''] @ sort (filter (\<lambda>h. ''b'' < h) (map fst (members sample_digest ! 0)))"
proof -
  have "page 0 [] 2 sample_digest = ([(''a'', 1), (''b'', 2)], ''b'')"
    by (simp add: page_def sample_digest_members)
  moreover have "digest_inv (\<lambda>_. 0) (\<lambda>_. 0) sample_digest"
    unfolding sample_digest_def by (rule digest_run_ok)
  ultimately show ?thesis
    using page_step_complete [of "\<lambda>_. 0" "\<lambda>_. 0" sample_digest 0 2 "[]"] by (simp add: BUCKETS_def)
qed

text \<open>
  An inventory cursor decodes to the bucket and hash it encodes, for every bucket number and
  every hash, whatever characters the hash has.
\<close>

theorem decode_encode_cursor:
  assumes "bucket < BUCKETS"
  shows "decode_cursor (encode_cursor bucket h) = (bucket, h)"
proof -
  have "partition_str (CHR '':'') (str_nat bucket @ CHR '':'' # h) = (str_nat bucket, '':'', h)"
    using str_nat_not_in [of "CHR '':''" bucket]
    by (auto simp: partition_str_def is_digit_char_def takeWhile_append dropWhile_append)
  then show ?thesis
    using assms by (simp add: decode_cursor_def encode_cursor_def isdigit_str_nat BUCKETS_def)
qed

theorem decode_encode_cursor_witness:
  "decode_cursor (encode_cursor 1023 ''acme:ab12'') = (1023, ''acme:ab12'')"
  by (rule decode_encode_cursor) (simp add: BUCKETS_def)

end
