(* ===== verification/Tenant.thy ===== *)
theory Tenant
  imports Fragment
begin

text \<open>
  Tenant authorization: \<open>membrane/security/tenant.py\<close> and the guard that nodes apply to reads and
  writes (\<open>membrane/store/tenant_guard.py\<close>). A denied access is \<open>TenantScopeError\<close>.
\<close>

definition SYSTEM_TENANT :: string where
  "SYSTEM_TENANT = ''public''"

definition has_admin_scope :: "string set \<Rightarrow> bool" where
  "has_admin_scope scopes \<longleftrightarrow> ''admin'' \<in> scopes"

record tenant_authorizer =
  caller_tenant :: string
  scopes :: "string set"
  public_readable :: bool
  public_writable :: bool

definition can_read_tenant :: "string \<Rightarrow> string \<Rightarrow> bool \<Rightarrow> bool" where
  "can_read_tenant caller fragment_tenant readable =
     (if fragment_tenant = [] \<or> caller = [] then False
      else fragment_tenant = caller \<or> readable \<and> fragment_tenant = SYSTEM_TENANT)"

definition can_write_tenant :: "string \<Rightarrow> string \<Rightarrow> bool \<Rightarrow> bool" where
  "can_write_tenant caller fragment_tenant writable =
     (if fragment_tenant = [] \<or> caller = [] then False
      else fragment_tenant = caller \<or> writable \<and> fragment_tenant = SYSTEM_TENANT)"

definition is_admin :: "tenant_authorizer \<Rightarrow> bool" where
  "is_admin a = has_admin_scope (scopes a)"

definition authorize_read :: "tenant_authorizer \<Rightarrow> string \<Rightarrow> unit result" where
  "authorize_read a fragment_tenant =
     (if is_admin a then Inr ()
      else if can_read_tenant (caller_tenant a) fragment_tenant (public_readable a) then Inr ()
      else Inl TenantScopeError)"

definition authorize_write :: "tenant_authorizer \<Rightarrow> string \<Rightarrow> unit result" where
  "authorize_write a fragment_tenant =
     (if is_admin a then Inr ()
      else if can_write_tenant (caller_tenant a) fragment_tenant (public_writable a) then Inr ()
      else Inl TenantScopeError)"

text \<open>The authorizer as the guard builds it: the two optional fields keep their defaults.\<close>

definition default_authorizer :: "string \<Rightarrow> string set \<Rightarrow> tenant_authorizer" where
  "default_authorizer caller scs =
     \<lparr>caller_tenant = caller, scopes = scs, public_readable = True, public_writable = False\<rparr>"

definition check_write :: "string \<Rightarrow> string \<Rightarrow> string set \<Rightarrow> unit result" where
  "check_write fragment_tenant caller scs =
     (if caller \<noteq> [] then authorize_write (default_authorizer caller scs) fragment_tenant else Inr ())"

definition can_read :: "string \<Rightarrow> string \<Rightarrow> string set \<Rightarrow> bool" where
  "can_read fragment_tenant caller scs =
     (if caller = [] then True
      else case authorize_read (default_authorizer caller scs) fragment_tenant of
        Inl _ \<Rightarrow> False | Inr _ \<Rightarrow> True)"

lemmas tenant_defs = default_authorizer_def is_admin_def has_admin_scope_def can_read_tenant_def
  can_write_tenant_def authorize_read_def authorize_write_def check_write_def can_read_def
  SYSTEM_TENANT_def

lemma can_read_iff:
  "can_read ft c scs \<longleftrightarrow>
    c = [] \<or> has_admin_scope scs \<or> ft \<noteq> [] \<and> (ft = c \<or> ft = SYSTEM_TENANT)"
  by (auto simp: tenant_defs)

lemma check_write_iff:
  "check_write ft c scs = Inr u \<longleftrightarrow> c = [] \<or> has_admin_scope scs \<or> ft \<noteq> [] \<and> ft = c"
  by (auto simp: tenant_defs)

lemma check_write_cases: "check_write ft c scs = Inr () \<or> check_write ft c scs = Inl TenantScopeError"
  by (simp add: tenant_defs)

text \<open>
  Tenant rules: with authentication on, a caller without the admin scope reads exactly its own
  tenant and the system tenant and writes exactly its own tenant; every other access is refused.
  A caller may always read what it may write. A non-admin caller whose own tenant is the system
  tenant may therefore write it, while the module's rules reserve that to admins.
\<close>

theorem tenant_rules:
  assumes "caller \<noteq> []" and "\<not> has_admin_scope scs" and "ft \<noteq> []"
  shows "(can_read ft caller scs \<longleftrightarrow> ft = caller \<or> ft = SYSTEM_TENANT) \<and>
    check_write ft caller scs = (if ft = caller then Inr () else Inl TenantScopeError) \<and>
    (check_write ft caller scs = Inr () \<longrightarrow> can_read ft caller scs)"
  using assms by (auto simp: tenant_defs)

theorem tenant_rules_witness:
  "check_write ''acme'' ''evil'' {} = Inl TenantScopeError \<and> \<not> can_read ''acme'' ''evil'' {} \<and>
   check_write SYSTEM_TENANT ''public'' {} = Inr ()"
  using tenant_rules [of "''evil''" "{}" "''acme''"] tenant_rules [of "''public''" "{}" SYSTEM_TENANT]
  by (simp add: has_admin_scope_def SYSTEM_TENANT_def)

end
