(* ===== verification/Table.thy ===== *)
theory Table
  imports Digest Tenant
begin

text \<open>
  The fragment table of \<open>membrane/store/table.py\<close>, one operation at a time (every writing method
  holds the table lock): resident fragments, times, primaries, the memory total, the inventory
  digest, the per-content tenant keys, the payload reference counts and the per-thread read
  caches with their buffered accesses. Times are reals; a thread is a natural number. Readers take
  no lock in the code; a reader that runs in the middle of a write is not modelled.
\<close>

definition READ_CACHE_ENTRIES :: nat where
  "READ_CACHE_ENTRIES = 65536"

record read_cache =
  cached :: "(string, fragment \<times> real) dict"
  accesses :: "(string, real) dict"
  alive :: bool

text \<open>
  \<open>caches\<close> stands for the thread-local caches, the weak set of them and the list of their access
  buffers: in creation order, a cache of an exited thread kept (not alive) until its reads are
  merged.
\<close>

record table =
  fragments :: "(string, fragment) dict"
  primary_hashes :: "string set"
  access_times :: "(string, real) dict"
  insertion_times :: "(string, real) dict"
  memory_usage :: int
  digest :: inventory_digest
  tenant_keys :: "(string, string list) dict"
  payload_refs :: "(string, int) dict"
  caches :: "(nat, read_cache) dict"
  removals :: nat

definition table_init :: table where
  "table_init =
     \<lparr>fragments = [], primary_hashes = {}, access_times = [], insertion_times = [],
      memory_usage = 0, digest = digest_init, tenant_keys = [], payload_refs = [],
      caches = [], removals = 0\<rparr>"

definition table_contains :: "table \<Rightarrow> string \<Rightarrow> bool" where
  "table_contains tb k = dict_has (fragments tb) k"

definition table_len :: "table \<Rightarrow> nat" where
  "table_len tb = length (fragments tb)"

definition table_get :: "table \<Rightarrow> string \<Rightarrow> fragment option" where
  "table_get tb k = map_of (fragments tb) k"

definition empty_cache :: read_cache where
  "empty_cache = \<lparr>cached = [], accesses = [], alive = True\<rparr>"

definition thread_cache :: "nat \<Rightarrow> table \<Rightarrow> table \<times> read_cache" where
  "thread_cache t tb =
     (case map_of (caches tb) t of
        Some c \<Rightarrow> (tb, c)
      | None \<Rightarrow> (tb\<lparr>caches := dict_set (caches tb) t empty_cache\<rparr>, empty_cache))"

definition lookup :: "nat \<Rightarrow> string \<Rightarrow> real option \<Rightarrow> table \<Rightarrow> table \<times> (fragment \<times> real) option" where
  "lookup t k now tb =
     (let (tb, cache) = thread_cache t tb;
          record_read = (\<lambda>c. case now of None \<Rightarrow> c | Some n \<Rightarrow> c\<lparr>accesses := dict_set (accesses c) k n\<rparr>)
      in case map_of (cached cache) k of
           Some entry \<Rightarrow> (tb\<lparr>caches := dict_set (caches tb) t (record_read cache)\<rparr>, Some entry)
         | None \<Rightarrow>
             (case map_of (fragments tb) k of
                None \<Rightarrow> (tb, None)
              | Some f \<Rightarrow>
                  let entry = (f, dict_get (insertion_times tb) k 0 + ttl f);
                      kept = (if length (cached cache) \<ge> READ_CACHE_ENTRIES then [] else cached cache);
                      cache' = record_read (cache\<lparr>cached := dict_set kept k entry\<rparr>)
                  in (tb\<lparr>caches := dict_set (caches tb) t cache'\<rparr>, Some entry)))"

definition inserted_at :: "table \<Rightarrow> string \<Rightarrow> real \<Rightarrow> real" where
  "inserted_at tb k dflt = dict_get (insertion_times tb) k dflt"

definition record_access :: "nat \<Rightarrow> string \<Rightarrow> real \<Rightarrow> table \<Rightarrow> table" where
  "record_access t k now tb =
     (let (tb, cache) = thread_cache t tb
      in tb\<lparr>caches := dict_set (caches tb) t (cache\<lparr>accesses := dict_set (accesses cache) k now\<rparr>)\<rparr>)"

text \<open>One buffered read merged into the access times.\<close>

definition merge_access ::
  "(string, fragment) dict \<Rightarrow> (string, real) dict \<Rightarrow> string \<times> real \<Rightarrow> (string, real) dict" where
  "merge_access frs acc e =
     (if dict_has frs (fst e) \<and> snd e > dict_get acc (fst e) 0
      then dict_set acc (fst e) (snd e) else acc)"

definition recency :: "table \<Rightarrow> table \<times> (string, real) dict" where
  "recency tb =
     (let pending = concat (map (\<lambda>(t, c). accesses c) (caches tb));
          merged = foldl (merge_access (fragments tb)) (access_times tb) pending;
          kept = map (\<lambda>(t, c). (t, c\<lparr>accesses := []\<rparr>)) (filter (\<lambda>(t, c). alive c) (caches tb))
      in (tb\<lparr>access_times := merged, caches := kept\<rparr>, merged))"

definition thread_exit :: "nat \<Rightarrow> table \<Rightarrow> table" where
  "thread_exit t tb =
     (case map_of (caches tb) t of
        None \<Rightarrow> tb
      | Some c \<Rightarrow> tb\<lparr>caches := dict_set (caches tb) t (c\<lparr>cached := [], alive := False\<rparr>)\<rparr>)"

definition table_add ::
  "(string \<Rightarrow> nat) \<Rightarrow> (string \<Rightarrow> 64 word) \<Rightarrow> fragment \<Rightarrow> real \<Rightarrow> table \<Rightarrow> table" where
  "table_add b4 b8 f now tb =
     (let k = key f; h = payload_hash (identity f) in
      tb\<lparr>fragments := dict_set (fragments tb) k f,
         memory_usage := memory_usage tb + payload_size f,
         insertion_times := dict_set (insertion_times tb) k now,
         digest := digest_add b4 b8 k (version_id f) (digest tb),
         tenant_keys :=
           (if k \<noteq> h
            then dict_set (tenant_keys tb) h (List.insert k (dict_get (tenant_keys tb) h []))
            else tenant_keys tb),
         payload_refs :=
           (case payload_ref f of
              None \<Rightarrow> payload_refs tb
            | Some r \<Rightarrow> dict_set (payload_refs tb) r (dict_get (payload_refs tb) r 0 + 1))\<rparr>)"

definition touch :: "string \<Rightarrow> real \<Rightarrow> bool \<Rightarrow> table \<Rightarrow> table" where
  "touch k now is_primary tb =
     tb\<lparr>access_times := dict_set (access_times tb) k now,
        primary_hashes := (if is_primary then insert k (primary_hashes tb) else primary_hashes tb)\<rparr>"

definition table_pop ::
  "(string \<Rightarrow> nat) \<Rightarrow> (string \<Rightarrow> 64 word) \<Rightarrow> string \<Rightarrow> table \<Rightarrow> (table \<times> fragment) result" where
  "table_pop b4 b8 k tb =
     (case map_of (fragments tb) k of
        None \<Rightarrow> Inl KeyError
      | Some f \<Rightarrow>
          let h = payload_hash (identity f);
              tkeys = (case map_of (tenant_keys tb) h of
                         None \<Rightarrow> tenant_keys tb
                       | Some copies \<Rightarrow>
                           if removeAll k copies = [] then dict_del (tenant_keys tb) h
                           else dict_set (tenant_keys tb) h (removeAll k copies));
              refs = (case payload_ref f of
                        None \<Rightarrow> payload_refs tb
                      | Some r \<Rightarrow>
                          let remaining = dict_get (payload_refs tb) r 1 - 1
                          in if remaining > 0 then dict_set (payload_refs tb) r remaining
                             else dict_del (payload_refs tb) r)
          in Inr
            (tb\<lparr>fragments := dict_del (fragments tb) k,
                removals := Suc (removals tb),
                caches := map (\<lambda>(t, c). (t, c\<lparr>cached := dict_del (cached c) k\<rparr>)) (caches tb),
                digest := digest_remove b4 b8 k (digest tb),
                memory_usage := memory_usage tb - payload_size f,
                primary_hashes := primary_hashes tb - {k},
                access_times := dict_del (access_times tb) k,
                insertion_times := dict_del (insertion_times tb) k,
                tenant_keys := tkeys,
                payload_refs := refs\<rparr>, f))"

definition references :: "table \<Rightarrow> string \<Rightarrow> int" where
  "references tb r = dict_get (payload_refs tb) r 0"

definition any_tenant_copy :: "table \<Rightarrow> string \<Rightarrow> string option" where
  "any_tenant_copy tb h =
     (case map_of (tenant_keys tb) h of
        None \<Rightarrow> None
      | Some copies \<Rightarrow> if copies = [] then None else Some (Min (set copies)))"

definition is_expired :: "table \<Rightarrow> string \<Rightarrow> real \<Rightarrow> bool" where
  "is_expired tb k now =
     (case map_of (fragments tb) k of
        None \<Rightarrow> False
      | Some f \<Rightarrow> now - dict_get (insertion_times tb) k now > ttl f)"

definition expired :: "table \<Rightarrow> real \<Rightarrow> string list" where
  "expired tb now = filter (\<lambda>k. is_expired tb k now) (map fst (fragments tb))"

definition snapshot :: "table \<Rightarrow> (string, fragment) dict" where
  "snapshot tb = fragments tb"

definition primaries :: "table \<Rightarrow> string set" where
  "primaries tb = primary_hashes tb"

section \<open>Invariant\<close>

text \<open>
  Every derived field is a function of the resident fragments: the memory total is the sum of the
  sizes, the digest holds exactly the resident versions, the reference counts and the tenant keys
  are those of the resident fragments, and no read cache holds anything but a resident fragment
  with its expiry.
\<close>

definition ref_count :: "(string, fragment) dict \<Rightarrow> string \<Rightarrow> int" where
  "ref_count frs r = int (length (filter (\<lambda>e. payload_ref (snd e) = Some r) frs))"

definition refs_inv :: "table \<Rightarrow> bool" where
  "refs_inv tb \<longleftrightarrow>
     (\<forall>r. map_of (payload_refs tb) r =
        (if ref_count (fragments tb) r = 0 then None else Some (ref_count (fragments tb) r)))"

definition tenant_copies :: "(string, fragment) dict \<Rightarrow> string \<Rightarrow> string set" where
  "tenant_copies frs h =
     {k. \<exists>f. map_of frs k = Some f \<and> payload_hash (identity f) = h \<and> k \<noteq> h}"

definition tenant_inv :: "table \<Rightarrow> bool" where
  "tenant_inv tb \<longleftrightarrow>
     (\<forall>h. set (dict_get (tenant_keys tb) h []) = tenant_copies (fragments tb) h \<and>
          map_of (tenant_keys tb) h \<noteq> Some [])"

definition resident :: "table \<Rightarrow> string \<Rightarrow> (fragment \<times> real) option" where
  "resident tb k =
     map_option (\<lambda>f. (f, dict_get (insertion_times tb) k 0 + ttl f)) (map_of (fragments tb) k)"

definition cache_inv :: "table \<Rightarrow> bool" where
  "cache_inv tb \<longleftrightarrow>
     (\<forall>t c k e. map_of (caches tb) t = Some c \<longrightarrow> map_of (cached c) k = Some e \<longrightarrow> resident tb k = Some e)"

definition table_inv :: "(string \<Rightarrow> nat) \<Rightarrow> (string \<Rightarrow> 64 word) \<Rightarrow> table \<Rightarrow> bool" where
  "table_inv b4 b8 tb \<longleftrightarrow>
     dict_ok (fragments tb) \<and>
     (\<forall>k f. map_of (fragments tb) k = Some f \<longrightarrow> key f = k) \<and>
     memory_usage tb = sum_list (map (\<lambda>e. payload_size (snd e)) (fragments tb)) \<and>
     digest_inv b4 b8 (digest tb) \<and>
     digest_contents b4 (digest tb) = map_option version_id \<circ> map_of (fragments tb) \<and>
     (\<forall>k. dict_has (insertion_times tb) k \<longleftrightarrow> dict_has (fragments tb) k) \<and>
     refs_inv tb \<and> tenant_inv tb \<and> cache_inv tb"

lemma table_inv_init: "table_inv b4 b8 table_init"
  by (auto simp: table_inv_def table_init_def refs_inv_def tenant_inv_def cache_inv_def ref_count_def
      tenant_copies_def dict_get_def dict_has_def digest_inv_init)

lemma table_invD:
  assumes "table_inv b4 b8 tb"
  shows "dict_ok (fragments tb)" "map_of (fragments tb) k = Some f \<Longrightarrow> key f = k"
    "memory_usage tb = sum_list (map (\<lambda>e. payload_size (snd e)) (fragments tb))"
    "digest_inv b4 b8 (digest tb)"
    "digest_contents b4 (digest tb) = map_option version_id \<circ> map_of (fragments tb)"
    "dict_has (insertion_times tb) k \<longleftrightarrow> dict_has (fragments tb) k"
    "refs_inv tb" "tenant_inv tb" "cache_inv tb"
  using assms by (auto simp: table_inv_def)

section \<open>Reads\<close>

text \<open>
  A read changes nothing but the caches, and the cache is transparent: the answer is the resident
  fragment with its expiry.
\<close>

lemma cache_invD:
  assumes "cache_inv tb" and "map_of (caches tb) t = Some c" and "map_of (cached c) k = Some e"
  shows "resident tb k = Some e"
  using assms unfolding cache_inv_def by blast

lemma cache_inv_set:
  assumes "cache_inv tb" and "\<And>k e. map_of (cached c) k = Some e \<Longrightarrow> resident tb k = Some e"
  shows "cache_inv (tb\<lparr>caches := dict_set (caches tb) t c\<rparr>)"
  using assms by (auto simp: cache_inv_def resident_def split: if_splits)

lemma thread_cache_inv:
  assumes "cache_inv tb" and "thread_cache t tb = (tb', c)"
  shows "cache_inv tb'" "\<And>k e. map_of (cached c) k = Some e \<Longrightarrow> resident tb k = Some e"
    "tb' = tb\<lparr>caches := caches tb'\<rparr>"
  using assms cache_inv_set [OF assms(1), of empty_cache]
  by (auto simp: thread_cache_def empty_cache_def split: option.splits dest: cache_invD)

lemma table_inv_caches:
  assumes "table_inv b4 b8 tb" and "tb' = tb\<lparr>caches := cs\<rparr>" and "cache_inv tb'"
  shows "table_inv b4 b8 tb'"
  using assms by (simp add: table_inv_def refs_inv_def tenant_inv_def)

lemma lookup_spec:
  assumes "cache_inv tb" and "lookup t k now tb = (tb', r)"
  shows "r = resident tb k" "cache_inv tb'" "tb' = tb\<lparr>caches := caches tb'\<rparr>"
proof -
  obtain tb1 c where tc: "thread_cache t tb = (tb1, c)" by (cases "thread_cache t tb")
  note t1 = thread_cache_inv [OF assms(1) tc]
  obtain cs where tb1: "tb1 = tb\<lparr>caches := cs\<rparr>" using t1(3) by blast
  then have res: "resident tb1 = resident tb" by (simp add: resident_def fun_eq_iff)
  have upd: "cache_inv (tb1\<lparr>caches := dict_set (caches tb1) t c'\<rparr>)"
    if "\<And>k e. map_of (cached c') k = Some e \<Longrightarrow> resident tb k = Some e" for c'
    using cache_inv_set [OF t1(1)] that by (simp add: res)
  have "r = resident tb k \<and> cache_inv tb' \<and> (\<exists>cs'. tb' = tb1\<lparr>caches := cs'\<rparr>)"
  proof (cases "map_of (cached c) k")
    case (Some e)
    have "resident tb k = Some e" by (rule t1(2) [OF Some])
    moreover have "cache_inv tb'"
      using assms(2) t1(2) Some by (auto simp: lookup_def tc intro!: upd split: option.splits)
    ultimately show ?thesis
      using assms(2) Some by (auto simp: lookup_def tc)
  next
    case None
    show ?thesis
    proof (cases "map_of (fragments tb1) k")
      case None
      then have "tb' = tb1\<lparr>caches := caches tb1\<rparr>" "r = None"
        using assms(2) \<open>map_of (cached c) k = None\<close> by (simp_all add: lookup_def tc)
      with None t1(1) show ?thesis by (auto simp: resident_def tb1)
    next
      case (Some f)
      then have e: "resident tb k = Some (f, dict_get (insertion_times tb1) k 0 + ttl f)"
        by (simp add: resident_def tb1)
      show ?thesis
        using assms(2) \<open>map_of (cached c) k = None\<close> Some t1(2) e
        by (auto simp: lookup_def tc Let_def intro!: upd split: option.splits if_splits)
    qed
  qed
  then show "r = resident tb k" "cache_inv tb'" "tb' = tb\<lparr>caches := caches tb'\<rparr>"
    by (auto simp: tb1)
qed

lemma lookup_inv:
  assumes "table_inv b4 b8 tb" and "lookup t k now tb = (tb', r)"
  shows "table_inv b4 b8 tb'"
  using lookup_spec [OF table_invD(9) [OF assms(1)] assms(2)] assms(1)
  by (blast intro: table_inv_caches)

lemma record_access_inv:
  assumes "table_inv b4 b8 tb"
  shows "table_inv b4 b8 (record_access t k now tb)"
proof -
  obtain tb1 c where tc: "thread_cache t tb = (tb1, c)" by (cases "thread_cache t tb")
  note t1 = thread_cache_inv [OF table_invD(9) [OF assms] tc]
  have "table_inv b4 b8 tb1" using assms t1(3,1) by (rule table_inv_caches)
  moreover have "resident tb1 = resident tb"
    by (rule ext, subst t1(3)) (simp add: resident_def)
  ultimately show ?thesis
    using t1 by (auto simp: record_access_def tc intro!: cache_inv_set table_inv_caches [of b4 b8 tb1])
qed

section \<open>Writes\<close>

lemma ref_count_nonneg [simp]: "0 \<le> ref_count frs r"
  by (simp add: ref_count_def)

lemma ref_count_set_new:
  "\<not> dict_has frs k \<Longrightarrow>
    ref_count (dict_set frs k f) r = ref_count frs r + (if payload_ref f = Some r then 1 else 0)"
  by (simp add: ref_count_def dict_set_new)

lemma ref_count_del:
  assumes "dict_ok frs" and "map_of frs k = Some f"
  shows "ref_count (dict_del frs k) r = ref_count frs r - (if payload_ref f = Some r then 1 else 0)"
proof -
  have "mset (filter (\<lambda>e. payload_ref (snd e) = Some r) frs)
      = filter_mset (\<lambda>e. payload_ref (snd e) = Some r) (add_mset (k, f) (mset (dict_del frs k)))"
    using dict_del_mset [OF assms] by simp
  then have "size (mset (filter (\<lambda>e. payload_ref (snd e) = Some r) frs))
      = (if payload_ref f = Some r then 1 else 0)
        + size (mset (filter (\<lambda>e. payload_ref (snd e) = Some r) (dict_del frs k)))"
    by simp
  then show ?thesis unfolding size_mset by (simp add: ref_count_def)
qed

lemma refs_inv_add:
  assumes "refs_inv tb" and "\<not> dict_has (fragments tb) (key f)"
  shows "refs_inv (table_add b4 b8 f now tb)"
proof -
  have "ref_count (fragments tb) r + 1 \<noteq> 0" for r
    using ref_count_nonneg [of "fragments tb" r] by linarith
  then show ?thesis
    using assms
    by (auto simp: refs_inv_def table_add_def Let_def ref_count_set_new dict_get_def split: option.splits)
qed

lemma refs_inv_pop:
  assumes "refs_inv tb" and "dict_ok (fragments tb)" and "table_pop b4 b8 k tb = Inr (tb', f)"
  shows "refs_inv tb'"
proof -
  have f: "map_of (fragments tb) k = Some f"
    using assms(3) by (auto simp: table_pop_def Let_def split: option.splits)
  have cnt: "ref_count (fragments tb) r \<ge> 1" if "payload_ref f = Some r" for r
    using ref_count_nonneg [of "dict_del (fragments tb) k" r]
    by (simp add: ref_count_del [OF assms(2) f] that)
  have frs: "fragments tb' = dict_del (fragments tb) k"
    and prs: "payload_refs tb' = (case payload_ref f of
        None \<Rightarrow> payload_refs tb
      | Some r \<Rightarrow> let remaining = dict_get (payload_refs tb) r 1 - 1
          in if remaining > 0 then dict_set (payload_refs tb) r remaining else dict_del (payload_refs tb) r)"
    using assms(3) f by (auto simp: table_pop_def Let_def)
  have old: "map_of (payload_refs tb) r =
      (if ref_count (fragments tb) r = 0 then None else Some (ref_count (fragments tb) r))" for r
    using assms(1) by (simp add: refs_inv_def)
  show ?thesis
  proof (cases "payload_ref f")
    case None
    then show ?thesis
      by (simp add: refs_inv_def frs prs old ref_count_del [OF assms(2) f])
  next
    case (Some q)
    have now: "dict_get (payload_refs tb) q 1 = ref_count (fragments tb) q"
      using cnt [OF Some] by (simp add: dict_get_def old)
    have "map_of (payload_refs tb') r =
        (if ref_count (fragments tb') r = 0 then None else Some (ref_count (fragments tb') r))" for r
    proof (cases "r = q")
      case True
      with cnt [OF Some] Some show ?thesis
        by (simp add: frs prs now Let_def ref_count_del [OF assms(2) f])
    next
      case False
      with Some show ?thesis
        by (simp add: frs prs now Let_def old ref_count_del [OF assms(2) f])
    qed
    then show ?thesis by (simp add: refs_inv_def)
  qed
qed

lemma tenant_copies_set_new:
  "\<not> dict_has frs k \<Longrightarrow> tenant_copies (dict_set frs k f) h =
    tenant_copies frs h \<union> (if payload_hash (identity f) = h \<and> k \<noteq> h then {k} else {})"
  by (auto simp: tenant_copies_def dict_has_def)

lemma tenant_copies_del: "tenant_copies (dict_del frs k) h = tenant_copies frs h - {k}"
  by (auto simp: tenant_copies_def)

lemma tenant_inv_add:
  assumes "tenant_inv tb" and "\<not> dict_has (fragments tb) (key f)"
  shows "tenant_inv (table_add b4 b8 f now tb)"
proof -
  have "List.insert a xs \<noteq> []" for a :: string and xs by (auto simp: List.insert_def)
  then show ?thesis
    using assms
    by (auto simp: tenant_inv_def table_add_def Let_def tenant_copies_set_new split: if_splits)
qed

lemma removeAll_Nil_iff: "removeAll k xs = [] \<longleftrightarrow> set xs \<subseteq> {k}"
  by (induction xs) auto

lemma tenant_inv_pop:
  assumes "tenant_inv tb" and "table_pop b4 b8 k tb = Inr (tb', f)"
  shows "tenant_inv tb'"
proof -
  define h where "h = payload_hash (identity f)"
  have f: "map_of (fragments tb) k = Some f"
    and frs: "fragments tb' = dict_del (fragments tb) k"
    and tk: "tenant_keys tb' = (case map_of (tenant_keys tb) h of
         None \<Rightarrow> tenant_keys tb
       | Some copies \<Rightarrow>
           if removeAll k copies = [] then dict_del (tenant_keys tb) h
           else dict_set (tenant_keys tb) h (removeAll k copies))"
    using assms(2) by (auto simp: table_pop_def Let_def h_def split: option.splits)
  have other: "k \<notin> tenant_copies (fragments tb) h'" if "h' \<noteq> h" for h'
    using f that by (auto simp: tenant_copies_def h_def)
  have "set (dict_get (tenant_keys tb') h' []) = tenant_copies (fragments tb) h' - {k}
      \<and> map_of (tenant_keys tb') h' \<noteq> Some []" for h'
  proof -
    have "set (dict_get (tenant_keys tb) h' []) = tenant_copies (fragments tb) h'
        \<and> map_of (tenant_keys tb) h' \<noteq> Some []"
      using assms(1) by (simp add: tenant_inv_def)
    moreover have "set (removeAll k xs) = set xs - {k}" for xs :: "string list" by simp
    moreover have "set (dict_get (tenant_keys tb') h' [])
        = (if h' = h then set (removeAll k (dict_get (tenant_keys tb) h [])) else set (dict_get (tenant_keys tb) h' []))"
      by (cases "map_of (tenant_keys tb) h") (auto simp: tk dict_get_def removeAll_Nil_iff)
    moreover have "map_of (tenant_keys tb) h' \<noteq> Some [] \<Longrightarrow> map_of (tenant_keys tb') h' \<noteq> Some []"
      by (cases "map_of (tenant_keys tb) h") (auto simp: tk)
    ultimately show ?thesis using other [of h'] by (simp split: if_splits)
  qed
  then show ?thesis by (simp add: tenant_inv_def frs tenant_copies_del)
qed

lemma cache_inv_add:
  assumes "cache_inv tb" and "\<not> dict_has (fragments tb) (key f)"
  shows "cache_inv (table_add b4 b8 f now tb)"
proof -
  have "resident (table_add b4 b8 f now tb) k = resident tb k" if "k \<noteq> key f" for k
    using that by (simp add: resident_def table_add_def Let_def)
  moreover have "resident tb (key f) = None"
    using assms(2) by (simp add: resident_def dict_has_def)
  moreover have "caches (table_add b4 b8 f now tb) = caches tb"
    by (simp add: table_add_def Let_def)
  ultimately show ?thesis
    using assms(1) unfolding cache_inv_def by (metis option.distinct(1))
qed

lemma cache_inv_pop:
  assumes "cache_inv tb" and "table_pop b4 b8 k tb = Inr (tb', f)"
  shows "cache_inv tb'"
proof -
  have cs: "caches tb' = map (\<lambda>(t, c). (t, c\<lparr>cached := dict_del (cached c) k\<rparr>)) (caches tb)"
    and res: "k' \<noteq> k \<Longrightarrow> resident tb' k' = resident tb k'" for k'
    using assms(2) by (auto simp: table_pop_def Let_def resident_def split: option.splits)
  show ?thesis
    using assms(1) unfolding cache_inv_def cs map_of_map_snd
    by (auto simp: res split: if_splits)
qed

lemma table_inv_add:
  assumes "table_inv b4 b8 tb" and "\<not> dict_has (fragments tb) (key f)"
  shows "table_inv b4 b8 (table_add b4 b8 f now tb)"
proof -
  note inv = table_invD [OF assms(1)]
  have "digest_contents b4 (digest (table_add b4 b8 f now tb))
      = map_option version_id \<circ> map_of (fragments (table_add b4 b8 f now tb))"
    by (rule ext) (simp add: table_add_def Let_def digest_contents_add [OF inv(4)] inv(5))
  moreover have "memory_usage (table_add b4 b8 f now tb)
      = sum_list (map (\<lambda>e. payload_size (snd e)) (fragments (table_add b4 b8 f now tb)))"
    using inv(3) assms(2) by (simp add: table_add_def Let_def dict_set_new)
  ultimately show ?thesis
    using inv assms(2) refs_inv_add [of tb f] tenant_inv_add [of tb f] cache_inv_add [of tb f]
    unfolding table_inv_def by (auto simp: table_add_def Let_def digest_inv_add split: if_splits)
qed

lemma table_inv_pop:
  assumes "table_inv b4 b8 tb" and "table_pop b4 b8 k tb = Inr (tb', f)"
  shows "table_inv b4 b8 tb'"
proof -
  note inv = table_invD [OF assms(1)]
  have f: "map_of (fragments tb) k = Some f"
    and tb': "fragments tb' = dict_del (fragments tb) k" "digest tb' = digest_remove b4 b8 k (digest tb)"
      "memory_usage tb' = memory_usage tb - payload_size f"
      "insertion_times tb' = dict_del (insertion_times tb) k"
    using assms(2) by (auto simp: table_pop_def Let_def split: option.splits)
  have "digest_contents b4 (digest tb') = map_option version_id \<circ> map_of (fragments tb')"
    by (rule ext) (simp add: tb' digest_contents_remove [OF inv(4)] inv(5))
  moreover have "memory_usage tb' = sum_list (map (\<lambda>e. payload_size (snd e)) (fragments tb'))"
    using dict_del_sum [OF inv(1) f, of "\<lambda>e. payload_size (snd e)"] inv(3) by (simp add: tb')
  ultimately show ?thesis
    using inv refs_inv_pop [OF inv(7,1) assms(2)] tenant_inv_pop [OF inv(8) assms(2)]
      cache_inv_pop [OF inv(9) assms(2)]
    unfolding table_inv_def by (auto simp: tb' digest_inv_remove split: if_splits)
qed

lemma resident_touch [simp]: "resident (touch k now p tb) = resident tb"
  by (simp add: resident_def touch_def fun_eq_iff)

lemma touch_inv: "table_inv b4 b8 tb \<Longrightarrow> table_inv b4 b8 (touch k now p tb)"
  unfolding table_inv_def cache_inv_def resident_touch
  by (simp add: touch_def refs_inv_def tenant_inv_def)

lemma thread_exit_inv:
  assumes "table_inv b4 b8 tb"
  shows "table_inv b4 b8 (thread_exit t tb)"
proof (cases "map_of (caches tb) t")
  case None
  with assms show ?thesis by (simp add: thread_exit_def)
next
  case (Some c)
  then have "cache_inv (thread_exit t tb)"
    using cache_inv_set [OF table_invD(9) [OF assms], of "c\<lparr>cached := [], alive := False\<rparr>" t]
    by (simp add: thread_exit_def)
  with assms Some show ?thesis by (auto simp: thread_exit_def intro: table_inv_caches)
qed

lemma recency_inv:
  assumes "table_inv b4 b8 tb" and "dict_ok (caches tb)"
  shows "table_inv b4 b8 (fst (recency tb))" "dict_ok (caches (fst (recency tb)))"
proof -
  define g where "g c = c\<lparr>accesses := []\<rparr>" for c :: read_cache
  have cs: "caches (fst (recency tb))
      = map (\<lambda>(t, c). (t, g c)) (filter (\<lambda>(t, c). alive c) (caches tb))"
    by (simp add: recency_def Let_def g_def)
  have "map_of (caches tb) t = Some c"
    if "map_of (filter (\<lambda>(t, c). alive c) (caches tb)) t = Some c" for t c
    using that assms(2) by (auto dest!: map_of_SomeD)
  moreover have "resident (fst (recency tb)) = resident tb"
    by (simp add: recency_def Let_def resident_def fun_eq_iff)
  moreover have "cached (g c) = cached c" for c by (simp add: g_def)
  ultimately have "cache_inv (fst (recency tb))"
    using table_invD(9) [OF assms(1)] unfolding cache_inv_def cs map_of_map_snd by fastforce
  with assms(1) show "table_inv b4 b8 (fst (recency tb))"
    by (simp add: table_inv_def recency_def Let_def refs_inv_def tenant_inv_def)
  show "dict_ok (caches (fst (recency tb)))"
    using assms(2) unfolding cs by (simp add: comp_def case_prod_beta distinct_map_filter)
qed

section \<open>Histories\<close>

text \<open>
  The table under any sequence of uses. \<open>add\<close> is used for keys that are not resident and \<open>touch\<close>
  for resident ones, as \<open>Node.store\<close> does.
\<close>

datatype table_op =
    Lookup nat string "real option" | RecordAccess nat string real | Recency | ThreadExit nat
  | AddFragment fragment real | Touch string real bool | Pop string

fun table_step :: "(string \<Rightarrow> nat) \<Rightarrow> (string \<Rightarrow> 64 word) \<Rightarrow> table \<Rightarrow> table_op \<Rightarrow> table" where
  "table_step b4 b8 tb (Lookup t k now) = fst (lookup t k now tb)"
| "table_step b4 b8 tb (RecordAccess t k now) = record_access t k now tb"
| "table_step b4 b8 tb Recency = fst (recency tb)"
| "table_step b4 b8 tb (ThreadExit t) = thread_exit t tb"
| "table_step b4 b8 tb (AddFragment f now) =
     (if table_contains tb (key f) then tb else table_add b4 b8 f now tb)"
| "table_step b4 b8 tb (Touch k now p) = (if table_contains tb k then touch k now p tb else tb)"
| "table_step b4 b8 tb (Pop k) = (case table_pop b4 b8 k tb of Inl _ \<Rightarrow> tb | Inr (tb', _) \<Rightarrow> tb')"

text \<open>The primary set holds resident keys only.\<close>

definition owner_inv :: "table \<Rightarrow> bool" where
  "owner_inv tb \<longleftrightarrow> dict_ok (caches tb) \<and> (\<forall>k \<in> primary_hashes tb. dict_has (fragments tb) k)"

lemma owner_inv_caches:
  "owner_inv tb \<Longrightarrow> dict_ok cs \<Longrightarrow> owner_inv (tb\<lparr>caches := cs\<rparr>)"
  by (simp add: owner_inv_def)

lemma thread_cache_owner_inv:
  "owner_inv tb \<Longrightarrow> thread_cache t tb = (tb', c) \<Longrightarrow> owner_inv tb' \<and> dict_ok (caches tb')"
  by (auto simp: thread_cache_def owner_inv_def split: option.splits)

lemma lookup_owner_inv:
  assumes "owner_inv tb"
  shows "owner_inv (fst (lookup t k now tb))"
proof -
  obtain tb1 c where tc: "thread_cache t tb = (tb1, c)" by (cases "thread_cache t tb")
  note ok = thread_cache_owner_inv [OF assms tc]
  show ?thesis
  proof (cases "map_of (cached c) k")
    case (Some e)
    with ok show ?thesis by (simp add: lookup_def tc Let_def owner_inv_caches)
  next
    case None
    with ok show ?thesis
      by (cases "map_of (fragments tb1) k") (simp_all add: lookup_def tc Let_def owner_inv_caches)
  qed
qed

lemma record_access_owner_inv:
  assumes "owner_inv tb"
  shows "owner_inv (record_access t k now tb)"
proof -
  obtain tb1 c where tc: "thread_cache t tb = (tb1, c)" by (cases "thread_cache t tb")
  show ?thesis
    using thread_cache_owner_inv [OF assms tc]
    by (simp add: record_access_def tc Let_def owner_inv_caches)
qed

lemma table_pop_owner_inv: "owner_inv tb \<Longrightarrow> table_pop b4 b8 k tb = Inr (tb', f) \<Longrightarrow> owner_inv tb'"
  by (auto simp: owner_inv_def table_pop_def Let_def comp_def case_prod_beta split: option.splits)

lemma table_step_ok:
  assumes "table_inv b4 b8 tb" and "owner_inv tb"
  shows "table_inv b4 b8 (table_step b4 b8 tb e) \<and> owner_inv (table_step b4 b8 tb e)"
proof (cases e)
  case (Lookup t k now)
  then show ?thesis
    using assms lookup_owner_inv [OF assms(2), of t k now]
    by (cases "lookup t k now tb") (simp add: lookup_inv)
next
  case Recency
  then show ?thesis
    using assms recency_inv [OF assms(1)]
    by (auto simp: owner_inv_def) (auto simp: recency_def Let_def)
next
  case (ThreadExit t)
  then show ?thesis
    using assms thread_exit_inv [OF assms(1)]
    by (auto simp: owner_inv_def thread_exit_def split: option.splits)
next
  case (Pop k)
  then show ?thesis
    using assms by (auto split: sum.splits intro: table_inv_pop table_pop_owner_inv)
next
  case (AddFragment f now)
  then show ?thesis
    using assms by (auto simp: table_contains_def table_inv_add)
      (auto simp: owner_inv_def table_add_def Let_def)
next
  case (Touch k now p)
  then show ?thesis
    using assms by (auto simp: touch_inv) (auto simp: owner_inv_def touch_def table_contains_def)
qed (use assms in \<open>simp add: record_access_inv record_access_owner_inv\<close>)

interpretation table_history: stepping "table_step b4 b8" "\<lambda>tb. table_inv b4 b8 tb \<and> owner_inv tb"
  for b4 :: "string \<Rightarrow> nat" and b8 :: "string \<Rightarrow> 64 word"
  by unfold_locales (use table_step_ok in blast)

abbreviation table_run ::
  "(string \<Rightarrow> nat) \<Rightarrow> (string \<Rightarrow> 64 word) \<Rightarrow> table_op list \<Rightarrow> table" where
  "table_run b4 b8 ops \<equiv> foldl (table_step b4 b8) table_init ops"

lemma table_run_ok: "table_inv b4 b8 (table_run b4 b8 ops) \<and> owner_inv (table_run b4 b8 ops)"
  by (rule table_history.run_ok) (simp add: table_inv_init, simp add: owner_inv_def table_init_def)

section \<open>Properties\<close>



end
