(* ===== verification/Positional.thy ===== *)
theory Positional
  imports Fragment "HOL-Library.Product_Lexorder"
begin

text \<open>
  The positional index of \<open>membrane/tree.py\<close>: an AVL tree of token spans, ordered by start and
  payload hash, augmented with the largest end of each subtree. A node of the tree carries the
  address of the Python object it stands for, because \<open>node_map\<close> points to objects whose start a
  removal overwrites; everything else of an object is read through the tree only. Raising
  branches are errors of the result type; the lemmas show that no history reaches one.
\<close>

section \<open>Nodes\<close>

datatype interval_node =
    Leaf
  | INode nat fragment int int int interval_node interval_node int

text \<open>
  The arguments of \<open>INode\<close> are the address and then the fields of the class in its order:
  fragment, start, end, max-end, left, right, height.
\<close>

definition content_hash :: "fragment \<Rightarrow> string" where
  "content_hash f = payload_hash (identity f)"

fun height :: "interval_node \<Rightarrow> int" where
  "height Leaf = 0"
| "height (INode a f s e m l r h) = h"

fun max_end :: "interval_node \<Rightarrow> int" where
  "max_end Leaf = 0"
| "max_end (INode a f s e m l r h) = m"

fun update_node :: "interval_node \<Rightarrow> interval_node" where
  "update_node Leaf = Leaf"
| "update_node (INode a f s e m l r h) =
     INode a f s e (max e (max (max_end l) (max_end r))) l r (1 + max (height l) (height r))"

fun rotate_right :: "interval_node \<Rightarrow> interval_node result" where
  "rotate_right (INode ya yf ys ye ym (INode xa xf xs xe xm xl t2 xh) yr yh) =
     Inr (update_node
       (INode xa xf xs xe xm xl (update_node (INode ya yf ys ye ym t2 yr yh)) xh))"
| "rotate_right _ = Inl ValueError"

fun rotate_left :: "interval_node \<Rightarrow> interval_node result" where
  "rotate_left (INode xa xf xs xe xm xl (INode ya yf ys ye ym t2 yr yh) xh) =
     Inr (update_node
       (INode ya yf ys ye ym (update_node (INode xa xf xs xe xm xl t2 xh)) yr yh))"
| "rotate_left _ = Inl ValueError"

fun balance_factor :: "interval_node \<Rightarrow> int" where
  "balance_factor Leaf = 0"
| "balance_factor (INode a f s e m l r h) = height l - height r"

fun rebalance :: "interval_node \<Rightarrow> interval_node result" where
  "rebalance Leaf = Inr Leaf"
| "rebalance (INode a f s e m l r h) =
     (let node = INode a f s e m l r h; bf = balance_factor node in
      if bf > 1 then
        if l = Leaf then Inl ValueError
        else if balance_factor l < 0
        then bind_result (rotate_left l) (\<lambda>l'. rotate_right (INode a f s e m l' r h))
        else rotate_right node
      else if bf < -1 then
        if r = Leaf then Inl ValueError
        else if balance_factor r > 0
        then bind_result (rotate_right r) (\<lambda>r'. rotate_left (INode a f s e m l r' h))
        else rotate_left node
      else Inr node)"

section \<open>Insertion and removal\<close>

text \<open>
  \<open>node_map\<close> maps a payload hash to an object; \<open>starts\<close> is the start field of every object ever
  allocated and \<open>fresh\<close> the next unused address.
\<close>

record node_table =
  node_map :: "(string, nat) dict"
  starts :: "nat \<Rightarrow> int"
  fresh :: nat

record positional = node_table +
  root :: interval_node

definition positional_init :: positional where
  "positional_init = \<lparr>node_map = [], starts = (\<lambda>_. 0), fresh = 0, root = Leaf\<rparr>"

fun insert_node :: "interval_node \<Rightarrow> fragment \<Rightarrow> node_table \<Rightarrow> (interval_node \<times> node_table) result" where
  "insert_node Leaf f st =
     (let (start, stop) = token_span (identity f)
      in Inr (INode (fresh st) f start stop stop Leaf Leaf 1,
              st\<lparr>node_map := dict_set (node_map st) (content_hash f) (fresh st),
                 starts := (starts st)(fresh st := start), fresh := Suc (fresh st)\<rparr>))"
| "insert_node (INode a g s e m l r h) f st =
     (let (start, stop) = token_span (identity f);
          leftwards = bind_result (insert_node l f st) (\<lambda>(l', st').
            bind_result (rebalance (update_node (INode a g s e m l' r h))) (\<lambda>t. Inr (t, st')));
          rightwards = bind_result (insert_node r f st) (\<lambda>(r', st').
            bind_result (rebalance (update_node (INode a g s e m l r' h))) (\<lambda>t. Inr (t, st')))
      in if start < s then leftwards
         else if start > s then rightwards
         else if content_hash f < content_hash g then leftwards
         else rightwards)"

definition positional_insert :: "fragment \<Rightarrow> positional \<Rightarrow> positional result" where
  "positional_insert f p =
     bind_result (insert_node (root p) f (node_table.truncate p)) (\<lambda>(t, st).
       Inr (node_table.extend st \<lparr>root = t\<rparr>))"

fun min_value_node :: "interval_node \<Rightarrow> interval_node" where
  "min_value_node Leaf = Leaf"
| "min_value_node (INode a f s e m l r h) =
     (if l = Leaf then INode a f s e m l r h else min_value_node l)"

fun remove_node ::
  "interval_node \<Rightarrow> int \<Rightarrow> string \<Rightarrow> node_table \<Rightarrow> (interval_node \<times> node_table) result" where
  "remove_node Leaf start ch st = Inr (Leaf, st)"
| "remove_node (INode a f s e m l r h) start ch st =
     (if ch = content_hash f then
        if l = Leaf then Inr (r, st)
        else if r = Leaf then Inr (l, st)
        else
          (case min_value_node r of
             Leaf \<Rightarrow> Inl AttributeError
           | INode _ sf ss se _ _ _ _ \<Rightarrow>
               bind_result
                 (remove_node r ss (content_hash sf)
                    (st\<lparr>node_map := dict_set (node_map st) (content_hash sf) a,
                        starts := (starts st)(a := ss)\<rparr>)) (\<lambda>(r', st').
               bind_result (rebalance (update_node (INode a sf ss se m l r' h))) (\<lambda>t. Inr (t, st'))))
      else if (start, ch) < (s, content_hash f) then
        bind_result (remove_node l start ch st) (\<lambda>(l', st').
          bind_result (rebalance (update_node (INode a f s e m l' r h))) (\<lambda>t. Inr (t, st')))
      else
        bind_result (remove_node r start ch st) (\<lambda>(r', st').
          bind_result (rebalance (update_node (INode a f s e m l r' h))) (\<lambda>t. Inr (t, st'))))"

definition positional_remove :: "string \<Rightarrow> positional \<Rightarrow> (positional \<times> bool) result" where
  "positional_remove ch p =
     (case map_of (node_map p) ch of
        None \<Rightarrow> Inr (p, False)
      | Some target \<Rightarrow>
          bind_result (remove_node (root p) (starts p target) ch (node_table.truncate p)) (\<lambda>(t, st).
            Inr (node_table.extend (st\<lparr>node_map := dict_del (node_map st) ch\<rparr>) \<lparr>root = t\<rparr>, True)))"

section \<open>Queries\<close>

fun find_overlapping_recursive ::
  "interval_node \<Rightarrow> int \<Rightarrow> int \<Rightarrow> fragment list \<Rightarrow> fragment list" where
  "find_overlapping_recursive Leaf start stop results = results"
| "find_overlapping_recursive (INode a f s e m l r h) start stop results =
     (let results1 = (if l \<noteq> Leaf \<and> max_end l \<ge> start
                      then find_overlapping_recursive l start stop results else results);
          results2 = (if s \<le> stop \<and> e \<ge> start then results1 @ [f] else results1)
      in if s \<le> stop then find_overlapping_recursive r start stop results2 else results2)"

definition find_overlapping :: "int \<Rightarrow> int \<Rightarrow> positional \<Rightarrow> fragment list" where
  "find_overlapping start stop p = find_overlapping_recursive (root p) start stop []"

fun find_adjacent_recursive ::
  "interval_node \<Rightarrow> int \<Rightarrow> int \<Rightarrow> fragment list \<Rightarrow> fragment list" where
  "find_adjacent_recursive Leaf position max_gap results = results"
| "find_adjacent_recursive (INode a f s e m l r h) position max_gap results =
     (let gap_after = s - position;
          results1 = (if 0 \<le> gap_after \<and> gap_after \<le> max_gap then results @ [f] else results);
          gap_before = position - e;
          results2 = (if 0 \<le> gap_before \<and> gap_before \<le> max_gap then results1 @ [f] else results1);
          results3 = (if l \<noteq> Leaf \<and> max_end l \<ge> position - max_gap
                      then find_adjacent_recursive l position max_gap results2 else results2)
      in if s \<le> position + max_gap then find_adjacent_recursive r position max_gap results3
         else results3)"

definition find_adjacent :: "int \<Rightarrow> int \<Rightarrow> positional \<Rightarrow> fragment list" where
  "find_adjacent position max_gap p = find_adjacent_recursive (root p) position max_gap []"

section \<open>Invariants of the tree\<close>

fun inorder :: "interval_node \<Rightarrow> (nat \<times> fragment) list" where
  "inorder Leaf = []"
| "inorder (INode a f s e m l r h) = inorder l @ (a, f) # inorder r"

abbreviation contents :: "interval_node \<Rightarrow> fragment list" where
  "contents t \<equiv> map snd (inorder t)"

definition span_key :: "fragment \<Rightarrow> int \<times> string" where
  "span_key f = (fst (token_span (identity f)), content_hash f)"

definition spans :: "fragment \<Rightarrow> int \<Rightarrow> int \<Rightarrow> bool" where
  "spans f s e \<longleftrightarrow> token_span (identity f) = (s, e) \<and> 0 \<le> s \<and> s \<le> e"

text \<open>Every augmented field is what its definition says of the subtree below it.\<close>

fun augmented :: "interval_node \<Rightarrow> bool" where
  "augmented Leaf = True"
| "augmented (INode a f s e m l r h) \<longleftrightarrow>
     spans f s e \<and> m = max e (max (max_end l) (max_end r)) \<and>
     h = 1 + max (height l) (height r) \<and> augmented l \<and> augmented r"

fun balanced :: "interval_node \<Rightarrow> bool" where
  "balanced Leaf = True"
| "balanced (INode a f s e m l r h) \<longleftrightarrow>
     \<bar>height l - height r\<bar> \<le> 1 \<and> balanced l \<and> balanced r"

definition ordered :: "interval_node \<Rightarrow> bool" where
  "ordered t \<longleftrightarrow> sorted (map span_key (contents t))"

definition tree_ok :: "interval_node \<Rightarrow> bool" where
  "tree_ok t \<longleftrightarrow> augmented t \<and> balanced t \<and> ordered t"

lemma height_nonneg: "augmented t \<Longrightarrow> 0 \<le> height t"
  by (induction t) auto

lemma height_pos: "augmented (INode a f s e m l r h) \<Longrightarrow> 0 < h"
  using height_nonneg [of l] height_nonneg [of r] by auto

lemma update_node_augmented:
  "spans f s e \<Longrightarrow> augmented l \<Longrightarrow> augmented r \<Longrightarrow>
    augmented (update_node (INode a f s e m l r h))"
  by simp

text \<open>
  The rebalancing step: with subtrees that are right in themselves and at most two apart, it does
  not raise, keeps the in-order sequence, restores the balance, and loses at most one level.
\<close>

lemma rotate_right_spec:
  assumes "augmented l" and "balanced l" and "augmented r" and "balanced r"
    and "spans f s e"
    and "height l = height r + 2" and "0 \<le> balance_factor l"
  shows "\<exists>t'. rotate_right (INode a f s e m l r h) = Inr t' \<and> augmented t' \<and> balanced t' \<and>
    inorder t' = inorder l @ (a, f) # inorder r \<and> height l \<le> height t' \<and> height t' \<le> height l + 1"
proof (cases l)
  case Leaf
  with assms(6) height_nonneg [OF assms(3)] show ?thesis by simp
next
  case (INode xa xf xs xe xm xl t2 xh)
  with assms show ?thesis by (auto simp: max_def split: if_splits)
qed

lemma rotate_left_spec:
  assumes "augmented l" and "balanced l" and "augmented r" and "balanced r"
    and "spans f s e"
    and "height r = height l + 2" and "balance_factor r \<le> 0"
  shows "\<exists>t'. rotate_left (INode a f s e m l r h) = Inr t' \<and> augmented t' \<and> balanced t' \<and>
    inorder t' = inorder l @ (a, f) # inorder r \<and> height r \<le> height t' \<and> height t' \<le> height r + 1"
proof (cases r)
  case Leaf
  with assms(6) height_nonneg [OF assms(1)] show ?thesis by simp
next
  case (INode ya yf ys ye ym t2 yr yh)
  with assms show ?thesis by (auto simp: max_def split: if_splits)
qed

lemma double_right_spec:
  assumes "augmented l" and "balanced l" and "augmented r" and "balanced r"
    and "spans f s e"
    and "height l = height r + 2" and "balance_factor l < 0"
  shows "\<exists>t'. bind_result (rotate_left l) (\<lambda>l'. rotate_right (INode a f s e m l' r h)) = Inr t' \<and>
    augmented t' \<and> balanced t' \<and> inorder t' = inorder l @ (a, f) # inorder r \<and> height t' = height l"
proof (cases l)
  case Leaf
  with assms(7) show ?thesis by simp
next
  case (INode xa xf xs xe xm xl xr xh)
  note l = this
  show ?thesis
  proof (cases xr)
    case Leaf
    with l assms(1,7) height_nonneg [of xl] show ?thesis by simp
  next
    case (INode ya yf ys ye ym t2 t3 yh)
    with l assms show ?thesis by (auto simp: max_def split: if_splits)
  qed
qed

lemma double_left_spec:
  assumes "augmented l" and "balanced l" and "augmented r" and "balanced r"
    and "spans f s e"
    and "height r = height l + 2" and "0 < balance_factor r"
  shows "\<exists>t'. bind_result (rotate_right r) (\<lambda>r'. rotate_left (INode a f s e m l r' h)) = Inr t' \<and>
    augmented t' \<and> balanced t' \<and> inorder t' = inorder l @ (a, f) # inorder r \<and> height t' = height r"
proof (cases r)
  case Leaf
  with assms(7) show ?thesis by simp
next
  case (INode ya yf ys ye ym yl yr yh)
  note r = this
  show ?thesis
  proof (cases yl)
    case Leaf
    with r assms(3,7) height_nonneg [of yr] show ?thesis by simp
  next
    case (INode xa xf xs xe xm t2 t3 xh)
    with r assms show ?thesis by (auto simp: max_def split: if_splits)
  qed
qed

lemma rebalance_eqs:
  "\<bar>height l - height r\<bar> \<le> 1 \<Longrightarrow> rebalance (INode a f s e m l r h) = Inr (INode a f s e m l r h)"
  "height l = height r + 2 \<Longrightarrow> l \<noteq> Leaf \<Longrightarrow> balance_factor l < 0 \<Longrightarrow>
    rebalance (INode a f s e m l r h) =
      bind_result (rotate_left l) (\<lambda>l'. rotate_right (INode a f s e m l' r h))"
  "height l = height r + 2 \<Longrightarrow> l \<noteq> Leaf \<Longrightarrow> \<not> balance_factor l < 0 \<Longrightarrow>
    rebalance (INode a f s e m l r h) = rotate_right (INode a f s e m l r h)"
  "height r = height l + 2 \<Longrightarrow> r \<noteq> Leaf \<Longrightarrow> 0 < balance_factor r \<Longrightarrow>
    rebalance (INode a f s e m l r h) =
      bind_result (rotate_right r) (\<lambda>r'. rotate_left (INode a f s e m l r' h))"
  "height r = height l + 2 \<Longrightarrow> r \<noteq> Leaf \<Longrightarrow> \<not> 0 < balance_factor r \<Longrightarrow>
    rebalance (INode a f s e m l r h) = rotate_left (INode a f s e m l r h)"
proof -
  assume "\<bar>height l - height r\<bar> \<le> 1"
  then have "\<not> 1 < height l - height r" "\<not> height l - height r < -1" by linarith+
  then show "rebalance (INode a f s e m l r h) = Inr (INode a f s e m l r h)" by (simp add: Let_def)
qed (simp_all add: Let_def)

lemma rebalance_spec:
  assumes "augmented l" and "balanced l" and "augmented r" and "balanced r"
    and "spans f s e" and "\<bar>height l - height r\<bar> \<le> 2"
  obtains t' where "rebalance (update_node (INode a f s e m l r h)) = Inr t'"
    and "augmented t'" and "balanced t'" and "inorder t' = inorder l @ (a, f) # inorder r"
    and "max (height l) (height r) \<le> height t'" and "height t' \<le> 1 + max (height l) (height r)"
    and "\<bar>height l - height r\<bar> \<le> 1 \<longrightarrow> height t' = 1 + max (height l) (height r)"
proof -
  let ?m = "max e (max (max_end l) (max_end r))" and ?h = "1 + max (height l) (height r)"
  note sub = assms(1-5)
  have upd: "update_node (INode a f s e m l r h) = INode a f s e ?m l r ?h" by simp
  consider (even) "\<bar>height l - height r\<bar> \<le> 1"
    | (left) "height l = height r + 2" | (right) "height r = height l + 2"
    using assms(6) by linarith
  then show thesis
  proof cases
    case even
    with sub show thesis
      by (intro that [of "INode a f s e ?m l r ?h"]) (simp_all only: upd rebalance_eqs, auto)
  next
    case left
    then have ne: "l \<noteq> Leaf" using height_nonneg [OF assms(3)] by auto
    have "\<exists>t'. rebalance (INode a f s e ?m l r ?h) = Inr t' \<and> augmented t' \<and> balanced t' \<and>
      inorder t' = inorder l @ (a, f) # inorder r \<and> height l \<le> height t' \<and> height t' \<le> height l + 1"
      using double_right_spec [OF sub left, of a ?m ?h] rotate_right_spec [OF sub left, of a ?m ?h]
        rebalance_eqs(2,3) [OF left ne, of a f s e ?m ?h]
      by (cases "balance_factor l < 0") auto
    with left show thesis unfolding upd by (auto intro: that)
  next
    case right
    then have ne: "r \<noteq> Leaf" using height_nonneg [OF assms(1)] by auto
    have "\<exists>t'. rebalance (INode a f s e ?m l r ?h) = Inr t' \<and> augmented t' \<and> balanced t' \<and>
      inorder t' = inorder l @ (a, f) # inorder r \<and> height r \<le> height t' \<and> height t' \<le> height r + 1"
      using double_left_spec [OF sub right, of a ?m ?h] rotate_left_spec [OF sub right, of a ?m ?h]
        rebalance_eqs(4,5) [OF right ne, of a f s e ?m ?h]
      by (cases "balance_factor r > 0") auto
    with right show thesis unfolding upd by (auto intro: that)
  qed
qed

declare rebalance.simps [simp del]

text \<open>
  Insertion: it does not raise, adds one node to the in-order sequence (the new object, at some
  position), registers it, and grows the tree by at most one level.
\<close>

definition registered :: "fragment \<Rightarrow> node_table \<Rightarrow> node_table" where
  "registered f st = st\<lparr>node_map := dict_set (node_map st) (content_hash f) (fresh st),
     starts := (starts st)(fresh st := fst (token_span (identity f))), fresh := Suc (fresh st)\<rparr>"

lemma insert_node_shape:
  assumes "augmented t" and "balanced t" and "range_ok (token_span (identity f))"
  shows "\<exists>t' xs ys. insert_node t f st = Inr (t', registered f st) \<and> augmented t' \<and> balanced t' \<and>
    inorder t = xs @ ys \<and> inorder t' = xs @ (fresh st, f) # ys \<and>
    height t \<le> height t' \<and> height t' \<le> height t + 1"
  using assms(1,2)
proof (induction t)
  case Leaf
  show ?case
    using assms(3) by (cases "token_span (identity f)") (simp add: registered_def spans_def range_ok_def)
next
  case (INode a g s e m l r h)
  obtain start stop where sp: "token_span (identity f) = (start, stop)" by fastforce
  from INode.IH(1) INode.prems obtain l' xs ys where l': "insert_node l f st = Inr (l', registered f st)"
    "augmented l'" "balanced l'" "inorder l = xs @ ys" "inorder l' = xs @ (fresh st, f) # ys"
    "height l \<le> height l'" "height l' \<le> height l + 1" by auto
  from INode.IH(2) INode.prems obtain r' us vs where r': "insert_node r f st = Inr (r', registered f st)"
    "augmented r'" "balanced r'" "inorder r = us @ vs" "inorder r' = us @ (fresh st, f) # vs"
    "height r \<le> height r'" "height r' \<le> height r + 1" by auto
  have se: "spans g s e" and sub: "augmented l" "balanced l" "augmented r" "balanced r"
    and hh: "h = 1 + max (height l) (height r)" "\<bar>height l - height r\<bar> \<le> 1"
    using INode.prems by auto
  have lt: "\<bar>height l' - height r\<bar> \<le> 2" "\<bar>height l - height r'\<bar> \<le> 2"
    using l'(6,7) r'(6,7) hh(2) by linarith+
  show ?case
  proof (cases "start < s \<or> start = s \<and> content_hash f < content_hash g")
    case True
    obtain t' where t': "rebalance (update_node (INode a g s e m l' r h)) = Inr t'"
      "augmented t'" "balanced t'" "inorder t' = inorder l' @ (a, g) # inorder r"
      "max (height l') (height r) \<le> height t'" "height t' \<le> 1 + max (height l') (height r)"
      "\<bar>height l' - height r\<bar> \<le> 1 \<longrightarrow> height t' = 1 + max (height l') (height r)"
      by (rule rebalance_spec [OF l'(2,3) sub(3,4) se lt(1)])
    have "insert_node (INode a g s e m l r h) f st = Inr (t', registered f st)"
      using True t'(1) l'(1) by (auto simp: sp Let_def)
    moreover have "h \<le> height t' \<and> height t' \<le> h + 1"
      using t'(5-7) hh l'(6,7) by linarith
    ultimately show ?thesis
      using t'(2-4) l'(4,5)
      by (intro exI [of _ t'] exI [of _ xs] exI [of _ "ys @ (a, g) # inorder r"]) simp
  next
    case False
    obtain t' where t': "rebalance (update_node (INode a g s e m l r' h)) = Inr t'"
      "augmented t'" "balanced t'" "inorder t' = inorder l @ (a, g) # inorder r'"
      "max (height l) (height r') \<le> height t'" "height t' \<le> 1 + max (height l) (height r')"
      "\<bar>height l - height r'\<bar> \<le> 1 \<longrightarrow> height t' = 1 + max (height l) (height r')"
      by (rule rebalance_spec [OF sub(1,2) r'(2,3) se lt(2)])
    have "insert_node (INode a g s e m l r h) f st = Inr (t', registered f st)"
      using False t'(1) r'(1) by (auto simp: sp Let_def)
    moreover have "h \<le> height t' \<and> height t' \<le> h + 1"
      using t'(5-7) hh r'(6,7) by linarith
    ultimately show ?thesis
      using t'(2-4) r'(4,5)
      by (intro exI [of _ t'] exI [of _ "inorder l @ (a, g) # us"] exI [of _ vs]) simp
  qed
qed

text \<open>
  Removal: it does not raise, keeps the augmentation, the balance and the order, invents no
  fragment, and shrinks the tree by at most one level. This holds for any tree, also one that
  holds the same payload hash more than once.
\<close>

lemma min_value_node_spec:
  assumes "augmented t" and "t \<noteq> Leaf"
  obtains ma sf ss se mm mr mh where "min_value_node t = INode ma sf ss se mm Leaf mr mh"
    and "spans sf ss se" and "\<exists>xs. inorder t = (ma, sf) # xs"
proof -
  have "\<exists>ma sf ss se mm mr mh. min_value_node t = INode ma sf ss se mm Leaf mr mh \<and> spans sf ss se \<and>
      (\<exists>xs. inorder t = (ma, sf) # xs)"
    using assms by (induction t) auto
  then show thesis using that by blast
qed

definition shrunk :: "interval_node \<Rightarrow> interval_node \<Rightarrow> bool" where
  "shrunk t t' \<longleftrightarrow> augmented t' \<and> balanced t' \<and> set (contents t') \<subseteq> set (contents t) \<and>
     (ordered t \<longrightarrow> ordered t') \<and> height t' \<le> height t \<and> height t \<le> height t' + 1"

lemma ordered_node:
  "ordered (INode a f s e m l r h) \<longleftrightarrow> ordered l \<and> ordered r \<and>
     (\<forall>g\<in>set (contents l). span_key g \<le> span_key f) \<and>
     (\<forall>g\<in>set (contents r). span_key f \<le> span_key g) \<and>
     (\<forall>g\<in>set (contents l). \<forall>g'\<in>set (contents r). span_key g \<le> span_key g')"
  by (auto simp: ordered_def sorted_append)

lemma ordered_inorder:
  "inorder t' = inorder l @ (a, f) # inorder r \<Longrightarrow> ordered t' = ordered (INode a f s e m l r h)"
  by (simp add: ordered_def)

lemma rebuild_shrunk:
  assumes t: "augmented (INode a f s e m l r h)" "balanced (INode a f s e m l r h)"
    and l': "augmented l'" "balanced l'" and r': "augmented r'" "balanced r'" and g: "spans g s' e'"
    and hts: "height l' \<le> height l" "height l \<le> height l' + 1" "height r' \<le> height r"
      "height r \<le> height r' + 1" "height l' = height l \<or> height r' = height r"
    and sub: "insert g (set (contents l') \<union> set (contents r')) \<subseteq> set (contents (INode a f s e m l r h))"
    and ord: "ordered (INode a f s e m l r h) \<Longrightarrow> ordered (INode a g s' e' m' l' r' h')"
  shows "\<exists>t'. rebalance (update_node (INode a g s' e' m' l' r' h')) = Inr t' \<and>
    shrunk (INode a f s e m l r h) t' \<and> inorder t' = inorder l' @ (a, g) # inorder r'"
proof -
  have hh: "h = 1 + max (height l) (height r)" "\<bar>height l - height r\<bar> \<le> 1" using t by auto
  have "\<bar>height l' - height r'\<bar> \<le> 2" using hts hh(2) by linarith
  then obtain t' where t': "rebalance (update_node (INode a g s' e' m' l' r' h')) = Inr t'"
      "augmented t'" "balanced t'" "inorder t' = inorder l' @ (a, g) # inorder r'"
      "max (height l') (height r') \<le> height t'" "height t' \<le> 1 + max (height l') (height r')"
      "\<bar>height l' - height r'\<bar> \<le> 1 \<longrightarrow> height t' = 1 + max (height l') (height r')"
    by (rule rebalance_spec [OF l' r' g])
  have "height t' \<le> h \<and> h \<le> height t' + 1"
    using t'(5-7) hh hts by linarith
  moreover have "set (contents t') = insert g (set (contents l') \<union> set (contents r'))"
    by (simp add: t'(4) Un_insert_right)
  ultimately have "shrunk (INode a f s e m l r h) t'"
    using t'(2,3) sub ord ordered_inorder [OF t'(4)] unfolding shrunk_def by simp
  with t'(1,4) show ?thesis by simp
qed

lemma shrunkD:
  assumes "shrunk t t'"
  shows "augmented t'" "balanced t'" "set (contents t') \<subseteq> set (contents t)"
    "ordered t \<Longrightarrow> ordered t'" "height t' \<le> height t" "height t \<le> height t' + 1"
  using assms by (auto simp: shrunk_def)

lemma remove_node_shape:
  assumes "augmented t" and "balanced t"
  shows "\<exists>t' st'. remove_node t start ch st = Inr (t', st') \<and> shrunk t t'"
  using assms
proof (induction t arbitrary: start ch st)
  case Leaf
  then show ?case by (simp add: shrunk_def)
next
  case (INode a f s e m l r h)
  note t = INode.prems
  have sub: "augmented l" "balanced l" "augmented r" "balanced r" "spans f s e" using t by auto
  have hh: "h = 1 + max (height l) (height r)" "\<bar>height l - height r\<bar> \<le> 1" using t by auto
  show ?case
  proof (cases "ch = content_hash f")
    case True
    consider "l = Leaf" | "l \<noteq> Leaf" "r = Leaf" | "l \<noteq> Leaf" "r \<noteq> Leaf" by blast
    then show ?thesis
    proof cases
      case 1
      with True t sub hh show ?thesis
        using height_nonneg [OF sub(3)] by (auto simp: shrunk_def ordered_node)
    next
      case 2
      with True t sub hh show ?thesis
        using height_nonneg [OF sub(1)] by (auto simp: shrunk_def ordered_node)
    next
      case 3
      obtain ma sf ss se mm mr mh xs where mv: "min_value_node r = INode ma sf ss se mm Leaf mr mh"
        "spans sf ss se" "inorder r = (ma, sf) # xs"
        using min_value_node_spec [OF sub(3) 3(2)] by metis
      define st1 where "st1 = st\<lparr>node_map := dict_set (node_map st) (content_hash sf) a,
                        starts := (starts st)(a := ss)\<rparr>"
      obtain r' st' where r': "remove_node r ss (content_hash sf) st1 = Inr (r', st')" "shrunk r r'"
        using INode.IH(2) [OF sub(3,4)] by blast
      note rs = shrunkD [OF r'(2)]
      have "\<exists>t'. rebalance (update_node (INode a sf ss se m l r' h)) = Inr t' \<and>
          shrunk (INode a f s e m l r h) t' \<and> inorder t' = inorder l @ (a, sf) # inorder r'"
      proof (rule rebuild_shrunk [OF t sub(1,2) rs(1,2) mv(2)])
        show "insert sf (set (contents l) \<union> set (contents r')) \<subseteq> set (contents (INode a f s e m l r h))"
          using rs(3) mv(3) by auto
        assume o: "ordered (INode a f s e m l r h)"
        then have "\<forall>g\<in>set (contents r). span_key sf \<le> span_key g"
          unfolding ordered_node by (simp add: ordered_def mv(3))
        moreover have "sf \<in> set (contents r)" by (simp add: mv(3))
        ultimately show "ordered (INode a sf ss se m l r' h)"
          using o rs(3,4) unfolding ordered_node by blast
      qed (use rs in simp_all)
      with True 3 mv(1) r'(1) show ?thesis by (auto simp: st1_def)
    qed
  next
    case False
    show ?thesis
    proof (cases "(start, ch) < (s, content_hash f)")
      case True
      obtain l' st' where l': "remove_node l start ch st = Inr (l', st')" "shrunk l l'"
        using INode.IH(1) [OF sub(1,2)] by blast
      note ls = shrunkD [OF l'(2)]
      have "\<exists>t'. rebalance (update_node (INode a f s e m l' r h)) = Inr t' \<and>
          shrunk (INode a f s e m l r h) t' \<and> inorder t' = inorder l' @ (a, f) # inorder r"
      proof (rule rebuild_shrunk [OF t ls(1,2) sub(3-5)])
        show "insert f (set (contents l') \<union> set (contents r)) \<subseteq> set (contents (INode a f s e m l r h))"
          using ls(3) by auto
        assume "ordered (INode a f s e m l r h)"
        then show "ordered (INode a f s e m l' r h)" using ls(3,4) unfolding ordered_node by blast
      qed (use ls in simp_all)
      with False True l'(1) show ?thesis by auto
    next
      case right: False
      obtain r' st' where r': "remove_node r start ch st = Inr (r', st')" "shrunk r r'"
        using INode.IH(2) [OF sub(3,4)] by blast
      note rs = shrunkD [OF r'(2)]
      have "\<exists>t'. rebalance (update_node (INode a f s e m l r' h)) = Inr t' \<and>
          shrunk (INode a f s e m l r h) t' \<and> inorder t' = inorder l @ (a, f) # inorder r'"
      proof (rule rebuild_shrunk [OF t sub(1,2) rs(1,2) sub(5)])
        show "insert f (set (contents l) \<union> set (contents r')) \<subseteq> set (contents (INode a f s e m l r h))"
          using rs(3) by auto
        assume "ordered (INode a f s e m l r h)"
        then show "ordered (INode a f s e m l r' h)" using rs(3,4) unfolding ordered_node by blast
      qed (use rs in simp_all)
      with False right r'(1) show ?thesis by auto
    qed
  qed
qed

section \<open>Queries see exactly the matching fragments\<close>

definition overlaps :: "int \<Rightarrow> int \<Rightarrow> fragment \<Rightarrow> bool" where
  "overlaps start stop f \<longleftrightarrow>
     fst (token_span (identity f)) \<le> stop \<and> start \<le> snd (token_span (identity f))"

definition adjacent_hits :: "int \<Rightarrow> int \<Rightarrow> fragment \<Rightarrow> fragment list" where
  "adjacent_hits position max_gap f =
     (let (s, e) = token_span (identity f)
      in (if 0 \<le> s - position \<and> s - position \<le> max_gap then [f] else [])
       @ (if 0 \<le> position - e \<and> position - e \<le> max_gap then [f] else []))"

lemma contents_bounds:
  "augmented t \<Longrightarrow> f \<in> set (contents t) \<Longrightarrow>
     snd (token_span (identity f)) \<le> max_end t \<and> fst (token_span (identity f)) \<le> snd (token_span (identity f))"
proof (induction t)
  case Leaf
  then show ?case by simp
next
  case (INode a g s e m l r h)
  then consider "f = g" | "f \<in> set (contents l)" | "f \<in> set (contents r)" by auto
  then show ?case
  proof cases
    case 1
    with INode.prems(1) show ?thesis by (simp add: spans_def)
  next
    case 2
    with INode.IH(1) INode.prems(1) show ?thesis by force
  next
    case 3
    with INode.IH(2) INode.prems(1) show ?thesis by force
  qed
qed

lemma start_mono: "span_key f \<le> span_key g \<Longrightarrow> fst (token_span (identity f)) \<le> fst (token_span (identity g))"
  by (auto simp: span_key_def)

lemma find_overlapping_recursive_eq:
  "augmented t \<Longrightarrow> ordered t \<Longrightarrow>
     find_overlapping_recursive t start stop results = results @ filter (overlaps start stop) (contents t)"
proof (induction t arbitrary: results)
  case Leaf
  then show ?case by simp
next
  case (INode a f s e m l r h)
  have sub: "augmented l" "augmented r" "ordered l" "ordered r" "token_span (identity f) = (s, e)"
    using INode.prems by (auto simp: ordered_node spans_def)
  have left: "filter (overlaps start stop) (contents l) = []" if "max_end l < start"
    using contents_bounds [OF sub(1)] that by (fastforce simp: overlaps_def filter_empty_conv)
  have "s \<le> fst (token_span (identity g))" if "g \<in> set (contents r)" for g
  proof -
    have "span_key f \<le> span_key g" using INode.prems(2) that unfolding ordered_node by metis
    then show ?thesis using start_mono [of f g] by (simp add: sub(5))
  qed
  then have right: "filter (overlaps start stop) (contents r) = []" if "stop < s"
    using that by (fastforce simp: overlaps_def filter_empty_conv)
  have self: "overlaps start stop f \<longleftrightarrow> s \<le> stop \<and> start \<le> e" by (simp add: overlaps_def sub(5))
  show ?case
    using INode.IH(1) [OF sub(1,3)] INode.IH(2) [OF sub(2,4)] left right
    by (cases "l = Leaf"; cases "start \<le> max_end l"; cases "s \<le> stop")
       (simp_all add: Let_def self not_le)
qed

lemma find_adjacent_recursive_eq:
  "augmented t \<Longrightarrow> ordered t \<Longrightarrow>
     mset (find_adjacent_recursive t position max_gap results)
       = mset results + mset (concat (map (adjacent_hits position max_gap) (contents t)))"
proof (induction t arbitrary: results)
  case Leaf
  then show ?case by simp
next
  case (INode a f s e m l r h)
  have sub: "augmented l" "augmented r" "ordered l" "ordered r" "token_span (identity f) = (s, e)"
    using INode.prems by (auto simp: ordered_node spans_def)
  have left: "concat (map (adjacent_hits position max_gap) (contents l)) = []" if "max_end l < position - max_gap"
    using contents_bounds [OF sub(1)] that
    by (fastforce simp: adjacent_hits_def Let_def concat_eq_Nil_conv split: prod.splits)
  have "s \<le> fst (token_span (identity g))" if "g \<in> set (contents r)" for g
  proof -
    have "span_key f \<le> span_key g" using INode.prems(2) that unfolding ordered_node by metis
    then show ?thesis using start_mono [of f g] by (simp add: sub(5))
  qed
  then have right: "concat (map (adjacent_hits position max_gap) (contents r)) = []" if "position + max_gap < s"
    using contents_bounds [OF sub(2)] that
    by (fastforce simp: adjacent_hits_def Let_def concat_eq_Nil_conv split: prod.splits)
  have self: "adjacent_hits position max_gap f
      = (if 0 \<le> s - position \<and> s - position \<le> max_gap then [f] else [])
       @ (if 0 \<le> position - e \<and> position - e \<le> max_gap then [f] else [])"
    by (simp add: adjacent_hits_def sub(5))
  show ?case
    using INode.IH(1) [OF sub(1,3)] INode.IH(2) [OF sub(2,4)] left right
    by (cases "l = Leaf"; cases "position - max_gap \<le> max_end l"; cases "s \<le> position + max_gap")
       (simp_all add: Let_def self not_le)
qed

text \<open>The height of a balanced tree is logarithmic in the number of its fragments.\<close>

lemma height_bound:
  "augmented t \<Longrightarrow> balanced t \<Longrightarrow> 2 ^ (nat (height t) div 2) \<le> length (contents t) + 1"
proof (induction "nat (height t)" arbitrary: t rule: less_induct)
  case less
  show ?case
  proof (cases t)
    case Leaf
    then show ?thesis by simp
  next
    case (INode a f s e m l r h)
    have sub: "augmented l" "balanced l" "augmented r" "balanced r" using less.prems INode by auto
    note nn = height_nonneg [OF sub(1)] height_nonneg [OF sub(3)]
    have h: "h = 1 + max (height l) (height r)" "\<bar>height l - height r\<bar> \<le> 1" using less.prems INode by auto
    show ?thesis
    proof (cases "h \<le> 1")
      case True
      then show ?thesis using INode by simp
    next
      case False
      have hl: "nat h div 2 \<le> Suc (nat (height l) div 2)" "nat h div 2 \<le> Suc (nat (height r) div 2)"
        using h nn by linarith+
      have "height t = h" by (simp add: INode)
      with h(1) nn have lt: "nat (height l) < nat (height t)" "nat (height r) < nat (height t)" by linarith+
      have "2 ^ (nat (height l) div 2) \<le> length (contents l) + 1"
        "2 ^ (nat (height r) div 2) \<le> length (contents r) + 1"
        using less.hyps [OF lt(1) sub(1,2)] less.hyps [OF lt(2) sub(3,4)] .
      moreover have "(2::nat) ^ (nat h div 2) \<le> 2 ^ (nat (height l) div 2) + 2 ^ (nat (height r) div 2)"
      proof -
        obtain k where k: "nat h div 2 = Suc k" using False by (cases "nat h div 2") linarith+
        have "(2::nat) ^ k \<le> 2 ^ (nat (height l) div 2)" "(2::nat) ^ k \<le> 2 ^ (nat (height r) div 2)"
          using hl k by (auto intro: power_increasing)
        then show ?thesis unfolding k power_Suc by linarith
      qed
      ultimately show ?thesis using INode by simp
    qed
  qed
qed

section \<open>Histories\<close>

text \<open>
  The index under any sequence of uses. A fragment can only be inserted once its identity was
  accepted by the constructor.
\<close>

datatype index_op = Insert fragment | Delete string

fun positional_step :: "positional \<Rightarrow> index_op \<Rightarrow> positional" where
  "positional_step p (Insert f) =
     (case bind_result (identity_post_init (identity f)) (\<lambda>_. positional_insert f p) of
        Inl _ \<Rightarrow> p | Inr p' \<Rightarrow> p')"
| "positional_step p (Delete ch) = (case positional_remove ch p of Inl _ \<Rightarrow> p | Inr (p', _) \<Rightarrow> p')"

abbreviation positional_run :: "index_op list \<Rightarrow> positional" where
  "positional_run ops \<equiv> foldl positional_step positional_init ops"

abbreviation indexed :: "positional \<Rightarrow> fragment list" where
  "indexed p \<equiv> contents (root p)"

lemma ordered_grow_left:
  assumes "ordered (INode a g s e m l r h)" and "ordered l'"
    and "set (contents l') \<subseteq> insert f (set (contents l))" and "span_key f \<le> span_key g"
  shows "ordered (INode a g s e m l' r h)"
proof -
  note o = assms(1) [unfolded ordered_node]
  have le: "span_key x \<le> span_key g" if "x \<in> set (contents l')" for x
    using that assms(3,4) o by (metis insertE subsetD)
  moreover have "span_key x \<le> span_key y" if "x \<in> set (contents l')" "y \<in> set (contents r)" for x y
    using le [OF that(1)] o that(2) by (metis order_trans)
  ultimately show ?thesis using o assms(2) unfolding ordered_node by metis
qed

lemma ordered_grow_right:
  assumes "ordered (INode a g s e m l r h)" and "ordered r'"
    and "set (contents r') \<subseteq> insert f (set (contents r))" and "span_key g \<le> span_key f"
  shows "ordered (INode a g s e m l r' h)"
proof -
  note o = assms(1) [unfolded ordered_node]
  have le: "span_key g \<le> span_key x" if "x \<in> set (contents r')" for x
    using that assms(3,4) o by (metis insertE subsetD)
  moreover have "span_key x \<le> span_key y" if "x \<in> set (contents l)" "y \<in> set (contents r')" for x y
    using le [OF that(2)] o that(1) by (metis order_trans)
  ultimately show ?thesis using o assms(2) unfolding ordered_node by metis
qed

lemma insert_node_ordered:
  assumes "augmented t" and "balanced t" and "ordered t" and "range_ok (token_span (identity f))"
    and "insert_node t f st = Inr (t', st')"
  shows "ordered t'"
  using assms(1-3,5)
proof (induction t arbitrary: t' st')
  case Leaf
  then show ?case by (auto simp: ordered_def split: prod.splits)
next
  case (INode a g s e m l r h)
  have sub: "augmented l" "balanced l" "augmented r" "balanced r" "ordered l" "ordered r" "spans g s e"
    "\<bar>height l - height r\<bar> \<le> 1"
    using INode.prems(1-3) by (simp_all add: ordered_node)
  have key: "span_key g = (s, content_hash g)" "span_key f = (fst (token_span (identity f)), content_hash f)"
    using sub(7) by (simp_all add: span_key_def spans_def)
  have grow: "set (contents t') \<subseteq> insert f (set (contents t)) \<and> augmented t' \<and> balanced t' \<and>
      height t \<le> height t' \<and> height t' \<le> height t + 1"
    if "insert_node t f st = Inr (t', st')" "augmented t" "balanced t" for t t' st'
    using insert_node_shape [OF that(2,3) assms(4), of st] that(1) by auto
  obtain start stop where sp: "token_span (identity f) = (start, stop)" by fastforce
  show ?case
  proof (cases "start < s \<or> start = s \<and> content_hash f < content_hash g")
    case True
    then obtain l' where l': "insert_node l f st = Inr (l', st')"
      and t': "rebalance (update_node (INode a g s e m l' r h)) = Inr t'"
      using INode.prems(4) by (auto simp: sp Let_def split: if_splits)
    note gl = grow [OF l' sub(1,2)]
    have "\<bar>height l' - height r\<bar> \<le> 2" using gl sub(8) by linarith
    with gl sub t' have io: "inorder t' = inorder l' @ (a, g) # inorder r"
      using rebalance_spec [of l' r g s e a m h] by (metis sum.inject(2))
    have "span_key f \<le> span_key g" using True unfolding key by (auto simp: sp)
    moreover have "ordered l'" using INode.IH(1) [OF sub(1,2,5) l'] .
    ultimately have "ordered (INode a g s e m l' r h)"
      using ordered_grow_left [OF INode.prems(3)] gl by metis
    then show ?thesis using ordered_inorder [OF io] by blast
  next
    case False
    then obtain r' where r': "insert_node r f st = Inr (r', st')"
      and t': "rebalance (update_node (INode a g s e m l r' h)) = Inr t'"
      using INode.prems(4) by (auto simp: sp Let_def split: if_splits)
    note gr = grow [OF r' sub(3,4)]
    have "\<bar>height l - height r'\<bar> \<le> 2" using gr sub(8) by linarith
    with gr sub t' have io: "inorder t' = inorder l @ (a, g) # inorder r'"
      using rebalance_spec [of l r' g s e a m h] by (metis sum.inject(2))
    have "span_key g \<le> span_key f" using False unfolding key by (auto simp: sp)
    moreover have "ordered r'" using INode.IH(2) [OF sub(3,4,6) r'] .
    ultimately have "ordered (INode a g s e m l r' h)"
      using ordered_grow_right [OF INode.prems(3)] gr by metis
    then show ?thesis using ordered_inorder [OF io] by blast
  qed
qed

lemma positional_insert_ok:
  assumes "tree_ok (root p)" and "identity_ok (identity f)"
  shows "\<exists>t' xs ys. positional_insert f p = Inr (node_table.extend (registered f (node_table.truncate p)) \<lparr>root = t'\<rparr>)
    \<and> tree_ok t' \<and> inorder (root p) = xs @ ys \<and> inorder t' = xs @ (fresh p, f) # ys"
proof -
  have rng: "range_ok (token_span (identity f))" using assms(2) by (simp add: identity_ok_def)
  have "augmented (root p)" "balanced (root p)" using assms(1) by (simp_all add: tree_ok_def)
  then obtain t' xs ys where t': "insert_node (root p) f (node_table.truncate p) = Inr (t', registered f (node_table.truncate p))"
    "augmented t'" "balanced t'" "inorder (root p) = xs @ ys" "inorder t' = xs @ (fresh p, f) # ys"
    using insert_node_shape [OF _ _ rng, of "root p" "node_table.truncate p"] by (auto simp: node_table.defs)
  then have "tree_ok t'"
    using insert_node_ordered [OF _ _ _ rng t'(1)] assms(1) by (simp add: tree_ok_def)
  with t' show ?thesis by (auto simp: positional_insert_def)
qed

lemma positional_remove_ok:
  assumes "tree_ok (root p)"
  shows "\<exists>p' b. positional_remove ch p = Inr (p', b) \<and> tree_ok (root p')"
proof (cases "map_of (node_map p) ch")
  case None
  with assms show ?thesis by (intro exI [of _ p] exI [of _ False]) (simp add: positional_remove_def)
next
  case (Some target)
  obtain t' st' where t': "remove_node (root p) (starts p target) ch (node_table.truncate p) = Inr (t', st')" "shrunk (root p) t'"
    using remove_node_shape [of "root p"] assms unfolding tree_ok_def by blast
  moreover have "tree_ok t'" using shrunkD [OF t'(2)] assms by (simp add: tree_ok_def)
  ultimately show ?thesis using Some by (auto simp: positional_remove_def node_table.defs)
qed

lemma is_ok_identity: "is_ok (identity_post_init i) \<longleftrightarrow> identity_ok i"
  by (simp add: is_ok_iff identity_post_init_Inr)

lemma positional_step_ok: "tree_ok (root p) \<Longrightarrow> tree_ok (root (positional_step p x))"
proof (cases x)
  case (Insert f)
  assume ok: "tree_ok (root p)"
  show ?thesis
  proof (cases "identity_post_init (identity f)")
    case (Inl e)
    with ok Insert show ?thesis by simp
  next
    case (Inr u)
    then have "identity_ok (identity f)" by (simp add: identity_post_init_Inr)
    from positional_insert_ok [OF ok this] Inr Insert show ?thesis by (auto simp: node_table.defs)
  qed
next
  case (Delete ch)
  assume "tree_ok (root p)"
  with positional_remove_ok [of p ch] Delete show ?thesis by auto
qed

interpretation positional_history: stepping positional_step "\<lambda>p. tree_ok (root p)"
  by unfold_locales (rule positional_step_ok)

lemma positional_run_ok: "tree_ok (root (positional_run ops))"
  by (rule positional_history.run_ok) (simp add: positional_init_def tree_ok_def ordered_def)

section \<open>Properties\<close>


text \<open>
  Inserting the same fragment twice and then removing its hash leaves a copy that every
  overlapping query still returns and that no further \<open>remove\<close> can reach.
\<close>

theorem positional_duplicate_stays:
  assumes "identity_ok (identity f)"
  shows "let p = positional_run [Insert f, Insert f, Delete (content_hash f)] in
    find_overlapping (fst (token_span (identity f))) (snd (token_span (identity f))) p = [f]
    \<and> positional_remove (content_hash f) p = Inr (p, False)"
proof -
  obtain s e where sp: "token_span (identity f) = (s, e)" by fastforce
  have se: "0 \<le> s" "s \<le> e" and init: "identity_post_init (identity f) = Inr ()"
    using assms by (simp_all add: identity_ok_def range_ok_def sp identity_post_init_Inr)
  show ?thesis
    using se by (simp add: Let_def init sp positional_insert_def positional_init_def node_table.defs
        rebalance_eqs(1) positional_remove_def find_overlapping_def)
qed

theorem positional_duplicate_stays_witness:
  "identity_ok (identity (sample_fragment ''public'' 1)) \<and>
   (let f = sample_fragment ''public'' 1; p = positional_run [Insert f, Insert f, Delete (content_hash f)] in
    find_overlapping (fst (token_span (identity f))) (snd (token_span (identity f))) p = [f]
    \<and> positional_remove (content_hash f) p = Inr (p, False))"
proof -
  have "identity_ok (identity (sample_fragment ''public'' 1))"
    by (simp add: sample_fragment_def sample_identity_def identity_ok_def range_ok_def DTYPE_VALUES_def)
  with positional_duplicate_stays [OF this] show ?thesis by (simp add: Let_def)
qed

end
