(* ===== verification/Positional_Map.thy ===== *)
theory Positional_Map
  imports Positional
begin

text \<open>
  The positional index without duplicate hashes: as long as a payload hash is removed before it is
  inserted again, the tree and its \<open>node_map\<close> implement a map from payload hashes to fragments,
  and a removal removes exactly the fragment named.
\<close>

section \<open>Trees without duplicate hashes\<close>

abbreviation hashes :: "interval_node \<Rightarrow> string list" where
  "hashes t \<equiv> map content_hash (contents t)"

abbreviation addresses :: "interval_node \<Rightarrow> nat list" where
  "addresses t \<equiv> map fst (inorder t)"

text \<open>The table finds the object of every fragment of the tree (one hash apart) and its start.\<close>

definition tracks :: "node_table \<Rightarrow> interval_node \<Rightarrow> string option \<Rightarrow> bool" where
  "tracks st t without \<longleftrightarrow> (\<forall>(a, f) \<in> set (inorder t). Some (content_hash f) \<noteq> without \<longrightarrow>
     map_of (node_map st) (content_hash f) = Some a \<and> starts st a = fst (token_span (identity f)))"

definition only_touches :: "interval_node \<Rightarrow> node_table \<Rightarrow> node_table \<Rightarrow> bool" where
  "only_touches t st st' \<longleftrightarrow> fresh st' = fresh st \<and>
     (\<forall>ch. ch \<notin> set (hashes t) \<longrightarrow> map_of (node_map st') ch = map_of (node_map st) ch) \<and>
     (\<forall>a. a \<notin> set (addresses t) \<longrightarrow> starts st' a = starts st a) \<and>
     (\<forall>ch. map_of (node_map st) ch \<noteq> None \<longrightarrow> map_of (node_map st') ch \<noteq> None) \<and>
     (\<forall>ch. map_of (node_map st') ch \<noteq> None \<longrightarrow> map_of (node_map st) ch \<noteq> None \<or> ch \<in> set (hashes t))"

definition removed :: "interval_node \<Rightarrow> string \<Rightarrow> node_table \<Rightarrow> interval_node \<Rightarrow> node_table \<Rightarrow> bool" where
  "removed t ch st t' st' \<longleftrightarrow>
     contents t' = filter (\<lambda>f. content_hash f \<noteq> ch) (contents t) \<and>
     distinct (addresses t') \<and> set (addresses t') \<subseteq> set (addresses t) \<and>
     tracks st' t' None \<and> only_touches t st st' \<and>
     map_of (node_map st') ch = map_of (node_map st) ch"

lemma hashes_node:
  "distinct (hashes (INode a f s e m l r h)) \<longleftrightarrow> distinct (hashes l) \<and> distinct (hashes r) \<and>
     content_hash f \<notin> set (hashes l) \<and> content_hash f \<notin> set (hashes r) \<and> set (hashes l) \<inter> set (hashes r) = {}"
  by auto

lemma addresses_node:
  "distinct (addresses (INode a f s e m l r h)) \<longleftrightarrow> distinct (addresses l) \<and> distinct (addresses r) \<and>
     a \<notin> set (addresses l) \<and> a \<notin> set (addresses r) \<and> set (addresses l) \<inter> set (addresses r) = {}"
  by auto

lemma hashes_nodeD:
  assumes "distinct (hashes (INode a f s e m l r h))"
  shows "distinct (hashes l)" "distinct (hashes r)" "content_hash f \<notin> set (hashes l)"
    "content_hash f \<notin> set (hashes r)" "set (hashes l) \<inter> set (hashes r) = {}"
  using assms unfolding hashes_node by simp_all

lemma addresses_nodeD:
  assumes "distinct (addresses (INode a f s e m l r h))"
  shows "distinct (addresses l)" "distinct (addresses r)" "a \<notin> set (addresses l)"
    "a \<notin> set (addresses r)" "set (addresses l) \<inter> set (addresses r) = {}"
  using assms unfolding addresses_node by simp_all

lemma addresses_inorder:
  assumes "inorder t' = inorder l @ (a, f) # inorder r"
  shows "distinct (addresses t') \<longleftrightarrow> distinct (addresses l) \<and> distinct (addresses r) \<and>
     a \<notin> set (addresses l) \<and> a \<notin> set (addresses r) \<and> set (addresses l) \<inter> set (addresses r) = {}"
    "set (addresses t') = insert a (set (addresses l) \<union> set (addresses r))"
  by (auto simp: assms)

lemma filter_hash_id: "ch \<notin> set (hashes t) \<Longrightarrow> filter (\<lambda>f. content_hash f \<noteq> ch) (contents t) = contents t"
  by (auto intro!: filter_True)

lemma tracks_same:
  assumes "tracks st t w" and "\<And>ch. ch \<in> set (hashes t) \<Longrightarrow> Some ch \<noteq> w"
    and "\<And>ch. ch \<in> set (hashes t) \<Longrightarrow> map_of (node_map st') ch = map_of (node_map st) ch"
    and "\<And>a. a \<in> set (addresses t) \<Longrightarrow> starts st' a = starts st a"
  shows "tracks st' t w'"
proof -
  have "map_of (node_map st') (content_hash f) = Some a \<and> starts st' a = fst (token_span (identity f))"
    if af: "(a, f) \<in> set (inorder t)" for a f
  proof -
    have mem: "content_hash f \<in> set (hashes t)" "a \<in> set (addresses t)" using af by force+
    have "map_of (node_map st) (content_hash f) = Some a \<and> starts st a = fst (token_span (identity f))"
      using assms(1) af assms(2) [OF mem(1)] by (auto simp: tracks_def)
    then show ?thesis unfolding assms(3) [OF mem(1)] assms(4) [OF mem(2)] .
  qed
  then show ?thesis by (auto simp: tracks_def)
qed

lemma tracks_inorder:
  "inorder t' = inorder l @ (a, f) # inorder r \<Longrightarrow> tracks st t' w \<longleftrightarrow> tracks st l w \<and> tracks st r w \<and>
     (Some (content_hash f) \<noteq> w \<longrightarrow>
        map_of (node_map st) (content_hash f) = Some a \<and> starts st a = fst (token_span (identity f)))"
  by (auto simp: tracks_def)

lemmas tracks_node = tracks_inorder [OF inorder.simps(2)]

lemma only_touchesD:
  assumes "only_touches t st st'"
  shows "ch \<notin> set (hashes t) \<Longrightarrow> map_of (node_map st') ch = map_of (node_map st) ch"
    "a \<notin> set (addresses t) \<Longrightarrow> starts st' a = starts st a"
  using assms by (simp_all add: only_touches_def)

lemma only_touches_mono:
  assumes "only_touches t st st'" and "set (hashes t) \<subseteq> set (hashes u)"
    and "set (addresses t) \<subseteq> set (addresses u)"
  shows "only_touches u st st'"
  using assms unfolding only_touches_def by blast

lemma only_touches_trans:
  assumes "only_touches t st st1" and "only_touches t st1 st'"
  shows "only_touches t st st'"
  using assms unfolding only_touches_def by metis

lemma removed_side:
  assumes rm: "removed x ch st x' st'"
    and tr: "tracks st o' (Some ch)" and ch: "ch \<notin> set (hashes o')"
    and disj: "set (hashes x) \<inter> set (hashes o') = {}" "set (addresses x) \<inter> set (addresses o') = {}"
  shows "tracks st' o' None" "filter (\<lambda>g. content_hash g \<noteq> ch) (contents o') = contents o'"
    "set (addresses x') \<inter> set (addresses o') = {}"
proof -
  have ot: "only_touches x st st'" "set (addresses x') \<subseteq> set (addresses x)"
    using rm by (simp_all add: removed_def)
  show "tracks st' o' None"
  proof (rule tracks_same [OF tr])
    show "map_of (node_map st') k = map_of (node_map st) k" if "k \<in> set (hashes o')" for k
      using that disj(1) only_touchesD(1) [OF ot(1)] by blast
    show "starts st' k = starts st k" if "k \<in> set (addresses o')" for k
      using that disj(2) only_touchesD(2) [OF ot(1)] by blast
  qed (use ch in blast)
  show "filter (\<lambda>g. content_hash g \<noteq> ch) (contents o') = contents o'" using ch by (rule filter_hash_id)
  show "set (addresses x') \<inter> set (addresses o') = {}" using ot(2) disj(2) by blast
qed

lemma removed_left:
  assumes rm: "removed l ch st l' st'"
    and dist: "distinct (hashes (INode a f s e m l r h))" "distinct (addresses (INode a f s e m l r h))"
    and ch: "ch \<noteq> content_hash f" "ch \<notin> set (hashes r)"
    and tr: "tracks st (INode a f s e m l r h) (Some ch)"
    and t': "inorder t' = inorder l' @ (a, f) # inorder r"
  shows "removed (INode a f s e m l r h) ch st t' st'"
proof -
  note d = dist [unfolded hashes_node addresses_node] and rm' = rm [unfolded removed_def]
  have "tracks st r (Some ch)" using tr by (simp add: tracks_node)
  note side = removed_side [OF rm this ch(2)]
  have keep: "map_of (node_map st') (content_hash f) = map_of (node_map st) (content_hash f)"
      "starts st' a = starts st a"
    using rm' d only_touchesD [of l st st'] by blast+
  have "tracks st' t' None"
    using rm' tr ch(1) keep side(1) d unfolding tracks_inorder [OF t'] tracks_node by simp
  moreover have "only_touches (INode a f s e m l r h) st st'"
    by (rule only_touches_mono) (use rm' in auto)
  moreover have "distinct (addresses t')" "set (addresses t') \<subseteq> set (addresses (INode a f s e m l r h))"
    using rm' d side(3) tr unfolding addresses_inorder [OF t'] tracks_node by auto
  ultimately show ?thesis
    using rm' ch(1) side(2) tr d unfolding removed_def tracks_node by (simp add: t')
qed

lemma removed_right:
  assumes rm: "removed r ch st r' st'"
    and dist: "distinct (hashes (INode a f s e m l r h))" "distinct (addresses (INode a f s e m l r h))"
    and ch: "ch \<noteq> content_hash f" "ch \<notin> set (hashes l)"
    and tr: "tracks st (INode a f s e m l r h) (Some ch)"
    and t': "inorder t' = inorder l @ (a, f) # inorder r'"
  shows "removed (INode a f s e m l r h) ch st t' st'"
proof -
  note d = dist [unfolded hashes_node addresses_node] and rm' = rm [unfolded removed_def]
  have "tracks st l (Some ch)" "set (hashes r) \<inter> set (hashes l) = {}"
      "set (addresses r) \<inter> set (addresses l) = {}"
    using tr d by (simp_all add: tracks_node Int_commute)
  note side = removed_side [OF rm this(1) ch(2) this(2,3)]
  have keep: "map_of (node_map st') (content_hash f) = map_of (node_map st) (content_hash f)"
      "starts st' a = starts st a"
    using rm' d only_touchesD [of r st st'] by blast+
  have "tracks st' t' None"
    using rm' tr ch(1) keep side(1) d unfolding tracks_inorder [OF t'] tracks_node by simp
  moreover have "only_touches (INode a f s e m l r h) st st'"
    by (rule only_touches_mono) (use rm' in auto)
  moreover have "distinct (addresses t')" "set (addresses t') \<subseteq> set (addresses (INode a f s e m l r h))"
    using rm' d side(3) unfolding addresses_inorder [OF t'] by (blast, auto)
  ultimately show ?thesis
    using rm' ch(1) side(2) tr d unfolding removed_def tracks_node by (simp add: t')
qed

lemma tracks_overwrite:
  assumes "tracks st t (Some ch)" and "ch \<notin> set (hashes t)" and "a \<notin> set (addresses t)"
  shows "tracks (st\<lparr>node_map := dict_set (node_map st) ch' a, starts := (starts st)(a := n)\<rparr>) t (Some ch')"
proof -
  have new: "map_of (dict_set (node_map st) ch' a) (content_hash f) = Some b \<and>
      ((starts st)(a := n)) b = fst (token_span (identity f))"
    if bf: "(b, f) \<in> set (inorder t)" "content_hash f \<noteq> ch'" for b f
  proof -
    have ne: "content_hash f \<noteq> ch" "b \<noteq> a" using assms(2,3) bf(1) by force+
    then have "map_of (node_map st) (content_hash f) = Some b \<and> starts st b = fst (token_span (identity f))"
      using assms(1) bf(1) unfolding tracks_def by fastforce
    with ne(2) bf(2) show ?thesis by simp
  qed
  show ?thesis
    unfolding tracks_def
  proof (intro ballI)
    fix x assume "x \<in> set (inorder t)"
    with new [of "fst x" "snd x"] show "case x of (b, f) \<Rightarrow> Some (content_hash f) \<noteq> Some ch' \<longrightarrow>
        map_of (node_map (st\<lparr>node_map := dict_set (node_map st) ch' a, starts := (starts st)(a := n)\<rparr>))
          (content_hash f) = Some b \<and>
        starts (st\<lparr>node_map := dict_set (node_map st) ch' a, starts := (starts st)(a := n)\<rparr>) b =
          fst (token_span (identity f))"
      by (cases x) simp
  qed
qed

text \<open>The object of a removed node with two children takes over the successor's fragment.\<close>

lemma removed_successor:
  assumes dist: "distinct (hashes (INode a f s e m l r h))" "distinct (addresses (INode a f s e m l r h))"
    and tr: "tracks st (INode a f s e m l r h) (Some (content_hash f))"
    and sf: "spans sf ss se" "inorder r = (ma, sf) # xs"
    and st1: "st1 = st\<lparr>node_map := dict_set (node_map st) (content_hash sf) a,
                        starts := (starts st)(a := ss)\<rparr>"
    and rm: "removed r (content_hash sf) st1 r' st'"
    and t': "inorder t' = inorder l @ (a, sf) # inorder r'"
  shows "removed (INode a f s e m l r h) (content_hash f) st t' st'"
proof -
  let ?t = "INode a f s e m l r h"
  note hd = hashes_nodeD [OF dist(1)] and ad = addresses_nodeD [OF dist(2)] and rm' = rm [unfolded removed_def]
  have ot: "only_touches r st1 st'" using rm' by blast
  have sf_r: "content_hash sf \<in> set (hashes r)" by (simp add: sf(2))
  then have ne: "content_hash sf \<noteq> content_hash f" "content_hash sf \<notin> set (hashes l)"
    using hd(4,5) by (metis, metis disjoint_iff)
  have tl: "contents r = sf # contents r'"
  proof -
    have "content_hash sf \<notin> content_hash ` set (map snd xs)" using hd(2) by (simp add: sf(2) image_image)
    then have "filter (\<lambda>g. content_hash g \<noteq> content_hash sf) (map snd xs) = map snd xs"
      by (intro filter_True) (metis imageI)
    then show ?thesis using rm' by (simp add: sf(2))
  qed
  have "tracks st' l None"
  proof (rule tracks_same)
    show "tracks st l (Some (content_hash f))" using tr by (simp add: tracks_node)
    show "map_of (node_map st') x = map_of (node_map st) x" if x: "x \<in> set (hashes l)" for x
    proof -
      have "x \<notin> set (hashes r)" "x \<noteq> content_hash sf" using hd(5) ne(2) x by (metis disjoint_iff, metis)
      then show ?thesis using only_touchesD(1) [OF ot] by (simp add: st1)
    qed
    show "starts st' x = starts st x" if x: "x \<in> set (addresses l)" for x
    proof -
      have "x \<notin> set (addresses r)" "x \<noteq> a" using ad(3,5) x by (metis disjoint_iff, metis)
      then show ?thesis using only_touchesD(2) [OF ot] by (simp add: st1)
    qed
  qed (use hd(3) in \<open>metis option.inject\<close>)
  moreover have "map_of (node_map st') (content_hash sf) = Some a"
    using rm' by (simp add: st1)
  moreover have "starts st' a = ss"
    using only_touchesD(2) [OF ot, of a] ad(4) by (simp add: st1)
  ultimately have "tracks st' t' None"
    using rm' sf(1) unfolding tracks_inorder [OF t'] by (simp add: spans_def)
  moreover have "only_touches ?t st st'"
  proof (rule only_touches_trans)
    show "only_touches ?t st st1" using sf_r by (auto simp: only_touches_def st1)
    show "only_touches ?t st1 st'" by (rule only_touches_mono [OF ot]) auto
  qed
  moreover have "map_of (node_map st') (content_hash f) = map_of (node_map st) (content_hash f)"
    using only_touchesD(1) [OF ot, of "content_hash f"] hd(4) ne(1) by (simp add: st1)
  moreover have "distinct (addresses t')" "set (addresses t') \<subseteq> set (addresses ?t)"
    using rm' ad unfolding addresses_inorder [OF t'] by (auto simp: disjoint_iff subset_iff simp del: set_map)
  moreover have "contents t' = filter (\<lambda>g. content_hash g \<noteq> content_hash f) (contents ?t)"
    using filter_hash_id [of "content_hash f" l] filter_hash_id [of "content_hash f" r] hd(3,4) tl by (simp add: t')
  ultimately show ?thesis unfolding removed_def by blast
qed

lemma rebalance_inorder:
  assumes "rebalance (update_node (INode a g s e m l' r' h)) = Inr t'" and "shrunk l l'" and "shrunk r r'"
    and "spans g s e" and "\<bar>height l - height r\<bar> \<le> 1" and "l' = l \<or> r' = r"
  shows "inorder t' = inorder l' @ (a, g) # inorder r'"
proof -
  have "\<bar>height l' - height r'\<bar> \<le> 2" using shrunkD(5,6) [OF assms(2)] shrunkD(5,6) [OF assms(3)] assms(5,6) by auto
  from rebalance_spec [OF shrunkD(1,2) [OF assms(2)] shrunkD(1,2) [OF assms(3)] assms(4) this]
  show ?thesis using assms(1) by (metis sum.inject(2))
qed

lemma shrunk_refl: "augmented t \<Longrightarrow> balanced t \<Longrightarrow> shrunk t t"
  by (simp add: shrunk_def)

lemma remove_node_shrunk:
  "augmented t \<Longrightarrow> balanced t \<Longrightarrow> remove_node t start ch st = Inr (t', st') \<Longrightarrow> shrunk t t'"
  using remove_node_shape [of t start ch st] by auto

lemma remove_root_removed:
  assumes "distinct (hashes (INode a f s e m l r h))" and "distinct (addresses (INode a f s e m l r h))"
    and "tracks st (INode a f s e m l r h) (Some (content_hash f))" and "l = Leaf \<and> t' = r \<or> r = Leaf \<and> t' = l"
  shows "removed (INode a f s e m l r h) (content_hash f) st t' st"
proof -
  note hd = hashes_nodeD [OF assms(1)] and ad = addresses_nodeD [OF assms(2)]
  have ts: "tracks st l (Some (content_hash f))" "tracks st r (Some (content_hash f))"
    using assms(3) by (simp_all add: tracks_node)
  have tr: "tracks st l None" by (rule tracks_same [OF ts(1)]) (use hd(3) in \<open>metis option.inject\<close>, rule refl, rule refl)
  moreover have "tracks st r None" by (rule tracks_same [OF ts(2)]) (use hd(4) in \<open>metis option.inject\<close>, rule refl, rule refl)
  ultimately show ?thesis
    using hd ad assms(4) filter_hash_id [of "content_hash f" l] filter_hash_id [of "content_hash f" r]
    by (auto simp: removed_def only_touches_def)
qed

lemma remove_node_removed:
  assumes "augmented t" and "balanced t" and "ordered t" and "distinct (hashes t)" and "distinct (addresses t)"
    and "\<And>f. f \<in> set (contents t) \<Longrightarrow> content_hash f = ch \<Longrightarrow> span_key f = (start, ch)"
    and "tracks st t (Some ch)" and "remove_node t start ch st = Inr (t', st')"
  shows "removed t ch st t' st'"
  using assms
proof (induction t arbitrary: start ch st t' st')
  case Leaf
  then show ?case by (simp add: removed_def tracks_def only_touches_def)
next
  case (INode a f s e m l r h)
  let ?t = "INode a f s e m l r h"
  have sub: "augmented l" "balanced l" "augmented r" "balanced r" "spans f s e" "\<bar>height l - height r\<bar> \<le> 1"
    "ordered l" "ordered r"
    using INode.prems(1-3) unfolding ordered_node by simp_all
  note d = hashes_nodeD [OF INode.prems(4)] addresses_nodeD [OF INode.prems(5)]
  note tr = INode.prems(7) [unfolded tracks_node]
  have key: "span_key f = (s, content_hash f)" using sub(5) by (simp add: span_key_def spans_def)
  have cs: "set (contents l) \<subseteq> set (contents ?t)" "set (contents r) \<subseteq> set (contents ?t)" by auto
  have le: "\<And>g. g \<in> set (contents l) \<Longrightarrow> span_key g \<le> span_key f"
    "\<And>g. g \<in> set (contents r) \<Longrightarrow> span_key f \<le> span_key g"
    using INode.prems(3) [unfolded ordered_node] by metis+
  have reb: "inorder t' = inorder l' @ (a, g) # inorder r'"
    if "rebalance (update_node (INode a g s' e' m l' r' h)) = Inr t'" "shrunk l l'" "shrunk r r'"
      "spans g s' e'" "l' = l \<or> r' = r" for g s' e' l' r'
    by (rule rebalance_inorder [OF that(1-4) sub(6) that(5)])
  consider (root) "ch = content_hash f" "l = Leaf \<or> r = Leaf"
    | (both) "ch = content_hash f" "l \<noteq> Leaf" "r \<noteq> Leaf"
    | (left) "ch \<noteq> content_hash f" "(start, ch) < (s, content_hash f)"
    | (right) "ch \<noteq> content_hash f" "\<not> (start, ch) < (s, content_hash f)" by blast
  then show ?case
  proof cases
    case root
    with INode.prems(8) have "l = Leaf \<and> t' = r \<or> r = Leaf \<and> t' = l" "st' = st"
      by (auto split: if_splits)
    with remove_root_removed [OF INode.prems(4,5)] INode.prems(7) root(1) show ?thesis by blast
  next
    case both
    obtain ma sf ss se mm mr mh xs where mv: "min_value_node r = INode ma sf ss se mm Leaf mr mh"
      "spans sf ss se" "inorder r = (ma, sf) # xs"
      using min_value_node_spec [OF sub(3) both(3)] by metis
    define st1 where "st1 = st\<lparr>node_map := dict_set (node_map st) (content_hash sf) a,
                      starts := (starts st)(a := ss)\<rparr>"
    obtain r' where r': "remove_node r ss (content_hash sf) st1 = Inr (r', st')"
      and t'_eq: "rebalance (update_node (INode a sf ss se m l r' h)) = Inr t'"
      using INode.prems(8) both mv(1) by (auto simp: st1_def)
    have "removed r (content_hash sf) st1 r' st'"
    proof (rule INode.IH(2) [OF sub(3,4,8) d(2,7) _ _ r'])
      show "span_key g = (ss, content_hash sf)" if "g \<in> set (contents r)" "content_hash g = content_hash sf" for g
      proof -
        have "g = sf" using that d(2) by (force simp: mv(3))
        then show ?thesis using mv(2) by (simp add: span_key_def spans_def)
      qed
      show "tracks st1 r (Some (content_hash sf))"
        unfolding st1_def by (rule tracks_overwrite) (use tr d(4,9) both(1) in simp_all)
    qed
    moreover have "inorder t' = inorder l @ (a, sf) # inorder r'"
      by (rule reb [OF t'_eq shrunk_refl [OF sub(1,2)] remove_node_shrunk [OF sub(3,4) r'] mv(2)]) simp
    ultimately show ?thesis
      using removed_successor [OF INode.prems(4,5) _ mv(2,3) st1_def] INode.prems(7) both(1) by blast
  next
    case left
    obtain l' where l': "remove_node l start ch st = Inr (l', st')"
      and t'_eq: "rebalance (update_node (INode a f s e m l' r h)) = Inr t'"
      using INode.prems(8) left by auto
    have "removed l ch st l' st'"
      by (rule INode.IH(1) [OF sub(1,2,7) d(1,6) INode.prems(6) _ l']) (use cs tr in auto)
    moreover have "ch \<notin> set (hashes r)"
    proof
      assume "ch \<in> set (hashes r)"
      then obtain g where g: "g \<in> set (contents r)" "content_hash g = ch" by auto
      with INode.prems(6) [of g] cs(2) have "span_key g = (start, ch)" by blast
      with le(2) [OF g(1)] left(2) show False unfolding key by (metis leD)
    qed
    moreover have "inorder t' = inorder l' @ (a, f) # inorder r"
      by (rule reb [OF t'_eq remove_node_shrunk [OF sub(1,2) l'] shrunk_refl [OF sub(3,4)] sub(5)]) simp
    ultimately show ?thesis
      using removed_left [OF _ INode.prems(4,5) left(1)] INode.prems(7) by blast
  next
    case right
    obtain r' where r': "remove_node r start ch st = Inr (r', st')"
      and t'_eq: "rebalance (update_node (INode a f s e m l r' h)) = Inr t'"
      using INode.prems(8) right by auto
    have "removed r ch st r' st'"
      by (rule INode.IH(2) [OF sub(3,4,8) d(2,7) INode.prems(6) _ r']) (use cs tr in auto)
    moreover have "ch \<notin> set (hashes l)"
    proof
      assume "ch \<in> set (hashes l)"
      then obtain g where g: "g \<in> set (contents l)" "content_hash g = ch" by auto
      with INode.prems(6) [of g] cs(1) have "span_key g = (start, ch)" by blast
      with le(1) [OF g(1)] right show False unfolding key by (metis le_neq_trans prod.inject)
    qed
    moreover have "inorder t' = inorder l @ (a, f) # inorder r'"
      by (rule reb [OF t'_eq shrunk_refl [OF sub(1,2)] remove_node_shrunk [OF sub(3,4) r'] sub(5)]) simp
    ultimately show ?thesis
      using removed_right [OF _ INode.prems(4,5) right(1)] INode.prems(7) by blast
  qed
qed

section \<open>Refinement of a map\<close>

definition positional_strict :: "positional \<Rightarrow> bool" where
  "positional_strict p \<longleftrightarrow> tree_ok (root p) \<and> distinct (hashes (root p)) \<and> distinct (addresses (root p)) \<and>
     tracks (node_table.truncate p) (root p) None \<and> (\<forall>a \<in> set (addresses (root p)). a < fresh p) \<and>
     (\<forall>ch. dict_has (node_map p) ch \<longleftrightarrow> ch \<in> set (hashes (root p)))"

definition index_map :: "positional \<Rightarrow> string \<rightharpoonup> fragment" where
  "index_map p = map_of (map (\<lambda>f. (content_hash f, f)) (indexed p))"

fun fresh_step :: "positional \<Rightarrow> index_op \<Rightarrow> positional" where
  "fresh_step p (Insert f) =
     (if dict_has (node_map p) (content_hash f) then p else positional_step p (Insert f))"
| "fresh_step p (Delete ch) = positional_step p (Delete ch)"

fun spec_step :: "(string \<rightharpoonup> fragment) \<Rightarrow> index_op \<Rightarrow> (string \<rightharpoonup> fragment)" where
  "spec_step m (Insert f) =
     (if m (content_hash f) = None \<and> identity_ok (identity f) then m(content_hash f \<mapsto> f) else m)"
| "spec_step m (Delete ch) = m(ch := None)"

lemma index_map_iff:
  "distinct (hashes (root p)) \<Longrightarrow> index_map p ch = Some f \<longleftrightarrow> f \<in> set (indexed p) \<and> content_hash f = ch"
proof -
  assume "distinct (hashes (root p))"
  then have "distinct (map fst (map (\<lambda>f. (content_hash f, f)) (indexed p)))" by (simp add: comp_def)
  then show ?thesis unfolding index_map_def by (auto simp: map_of_eq_Some_iff simp del: map_map)
qed

lemma index_map_None: "index_map p ch = None \<longleftrightarrow> ch \<notin> set (hashes (root p))"
  by (auto simp: index_map_def map_of_eq_None_iff image_image)

lemma fresh_insert:
  assumes st: "positional_strict p" and new: "\<not> dict_has (node_map p) (content_hash f)"
    and f: "identity_ok (identity f)"
  shows "positional_strict (fresh_step p (Insert f))"
    "index_map (fresh_step p (Insert f)) = (index_map p)(content_hash f \<mapsto> f)"
proof -
  obtain t' xs ys where t': "positional_insert f p = Inr (node_table.extend (registered f (node_table.truncate p)) \<lparr>root = t'\<rparr>)"
    "tree_ok t'" "inorder (root p) = xs @ ys" "inorder t' = xs @ (fresh p, f) # ys"
    using positional_insert_ok [OF _ f] st unfolding positional_strict_def by blast
  define p' where "p' = fresh_step p (Insert f)"
  have "identity_post_init (identity f) = Inr ()" using f by (simp add: identity_post_init_Inr)
  then have p': "root p' = t'" "node_map p' = dict_set (node_map p) (content_hash f) (fresh p)"
    "starts p' = (starts p)(fresh p := fst (token_span (identity f)))" "fresh p' = Suc (fresh p)"
    using new t'(1) by (simp_all add: p'_def registered_def node_table.defs)
  have nin: "content_hash f \<notin> set (hashes (root p))" "fresh p \<notin> set (addresses (root p))"
    using st new unfolding positional_strict_def by blast+
  have tr: "tracks (node_table.truncate p') (root p) None"
  proof (rule tracks_same [of "node_table.truncate p" _ None])
    show "tracks (node_table.truncate p) (root p) None" using st by (simp add: positional_strict_def)
    show "map_of (node_map (node_table.truncate p')) x = map_of (node_map (node_table.truncate p)) x"
      if "x \<in> set (hashes (root p))" for x
      using nin(1) that by (auto simp: node_table.defs p' simp del: set_map)
    show "starts (node_table.truncate p') x = starts (node_table.truncate p) x"
      if "x \<in> set (addresses (root p))" for x
      using nin(2) that by (auto simp: node_table.defs p' simp del: set_map)
  qed simp
  have "tracks (node_table.truncate p') t' None"
    using tr unfolding tracks_def t'(3,4) by (auto simp: node_table.defs p')
  moreover have "distinct (hashes t')" "distinct (addresses t')"
    using st nin unfolding positional_strict_def t'(3,4) by auto
  moreover have "\<forall>a \<in> set (addresses t'). a < fresh p'"
    using st unfolding positional_strict_def t'(3,4) p' by (auto intro: less_SucI)
  moreover have "\<forall>ch. dict_has (node_map p') ch \<longleftrightarrow> ch \<in> set (hashes t')"
    using st unfolding positional_strict_def t'(3,4) p' by auto
  ultimately have strict: "positional_strict p'"
    using t'(2) unfolding positional_strict_def p'(1) by blast
  then show "positional_strict (fresh_step p (Insert f))" by (simp only: p'_def)
  have "index_map p' ch = ((index_map p)(content_hash f \<mapsto> f)) ch" for ch
    using nin(1) unfolding index_map_def p'(1) t'(3,4)
    by (auto simp: map_add_def t'(3) dest!: map_of_SomeD split: option.splits)
  then show "index_map (fresh_step p (Insert f)) = (index_map p)(content_hash f \<mapsto> f)"
    by (auto simp: p'_def)
qed

lemma map_of_filter_keys:
  "map_of (map (\<lambda>f. (k f, f)) (filter (\<lambda>f. k f \<noteq> x) fs)) = (map_of (map (\<lambda>f. (k f, f)) fs))(x := None)"
  by (induction fs) (auto simp: fun_upd_twist)

lemma positional_strictD:
  assumes "positional_strict p"
  shows "tree_ok (root p)" "distinct (hashes (root p))" "distinct (addresses (root p))"
    "tracks (node_table.truncate p) (root p) None" "\<forall>a \<in> set (addresses (root p)). a < fresh p"
    "dict_has (node_map p) ch \<longleftrightarrow> ch \<in> set (hashes (root p))"
  using assms unfolding positional_strict_def by simp_all

lemma only_touches_has:
  assumes "only_touches t st st'" and "dict_has (node_map st) ch \<longleftrightarrow> ch \<in> set (hashes t)"
  shows "dict_has (node_map st') ch \<longleftrightarrow> ch \<in> set (hashes t)"
  using assms unfolding only_touches_def dict_has_def by metis

lemma strict_start:
  assumes "positional_strict p" and "map_of (node_map p) ch = Some target"
    and "g \<in> set (indexed p)" and "content_hash g = ch"
  shows "span_key g = (starts p target, ch)"
proof -
  obtain a where "(a, g) \<in> set (inorder (root p))" using assms(3) by force
  then have "map_of (node_map p) ch = Some a" "starts p a = fst (token_span (identity g))"
    using positional_strictD(4) [OF assms(1)] assms(4) by (auto simp: tracks_def node_table.defs)
  with assms(2,4) show ?thesis by (simp add: span_key_def)
qed

lemma strict_remove:
  assumes st: "positional_strict p" and found: "map_of (node_map p) ch = Some target"
  obtains p' where "positional_remove ch p = Inr (p', True)" and "positional_strict p'"
    and "indexed p' = filter (\<lambda>f. content_hash f \<noteq> ch) (indexed p)"
proof -
  note s = positional_strictD [OF st]
  have ab: "augmented (root p)" "balanced (root p)" "ordered (root p)" using s(1) by (simp_all add: tree_ok_def)
  have tr: "tracks (node_table.truncate p) (root p) (Some ch)" using s(4) by (auto simp: tracks_def)
  obtain t' st' where t': "remove_node (root p) (starts p target) ch (node_table.truncate p) = Inr (t', st')"
    "shrunk (root p) t'"
    using remove_node_shape [OF ab(1,2)] by metis
  have "removed (root p) ch (node_table.truncate p) t' st'"
    by (rule remove_node_removed [OF ab s(2,3) strict_start [OF st found] tr t'(1)])
  then have rm: "contents t' = filter (\<lambda>f. content_hash f \<noteq> ch) (contents (root p))" "distinct (addresses t')"
      "set (addresses t') \<subseteq> set (addresses (root p))" "tracks st' t' None"
      "only_touches (root p) (node_table.truncate p) st'"
    by (simp_all add: removed_def)
  define p' where "p' = node_table.extend (st'\<lparr>node_map := dict_del (node_map st') ch\<rparr>) \<lparr>root = t'\<rparr>"
  have p': "root p' = t'" "node_map p' = dict_del (node_map st') ch" "starts p' = starts st'" "fresh p' = fresh p"
    using rm(5) by (simp_all add: p'_def node_table.defs only_touches_def)
  have hs: "hashes t' = filter (\<lambda>h. h \<noteq> ch) (hashes (root p))" using rm(1) by (simp add: filter_map comp_def)
  have "tracks (node_table.truncate p') t' None"
  proof (rule tracks_same [OF rm(4)])
    show "map_of (node_map (node_table.truncate p')) x = map_of (node_map st') x" if "x \<in> set (hashes t')" for x
    proof -
      have "x \<noteq> ch" using that unfolding hs by simp
      then show ?thesis by (simp add: node_table.defs p')
    qed
  qed (simp_all add: node_table.defs p')
  moreover have "\<forall>a \<in> set (addresses t'). a < fresh p'"
    using rm(3) s(5) unfolding p'(4) by (metis subsetD)
  moreover have "dict_has (node_map p') x \<longleftrightarrow> x \<in> set (hashes t')" for x
  proof -
    have "dict_has (node_map st') x \<longleftrightarrow> x \<in> set (hashes (root p))"
      by (rule only_touches_has [OF rm(5)]) (use s(6) [of x] in \<open>simp add: node_table.defs\<close>)
    then show ?thesis unfolding hs p'(2) by (auto simp del: set_map)
  qed
  moreover have "tree_ok t'" using shrunkD [OF t'(2)] ab by (simp add: tree_ok_def)
  moreover have "distinct (hashes t')" unfolding hs by (rule distinct_filter [OF s(2)])
  ultimately have "positional_strict p'"
    using rm(2) unfolding positional_strict_def p'(1) by metis
  moreover have "positional_remove ch p = Inr (p', True)"
    using found t'(1) by (simp add: positional_remove_def p'_def node_table.defs)
  ultimately show thesis using rm(1) p'(1) that by metis
qed

lemma fresh_delete:
  assumes st: "positional_strict p"
  shows "positional_strict (fresh_step p (Delete ch))"
    "index_map (fresh_step p (Delete ch)) = (index_map p)(ch := None)"
    "\<exists>p'. positional_remove ch p = Inr (p', index_map p ch \<noteq> None)"
proof -
  note has = positional_strictD(6) [OF st, of ch]
  have "positional_strict (fresh_step p (Delete ch)) \<and>
    index_map (fresh_step p (Delete ch)) = (index_map p)(ch := None) \<and>
    (\<exists>p'. positional_remove ch p = Inr (p', index_map p ch \<noteq> None))"
  proof (cases "map_of (node_map p) ch")
    case None
    then have "index_map p ch = None" using has by (simp add: index_map_None dict_has_def del: set_map)
    with None st show ?thesis by (simp add: positional_remove_def fun_upd_idem)
  next
    case (Some target)
    then have "index_map p ch \<noteq> None" using has by (simp add: index_map_None dict_has_def del: set_map)
    moreover obtain p' where "positional_remove ch p = Inr (p', True)" "positional_strict p'"
        "indexed p' = filter (\<lambda>f. content_hash f \<noteq> ch) (indexed p)"
      by (rule strict_remove [OF st Some])
    ultimately show ?thesis by (simp add: index_map_def map_of_filter_keys)
  qed
  then show "positional_strict (fresh_step p (Delete ch))"
    "index_map (fresh_step p (Delete ch)) = (index_map p)(ch := None)"
    "\<exists>p'. positional_remove ch p = Inr (p', index_map p ch \<noteq> None)" by simp_all
qed

interpretation fresh_history: stepping fresh_step positional_strict
proof
  show "positional_strict (fresh_step p x)" if "positional_strict p" for p x
  proof (cases x)
    case (Insert f)
    show ?thesis
    proof (cases "dict_has (node_map p) (content_hash f) \<or> \<not> identity_ok (identity f)")
      case True
      with that Insert show ?thesis
        by (cases "identity_post_init (identity f)") (auto simp: identity_post_init_Inr)
    next
      case False
      with fresh_insert(1) [OF that] Insert show ?thesis by blast
    qed
  next
    case (Delete ch)
    with fresh_delete(1) [OF that] show ?thesis by blast
  qed
qed

lemma fresh_run_strict: "positional_strict (foldl fresh_step positional_init ops)"
  by (rule fresh_history.run_ok)
    (simp add: positional_strict_def positional_init_def tree_ok_def ordered_def tracks_def dict_has_def)

lemma fresh_step_spec:
  assumes "positional_strict p"
  shows "index_map (fresh_step p x) = spec_step (index_map p) x"
proof (cases x)
  case (Insert f)
  have new: "index_map p (content_hash f) = None \<longleftrightarrow> \<not> dict_has (node_map p) (content_hash f)"
    using positional_strictD(6) [OF assms, of "content_hash f"] by (simp add: index_map_None del: set_map)
  show ?thesis
  proof (cases "dict_has (node_map p) (content_hash f) \<or> \<not> identity_ok (identity f)")
    case True
    with Insert new show ?thesis
      by (cases "identity_post_init (identity f)") (auto simp: identity_post_init_Inr)
  next
    case False
    with fresh_insert(2) [OF assms] Insert new show ?thesis by simp
  qed
next
  case (Delete ch)
  with fresh_delete(2) [OF assms] show ?thesis by simp
qed

lemma fresh_run_spec:
  "index_map (foldl fresh_step positional_init ops) = foldl spec_step Map.empty ops"
proof (induction ops rule: rev_induct)
  case Nil
  show ?case by (simp add: index_map_def positional_init_def)
next
  case (snoc x ops)
  then show ?case using fresh_step_spec [OF fresh_run_strict] by simp
qed

section \<open>Properties\<close>

text \<open>
  C26. As long as a payload hash is not inserted again before it is removed, the tree with its
  \<open>node_map\<close> refines a plain map from payload hashes to fragments under every sequence of
  insertions and removals, and \<open>remove\<close> answers whether the hash was there.
\<close>

theorem positional_refines_map:
  "let p = foldl fresh_step positional_init ops; m = foldl spec_step Map.empty ops in
     index_map p = m \<and> map_sum id snd (positional_remove ch p) = Inr (m ch \<noteq> None)"
  unfolding Let_def
proof
  show eq: "index_map (foldl fresh_step positional_init ops) = foldl spec_step Map.empty ops"
    by (rule fresh_run_spec)
  show "map_sum id snd (positional_remove ch (foldl fresh_step positional_init ops))
      = Inr (foldl spec_step Map.empty ops ch \<noteq> None)"
    using fresh_delete(3) [OF fresh_run_strict [of ops], of ch] unfolding eq by auto
qed

end
