(* ===== verification/Graphs.thy ===== *)
theory Graphs
  imports Fragment
begin

text \<open>
  The fragment graphs: the typed graph and the bounded breadth-first retrieval of
  \<open>membrane/graph.py\<close>, and the weighted graph of \<open>membrane/weighted.py\<close>. Python sets are HOL sets;
  the iteration order of a set, which \<open>prefetch_suggest\<close> exposes, is a function argument.
\<close>

section \<open>The typed graph\<close>

record graph =
  nodes :: "(string, fragment) dict"
  adjacency :: "(string, (string, string set) dict) dict"

definition graph_init :: graph where
  "graph_init = \<lparr>nodes = [], adjacency = []\<rparr>"

definition add_node :: "fragment \<Rightarrow> graph \<Rightarrow> graph" where
  "add_node f g =
     (let h = payload_hash (identity f)
      in g\<lparr>nodes := dict_set (nodes g) h f, adjacency := dict_setdefault (adjacency g) h []\<rparr>)"

definition add_edge :: "string \<Rightarrow> string \<Rightarrow> string \<Rightarrow> graph \<Rightarrow> graph" where
  "add_edge source target edge_type g =
     (let adj = dict_setdefault (adjacency g) source [];
          types = dict_setdefault (dict_get adj source []) edge_type {};
          types' = dict_set types edge_type (insert target (dict_get types edge_type {}))
      in g\<lparr>adjacency := dict_set adj source types'\<rparr>)"

definition has_node :: "graph \<Rightarrow> string \<Rightarrow> bool" where
  "has_node g h = dict_has (nodes g) h"

definition has_edge :: "graph \<Rightarrow> string \<Rightarrow> string \<Rightarrow> string \<Rightarrow> bool" where
  "has_edge g source target edge_type =
     (target \<in> dict_get (dict_get (adjacency g) source []) edge_type {})"

definition neighbors :: "graph \<Rightarrow> string \<Rightarrow> string option \<Rightarrow> string set" where
  "neighbors g h edge_type =
     (let types = dict_get (adjacency g) h []
      in case edge_type of
           Some t \<Rightarrow> dict_get types t {}
         | None \<Rightarrow> foldl (\<lambda>result (_, ns). result \<union> ns) {} types)"

definition get_fragment :: "graph \<Rightarrow> string \<Rightarrow> fragment option" where
  "get_fragment g h = map_of (nodes g) h"

definition prefetch_suggest ::
  "(string set \<Rightarrow> string list) \<Rightarrow> graph \<Rightarrow> string \<Rightarrow> string option \<Rightarrow> int \<Rightarrow> string list" where
  "prefetch_suggest listing g h edge_type limit = slice_to limit (listing (neighbors g h edge_type))"

definition eviction_neighbors :: "graph \<Rightarrow> string \<Rightarrow> string option \<Rightarrow> string set" where
  "eviction_neighbors g h edge_type = neighbors g h edge_type"

section \<open>The weighted graph\<close>

record weighted =
  base_graph :: graph
  weights :: "(string, (string, (string, real) dict) dict) dict"

definition weighted_init :: weighted where
  "weighted_init = \<lparr>base_graph = graph_init, weights = []\<rparr>"

definition WEIGHTED :: string where
  "WEIGHTED = ''weighted_graph''"

definition placeholder :: "string \<Rightarrow> fragment result" where
  "placeholder h =
     bind_result
       (PayloadIdentity
          \<lparr>payload_hash = h, model_id = WEIGHTED, model_revision = [], tokenizer_name = WEIGHTED,
           tokenizer_revision = [], layer_range = (0, 0), head_range = (-1, -1), token_span = (0, 0),
           dtype = ''float16'', shape = [1, 1, 1, 1, 64]\<rparr>)
       (\<lambda>i. Fragment_new
          \<lparr>identity = i, payload_ref = Some h, payload_size = 0, ttl = 0, reuse_score = 0,
           version_id = 1, consistency = ''strong'', hlc = 0, fingerprint_compat = [],
           tenant_id = DEFAULT_TENANT\<rparr>)"

definition ensure_node :: "string \<Rightarrow> weighted \<Rightarrow> weighted result" where
  "ensure_node h w =
     (if has_node (base_graph w) h then Inr w
      else bind_result (placeholder h) (\<lambda>f. Inr (w\<lparr>base_graph := add_node f (base_graph w)\<rparr>)))"

definition add_weighted_edge :: "string \<Rightarrow> string \<Rightarrow> string \<Rightarrow> real \<Rightarrow> weighted \<Rightarrow> weighted result" where
  "add_weighted_edge source target edge_type weight w =
     bind_result (ensure_node source w) (\<lambda>w1.
     bind_result (ensure_node target w1) (\<lambda>w2.
       let by_source = dict_setdefault (weights w2) source [];
           by_type = dict_setdefault (dict_get by_source source []) edge_type [];
           by_target = dict_set (dict_get by_type edge_type []) target weight
       in Inr (w2\<lparr>base_graph := add_edge source target edge_type (base_graph w2),
                  weights := dict_set by_source source (dict_set by_type edge_type by_target)\<rparr>)))"

definition get_edge_weight :: "weighted \<Rightarrow> string \<Rightarrow> string \<Rightarrow> string \<Rightarrow> real" where
  "get_edge_weight w source target edge_type =
     dict_get (dict_get (dict_get (weights w) source []) edge_type []) target 0"

definition strong_targets :: "real \<Rightarrow> (string, real) dict \<Rightarrow> string set" where
  "strong_targets min_weight d = set (map fst (filter (\<lambda>(_, weight). weight \<ge> min_weight) d))"

definition get_strong_neighbors :: "weighted \<Rightarrow> string \<Rightarrow> string option \<Rightarrow> real \<Rightarrow> string set" where
  "get_strong_neighbors w h edge_type min_weight =
     (let types = dict_get (weights w) h []
      in case edge_type of
           Some t \<Rightarrow> strong_targets min_weight (dict_get types t [])
         | None \<Rightarrow> foldl (\<lambda>result (_, d). result \<union> strong_targets min_weight d) {} types)"

section \<open>Bounded breadth-first retrieval\<close>

fun component_loop :: "weighted \<Rightarrow> real \<Rightarrow> nat \<Rightarrow> string set \<Rightarrow> string set \<Rightarrow> string set" where
  "component_loop w min_weight 0 visited frontier = visited"
| "component_loop w min_weight (Suc n) visited frontier =
     (let next_frontier = (\<Union>h\<in>frontier. get_strong_neighbors w h None min_weight) - visited;
          visited' = visited \<union> next_frontier
      in if next_frontier = {} then visited'
         else component_loop w min_weight n visited' next_frontier)"

definition retrieve_component :: "weighted \<Rightarrow> string \<Rightarrow> real \<Rightarrow> int \<Rightarrow> string set" where
  "retrieve_component w seed min_weight max_depth =
     (if \<not> has_node (base_graph w) seed then {}
      else component_loop w min_weight (nat max_depth) {seed} {seed})"

fun clusters_loop :: "weighted \<Rightarrow> real \<Rightarrow> int \<Rightarrow> string list \<Rightarrow> string set \<Rightarrow> string set list" where
  "clusters_loop w min_weight max_depth [] seen = []"
| "clusters_loop w min_weight max_depth (seed # seeds) seen =
     (if seed \<in> seen then clusters_loop w min_weight max_depth seeds seen
      else
        let component = retrieve_component w seed min_weight max_depth
        in component # clusters_loop w min_weight max_depth seeds (seen \<union> component))"

definition retrieve_clusters :: "weighted \<Rightarrow> string list \<Rightarrow> real \<Rightarrow> int \<Rightarrow> string set list" where
  "retrieve_clusters w seeds min_weight max_depth = clusters_loop w min_weight max_depth seeds {}"

section \<open>Edges of the graphs\<close>

lemma foldl_union: "foldl (\<lambda>result (k, ns). result \<union> f ns) R xs = R \<union> (\<Union>(k, ns)\<in>set xs. f ns)"
  by (induction xs arbitrary: R) auto

lemma has_edge_add:
  "has_edge (add_edge s t e g) s' t' e' \<longleftrightarrow> s' = s \<and> t' = t \<and> e' = e \<or> has_edge g s' t' e'"
  by (auto simp: has_edge_def add_edge_def Let_def)

lemma neighbors_Some: "neighbors g h (Some e) = {t. has_edge g h t e}"
  by (simp add: neighbors_def has_edge_def)

lemma neighbors_None:
  assumes "dict_ok (dict_get (adjacency g) h [])"
  shows "neighbors g h None = {t. \<exists>e. has_edge g h t e}"
proof -
  have "(\<Union>(k, ns)\<in>set d. ns) = {t. \<exists>e. t \<in> dict_get d e {}}" if "dict_ok d" for d :: "(string, string set) dict"
  proof -
    have "t \<in> dict_get d e {} \<longleftrightarrow> (\<exists>ns. (e, ns) \<in> set d \<and> t \<in> ns)" for t e
      using map_of_eq_Some_iff [OF that, of e] by (cases "map_of d e") (simp_all add: dict_get_def, metis+)
    then show ?thesis by auto
  qed
  with assms show ?thesis
    by (simp add: neighbors_def has_edge_def foldl_union [where f = "\<lambda>x. x", simplified])
qed

text \<open>The edges a retrieval follows: strong in some type.\<close>

definition strong :: "weighted \<Rightarrow> real \<Rightarrow> (string \<times> string) set" where
  "strong w min_weight = {(a, b). b \<in> get_strong_neighbors w a None min_weight}"

text \<open>The nodes within \<open>n\<close> strong edges of a set.\<close>

definition reach_within :: "(string \<times> string) set \<Rightarrow> nat \<Rightarrow> string set \<Rightarrow> string set" where
  "reach_within E n S = {v. \<exists>k\<le>n. \<exists>s\<in>S. (s, v) \<in> E ^^ k}"

lemma reach_within_0: "reach_within E 0 S = S"
  by (auto simp: reach_within_def)

lemma reach_within_Suc: "reach_within E (Suc n) S = S \<union> reach_within E n (E `` S)"
proof -
  have "v \<in> reach_within E (Suc n) S \<longleftrightarrow> v \<in> S \<union> reach_within E n (E `` S)" for v
  proof
    assume "v \<in> reach_within E (Suc n) S"
    then obtain k s where k: "k \<le> Suc n" "s \<in> S" "(s, v) \<in> E ^^ k" by (auto simp: reach_within_def)
    show "v \<in> S \<union> reach_within E n (E `` S)"
    proof (cases k)
      case 0
      with k show ?thesis by simp
    next
      case (Suc j)
      with k(3) obtain u where "(s, u) \<in> E" "(u, v) \<in> E ^^ j" by (meson relpow_Suc_D2)
      with k Suc show ?thesis by (auto simp: reach_within_def)
    qed
  next
    assume "v \<in> S \<union> reach_within E n (E `` S)"
    then show "v \<in> reach_within E (Suc n) S"
    proof
      assume "v \<in> S"
      then show ?thesis unfolding reach_within_def by (intro CollectI exI [of _ 0]) auto
    next
      assume "v \<in> reach_within E n (E `` S)"
      then obtain k s u where "k \<le> n" "s \<in> S" "(s, u) \<in> E" "(u, v) \<in> E ^^ k" by (auto simp: reach_within_def)
      moreover from this have "(s, v) \<in> E ^^ Suc k" by (intro relpow_Suc_I2)
      ultimately show ?thesis unfolding reach_within_def by (blast intro: Suc_le_mono [THEN iffD2])
    qed
  qed
  then show ?thesis by blast
qed

lemma reach_within_Un: "reach_within E n (A \<union> B) = reach_within E n A \<union> reach_within E n B"
  by (auto simp: reach_within_def)

lemma reach_within_self: "S \<subseteq> reach_within E n S"
  unfolding reach_within_def by (auto intro!: exI [of _ 0])

lemma reach_within_empty: "reach_within E n {} = {}"
  by (simp add: reach_within_def)

lemma reach_within_mono: "n \<le> m \<Longrightarrow> reach_within E n S \<subseteq> reach_within E m S"
  unfolding reach_within_def using order_trans by blast

lemma component_loop_within:
  assumes "frontier \<subseteq> visited" and "strong w x `` (visited - frontier) \<subseteq> visited"
  shows "component_loop w x n visited frontier = visited \<union> reach_within (strong w x) n frontier"
  using assms
proof (induction n arbitrary: visited frontier)
  case 0
  then show ?case by (auto simp: reach_within_0)
next
  case (Suc n)
  let ?E = "strong w x"
  define new where "new = ?E `` frontier - visited"
  have nf: "(\<Union>h\<in>frontier. get_strong_neighbors w h None x) - visited = new"
    by (auto simp: new_def strong_def)
  have closed: "?E `` (visited \<union> new - new) \<subseteq> visited \<union> new"
    using Suc.prems unfolding new_def by blast
  have img: "visited \<union> reach_within ?E n (?E `` frontier) = visited \<union> new \<union> reach_within ?E n new"
  proof -
    have old: "visited \<union> reach_within ?E k (?E `` frontier \<inter> visited) \<subseteq> visited \<union> new \<union> reach_within ?E k new" for k
    proof -
      have "reach_within ?E k S \<subseteq> visited \<union> new \<union> reach_within ?E k new" if "S \<subseteq> visited" for S
        using that
      proof (induction k arbitrary: S)
        case 0
        then show ?case by (auto simp: reach_within_0)
      next
        case (Suc j)
        have "?E `` S \<subseteq> visited \<union> new" using closed Suc.prems unfolding new_def by blast
        then have "reach_within ?E j (?E `` S) \<subseteq> reach_within ?E j (visited \<union> new)" by (auto simp: reach_within_def)
        also have "\<dots> \<subseteq> visited \<union> new \<union> reach_within ?E (Suc j) new"
          using Suc.IH [of visited] reach_within_mono [of j "Suc j" ?E new] by (auto simp: reach_within_Un)
        finally show ?case using Suc.prems by (auto simp: reach_within_Suc)
      qed
      then show ?thesis by auto
    qed
    have "?E `` frontier = (?E `` frontier \<inter> visited) \<union> new" by (auto simp: new_def)
    then have "reach_within ?E n (?E `` frontier) = reach_within ?E n (?E `` frontier \<inter> visited) \<union> reach_within ?E n new"
      by (metis reach_within_Un)
    with old [of n] reach_within_self [of new ?E n] show ?thesis by blast
  qed
  show ?case
  proof (cases "new = {}")
    case True
    then have "visited \<union> reach_within ?E n (?E `` frontier) = visited"
      using img by (simp add: reach_within_empty)
    then show ?thesis using True Suc.prems(1) by (auto simp: nf reach_within_Suc)
  next
    case False
    then have "component_loop w x (Suc n) visited frontier = component_loop w x n (visited \<union> new) new"
      by (simp add: nf Let_def)
    also have "\<dots> = visited \<union> new \<union> reach_within ?E n new"
      by (rule Suc.IH [OF _ closed]) simp
    finally show ?thesis using img Suc.prems(1) unfolding reach_within_Suc by blast
  qed
qed

section \<open>Properties\<close>

text \<open>
  Retrieving a component returns exactly the fragments reachable from the seed over at most
  \<open>max_depth\<close> edges of at least the given weight, and nothing when the seed is unknown.
\<close>

theorem retrieve_component_exact:
  "retrieve_component w seed x d =
     (if has_node (base_graph w) seed
      then {v. \<exists>k\<le>nat d. (seed, v) \<in> strong w x ^^ k} else {})"
  using component_loop_within [of "{seed}" "{seed}" w x "nat d"]
  by (auto simp: retrieve_component_def reach_within_def)

end
