(* ===== verification/Indexes.thy ===== *)
theory Indexes
  imports Positional
begin

text \<open>
  The other in-memory indexes and the facade over all of them: \<open>membrane/exacts.py\<close>,
  \<open>membrane/coaccess.py\<close>, \<open>membrane/semantics.py\<close>, \<open>membrane/index.py\<close>. Python sets of hashes are
  HOL sets; where the code walks a set and the steps do not depend on each other, the walk is one
  set or map operation. Embeddings are lists of reals.
\<close>

section \<open>The exact index\<close>

record index_entry =
  entry_fragment :: fragment
  locations :: "string set"

type_synonym exacts = "(string, index_entry) dict"

definition exacts_insert :: "fragment \<Rightarrow> string set \<Rightarrow> exacts \<Rightarrow> exacts" where
  "exacts_insert f locs d =
     dict_set d (payload_hash (identity f)) \<lparr>entry_fragment = f, locations = locs\<rparr>"

definition exacts_lookup :: "exacts \<Rightarrow> string \<Rightarrow> index_entry option" where
  "exacts_lookup d ch = map_of d ch"

definition add_location :: "string \<Rightarrow> string \<Rightarrow> exacts \<Rightarrow> exacts \<times> bool" where
  "add_location ch node d =
     (case map_of d ch of
        None \<Rightarrow> (d, False)
      | Some e \<Rightarrow>
          (dict_set d ch \<lparr>entry_fragment = entry_fragment e, locations = locations e \<union> {node}\<rparr>, True))"

definition exacts_remove :: "string \<Rightarrow> exacts \<Rightarrow> exacts \<times> bool" where
  "exacts_remove ch d = (if dict_has d ch then (dict_del d ch, True) else (d, False))"

section \<open>The co-access index\<close>

type_synonym coaccess = "(string, string set) dict"

definition record_co_access :: "string \<Rightarrow> string \<Rightarrow> coaccess \<Rightarrow> coaccess" where
  "record_co_access a b g =
     (if a = b then g
      else
        let g1 = dict_setdefault g a {};
            g2 = dict_set g1 a (insert b (dict_get g1 a {}));
            g3 = dict_setdefault g2 b {}
        in dict_set g3 b (insert a (dict_get g3 b {})))"

definition coaccess_lookup :: "coaccess \<Rightarrow> string \<Rightarrow> string set" where
  "coaccess_lookup g ch = dict_get g ch {}"

definition coaccess_remove :: "string \<Rightarrow> coaccess \<Rightarrow> coaccess \<times> bool" where
  "coaccess_remove ch g =
     (let neighbors = dict_get g ch {};
          rest = dict_del g ch
      in (map (\<lambda>(k, s). (k, if k \<in> neighbors then s - {ch} else s)) rest, neighbors \<noteq> {}))"

fun record_pairs :: "string list \<Rightarrow> coaccess \<Rightarrow> coaccess" where
  "record_pairs [] g = g"
| "record_pairs (x # xs) g = record_pairs xs (foldl (\<lambda>g y. record_co_access x y g) g xs)"

text \<open>\<open>list(dict.fromkeys(hashes))\<close> keeps the first occurrence of every hash.\<close>

fun fromkeys :: "string list \<Rightarrow> string list" where
  "fromkeys [] = []"
| "fromkeys (x # xs) = x # removeAll x (fromkeys xs)"

definition record_batch :: "string list \<Rightarrow> coaccess \<Rightarrow> coaccess" where
  "record_batch hs g = record_pairs (fromkeys hs) g"

section \<open>The semantic index\<close>

definition compute_norm :: "real list \<Rightarrow> real" where
  "compute_norm embedding =
     (let norm = sqrt (sum_list (map (\<lambda>x. x * x) embedding)) in if norm > 0 then norm else 1)"

definition cosine_similarity :: "real list \<Rightarrow> real list \<Rightarrow> real" where
  "cosine_similarity a b =
     (let dot = sum_list (map (\<lambda>(x, y). x * y) (zip a b));
          norm_a = sqrt (sum_list (map (\<lambda>x. x * x) a));
          norm_b = sqrt (sum_list (map (\<lambda>x. x * x) b))
      in if norm_a = 0 \<or> norm_b = 0 then 0 else dot / (norm_a * norm_b))"

record semantics =
  sem_fragments :: "fragment list"
  norms :: "(string, real) dict"

definition semantics_init :: semantics where
  "semantics_init = \<lparr>sem_fragments = [], norms = []\<rparr>"

definition semantics_insert :: "fragment \<Rightarrow> semantics \<Rightarrow> semantics" where
  "semantics_insert f s =
     s\<lparr>sem_fragments := sem_fragments s @ [f],
       norms := dict_set (norms s) (payload_hash (identity f)) 1\<rparr>"

text \<open>\<open>pop\<close> of the first fragment with the hash, as the enumerating loop finds it.\<close>

fun pop_first :: "string \<Rightarrow> fragment list \<Rightarrow> fragment list option" where
  "pop_first ch [] = None"
| "pop_first ch (f # fs) =
     (if payload_hash (identity f) = ch then Some fs else map_option (Cons f) (pop_first ch fs))"

definition semantics_remove :: "string \<Rightarrow> semantics \<Rightarrow> semantics \<times> bool" where
  "semantics_remove ch s =
     (case pop_first ch (sem_fragments s) of
        None \<Rightarrow> (s, False)
      | Some fs \<Rightarrow> (s\<lparr>sem_fragments := fs, norms := dict_del (norms s) ch\<rparr>, True))"

text \<open>
  All scores are the constant 0, so the stable descending sort (ascending on the negated score)
  keeps the insertion order.
\<close>

definition nearest_neighbors :: "real list \<Rightarrow> int \<Rightarrow> semantics \<Rightarrow> fragment list" where
  "nearest_neighbors query k s =
     (if sem_fragments s = [] then []
      else
        let scored = map (\<lambda>f. (0 :: real, f)) (sem_fragments s)
        in map snd (slice_to k (sort_key (\<lambda>p. - fst p) scored)))"

text \<open>\<open>SemanticCluster.cluster\<close>: the groups by payload hash, in order of first appearance.\<close>

fun group_loop :: "fragment list \<Rightarrow> (string, fragment list) dict \<Rightarrow> string list \<Rightarrow> (string, fragment list) dict \<times> string list" where
  "group_loop [] groups order = (groups, order)"
| "group_loop (f # fs) groups order =
     (let h = payload_hash (identity f);
          order' = (if dict_has groups h then order else order @ [h]);
          groups' = (if dict_has groups h then groups else dict_set groups h [])
      in group_loop fs (dict_set groups' h (dict_get groups' h [] @ [f])) order')"

definition cluster :: "fragment list \<Rightarrow> semantics \<Rightarrow> semantics \<times> fragment list list" where
  "cluster fs s =
     (if fs = [] then (s, [])
      else
        let s' = foldl (\<lambda>s f. semantics_insert f s) s fs;
            (groups, order) = group_loop fs [] []
        in (s', map (\<lambda>h. dict_get groups h []) order))"

section \<open>The facade\<close>

record index =
  exact :: exacts
  semantic :: semantics
  positional :: positional
  co_access :: coaccess

definition index_init :: index where
  "index_init = \<lparr>exact = [], semantic = semantics_init, positional = positional_init, co_access = []\<rparr>"

definition index_insert :: "fragment \<Rightarrow> string set \<Rightarrow> index \<Rightarrow> index result" where
  "index_insert f locs ix =
     (let ix1 = ix\<lparr>exact := exacts_insert f locs (exact ix)\<rparr>;
          ix2 = ix1\<lparr>semantic := semantics_insert f (semantic ix1)\<rparr>
      in bind_result (positional_insert f (positional ix2)) (\<lambda>p. Inr (ix2\<lparr>positional := p\<rparr>)))"

definition exact_lookup :: "index \<Rightarrow> string \<Rightarrow> index_entry option" where
  "exact_lookup ix ch = exacts_lookup (exact ix) ch"

definition semantic_lookup :: "index \<Rightarrow> real list \<Rightarrow> int \<Rightarrow> fragment list" where
  "semantic_lookup ix query k = nearest_neighbors query k (semantic ix)"

definition positional_lookup :: "index \<Rightarrow> int \<Rightarrow> int \<Rightarrow> fragment list" where
  "positional_lookup ix start stop = find_overlapping start stop (positional ix)"

definition positional_adjacent :: "index \<Rightarrow> int \<Rightarrow> int \<Rightarrow> fragment list" where
  "positional_adjacent ix position max_gap = find_adjacent position max_gap (positional ix)"

definition index_record_co_access :: "string \<Rightarrow> string \<Rightarrow> index \<Rightarrow> index" where
  "index_record_co_access a b ix = ix\<lparr>co_access := record_co_access a b (co_access ix)\<rparr>"

definition index_remove :: "string \<Rightarrow> index \<Rightarrow> (index \<times> bool) result" where
  "index_remove ch ix =
     (let (e, r1) = exacts_remove ch (exact ix);
          (s, r2) = semantics_remove ch (semantic ix)
      in bind_result (positional_remove ch (positional ix)) (\<lambda>(p, r3).
         let (c, r4) = coaccess_remove ch (co_access ix)
         in Inr (ix\<lparr>exact := e, semantic := s, positional := p, co_access := c\<rparr>, r1 \<or> r2 \<or> r3 \<or> r4)))"

definition co_access_neighbors :: "index \<Rightarrow> string \<Rightarrow> string set" where
  "co_access_neighbors ix ch = coaccess_lookup (co_access ix) ch"

section \<open>Co-access as a symmetric relation\<close>

definition edges :: "coaccess \<Rightarrow> (string \<times> string) set" where
  "edges g = {(a, b). b \<in> coaccess_lookup g a}"

lemma edges_record:
  "edges (record_co_access a b g) = edges g \<union> (if a = b then {} else {(a, b), (b, a)})"
  by (auto simp: edges_def coaccess_lookup_def record_co_access_def Let_def split: if_splits)

lemma coaccess_lookup_remove:
  "coaccess_lookup (fst (coaccess_remove ch g)) a =
     (if a = ch then {} else if a \<in> coaccess_lookup g ch then coaccess_lookup g a - {ch}
      else coaccess_lookup g a)"
  by (simp add: coaccess_remove_def coaccess_lookup_def dict_get_def Let_def map_of_map_snd split: option.splits)

lemma edges_remove:
  assumes "sym (edges g)"
  shows "edges (fst (coaccess_remove ch g)) = {(a, b) \<in> edges g. a \<noteq> ch \<and> b \<noteq> ch}"
proof -
  have "ch \<in> coaccess_lookup g a \<longleftrightarrow> a \<in> coaccess_lookup g ch" for a
    using assms by (auto simp: edges_def sym_def)
  then show ?thesis
    by (auto simp: edges_def coaccess_lookup_remove split: if_splits)
qed

lemma edges_foldl_record:
  "edges (foldl (\<lambda>g y. record_co_access x y g) g ys)
     = edges g \<union> {(a, b). a \<noteq> b \<and> (a = x \<and> b \<in> set ys \<or> b = x \<and> a \<in> set ys)}"
  by (induction ys arbitrary: g) (auto simp: edges_record)

lemma edges_record_pairs:
  "edges (record_pairs xs g) = edges g \<union> {(a, b). a \<noteq> b \<and> a \<in> set xs \<and> b \<in> set xs}"
  by (induction xs arbitrary: g) (auto simp: edges_foldl_record)

lemma set_fromkeys [simp]: "set (fromkeys xs) = set xs"
  by (induction xs) auto

lemma distinct_fromkeys [simp]: "distinct (fromkeys xs)"
  by (induction xs) (auto simp: distinct_removeAll)

text \<open>The index under any sequence of uses, and what it stands for.\<close>

datatype coaccess_op = CoAccess string string | Batch "string list" | Forget string

fun coaccess_step :: "coaccess \<Rightarrow> coaccess_op \<Rightarrow> coaccess" where
  "coaccess_step g (CoAccess a b) = record_co_access a b g"
| "coaccess_step g (Batch hs) = record_batch hs g"
| "coaccess_step g (Forget ch) = fst (coaccess_remove ch g)"

fun pairs_step :: "(string \<times> string) set \<Rightarrow> coaccess_op \<Rightarrow> (string \<times> string) set" where
  "pairs_step E (CoAccess a b) = E \<union> (if a = b then {} else {(a, b), (b, a)})"
| "pairs_step E (Batch hs) = E \<union> {(a, b). a \<noteq> b \<and> a \<in> set hs \<and> b \<in> set hs}"
| "pairs_step E (Forget ch) = {(a, b) \<in> E. a \<noteq> ch \<and> b \<noteq> ch}"

lemma edges_step:
  "sym (edges g) \<Longrightarrow> edges (coaccess_step g x) = pairs_step (edges g) x"
  by (cases x) (simp_all add: edges_record record_batch_def edges_record_pairs edges_remove)

lemma pairs_step_sym: "sym E \<Longrightarrow> sym (pairs_step E x)"
  by (cases x) (auto simp: sym_def)

interpretation coaccess_history: stepping coaccess_step "\<lambda>g. sym (edges g)"
  by unfold_locales (simp add: edges_step pairs_step_sym)

lemma edges_run: "edges (foldl coaccess_step [] ops) = foldl pairs_step {} ops"
proof (induction ops rule: rev_induct)
  case Nil
  show ?case by (simp add: edges_def coaccess_lookup_def dict_get_def)
next
  case (snoc x ops)
  have "sym (edges (foldl coaccess_step [] ops))"
    by (rule coaccess_history.run_ok) (simp add: edges_def coaccess_lookup_def dict_get_def sym_def)
  with snoc show ?case by (simp add: edges_step)
qed

section \<open>Similarity\<close>

lemma cauchy_schwarz_list:
  "\<bar>sum_list (map (\<lambda>(x, y). x * y) (zip a b))\<bar>
     \<le> sqrt (sum_list (map (\<lambda>x. x * x) a)) * sqrt (sum_list (map (\<lambda>x. x * x) (b :: real list)))"
proof (induction a b rule: list_induct2')
  case (4 x xs y ys)
  define A B where "A = sum_list (map (\<lambda>x. x * x) xs)" and "B = sum_list (map (\<lambda>x. x * x) ys)"
  have nn: "0 \<le> A" "0 \<le> B" by (auto simp: A_def B_def intro!: sum_list_nonneg)
  define p q where "p = sqrt A" and "q = sqrt B"
  have pq: "p * p = A" "q * q = B" "0 \<le> p" "0 \<le> q" using nn by (simp_all add: p_def q_def)
  have "(\<bar>x\<bar> * \<bar>y\<bar> + p * q)\<^sup>2 \<le> (x * x + A) * (y * y + B)"
  proof -
    have "(x * x + A) * (y * y + B) - (\<bar>x\<bar> * \<bar>y\<bar> + p * q)\<^sup>2 = (\<bar>x\<bar> * q - \<bar>y\<bar> * p)\<^sup>2"
      unfolding pq(1,2) [symmetric] by (simp add: power2_eq_square algebra_simps abs_mult_self_eq)
    then show ?thesis using zero_le_power2 [of "\<bar>x\<bar> * q - \<bar>y\<bar> * p"] by linarith
  qed
  then have "\<bar>x\<bar> * \<bar>y\<bar> + p * q \<le> sqrt (x * x + A) * sqrt (y * y + B)"
    unfolding real_sqrt_mult [symmetric] by (rule real_le_rsqrt)
  moreover have "\<bar>x * y + d\<bar> \<le> \<bar>x\<bar> * \<bar>y\<bar> + \<bar>d\<bar>" for d by (simp add: abs_mult [symmetric])
  ultimately show ?case
    using "4.IH" by (simp add: A_def [symmetric] B_def [symmetric] p_def [symmetric] q_def [symmetric])
      (meson add_left_mono order_trans)
qed simp_all

lemma cosine_bounds: "\<bar>cosine_similarity a b\<bar> \<le> 1"
proof (cases "sqrt (sum_list (map (\<lambda>x. x * x) a)) = 0 \<or> sqrt (sum_list (map (\<lambda>x. x * x) b)) = 0")
  case True
  then show ?thesis by (auto simp: cosine_similarity_def)
next
  case False
  moreover have "0 \<le> sum_list (map (\<lambda>x. x * x) a)" "0 \<le> sum_list (map (\<lambda>x. x * x) b)"
    by (auto intro!: sum_list_nonneg)
  ultimately have pos: "0 < sqrt (sum_list (map (\<lambda>x. x * x) a)) * sqrt (sum_list (map (\<lambda>x. x * x) b))"
    by (simp add: zero_less_mult_iff order_less_le)
  have "cosine_similarity a b = sum_list (map (\<lambda>(x, y). x * y) (zip a b))
      / (sqrt (sum_list (map (\<lambda>x. x * x) a)) * sqrt (sum_list (map (\<lambda>x. x * x) b)))"
    using False by (simp only: cosine_similarity_def Let_def if_False)
  with cauchy_schwarz_list [of a b] pos show ?thesis
    by (simp only: abs_div_pos [OF pos, symmetric] divide_le_eq_1_pos [OF pos])
qed

section \<open>Clusters\<close>

abbreviation frag_hash :: "fragment \<Rightarrow> string" where
  "frag_hash f \<equiv> payload_hash (identity f)"

lemma group_loop_spec:
  assumes "\<And>h. dict_has groups h \<longleftrightarrow> h \<in> set order"
  shows "fst (group_loop fs groups order) = G \<Longrightarrow> dict_get G h [] = dict_get groups h [] @ filter (\<lambda>f. frag_hash f = h) fs"
    "snd (group_loop fs groups order) = order @ filter (\<lambda>h. h \<notin> set order) (fromkeys (map frag_hash fs))"
proof -
  have "dict_get (fst (group_loop fs groups order)) h [] = dict_get groups h [] @ filter (\<lambda>f. frag_hash f = h) fs
    \<and> snd (group_loop fs groups order) = order @ filter (\<lambda>h. h \<notin> set order) (fromkeys (map frag_hash fs))"
    using assms
  proof (induction fs arbitrary: groups order)
    case Nil
    then show ?case by simp
  next
    case (Cons f fs)
    let ?g = "if dict_has groups (frag_hash f) then groups else dict_set groups (frag_hash f) []"
    let ?o = "if dict_has groups (frag_hash f) then order else order @ [frag_hash f]"
    have "dict_has (dict_set ?g (frag_hash f) (dict_get ?g (frag_hash f) [] @ [f])) h \<longleftrightarrow> h \<in> set ?o" for h
      using Cons.prems by auto
    note IH = Cons.IH [OF this]
    have "filter (\<lambda>h. h \<notin> set order) (removeAll x ys) = filter (\<lambda>h. h \<noteq> x \<and> h \<notin> set order) ys" for x ys
      by (auto simp: removeAll_filter_not_eq intro: filter_cong)
    moreover have "x \<in> set order \<Longrightarrow> filter (\<lambda>h. h \<noteq> x \<and> h \<notin> set order) ys = filter (\<lambda>h. h \<notin> set order) ys" for x ys
      by (rule filter_cong) auto
    ultimately show ?case
      using IH Cons.prems [of "frag_hash f"] by (auto simp: Let_def dict_get_def dict_has_def split: option.splits)
  qed
  then show "fst (group_loop fs groups order) = G \<Longrightarrow> dict_get G h [] = dict_get groups h [] @ filter (\<lambda>f. frag_hash f = h) fs"
    "snd (group_loop fs groups order) = order @ filter (\<lambda>h. h \<notin> set order) (fromkeys (map frag_hash fs))"
    by blast+
qed

lemma cluster_groups:
  "snd (cluster fs s) = map (\<lambda>h. filter (\<lambda>f. frag_hash f = h) fs) (fromkeys (map frag_hash fs))"
proof -
  obtain G O' where go: "group_loop fs [] [] = (G, O')" by fastforce
  have "dict_has ([] :: (string, fragment list) dict) h \<longleftrightarrow> h \<in> set ([] :: string list)" for h
    by (simp add: dict_has_def)
  note spec = group_loop_spec [OF this, of fs]
  have "O' = fromkeys (map frag_hash fs)" using spec(2) go by simp
  moreover have "dict_get G h [] = filter (\<lambda>f. frag_hash f = h) fs" for h
    using spec(1) [of G h] go by (simp add: dict_get_def)
  ultimately show ?thesis by (simp add: cluster_def go)
qed

section \<open>The exact index as a keyed store\<close>

interpretation exact_store: keyed_store "\<lambda>ch e d. dict_set d ch e" exacts_lookup "\<lambda>ch d. fst (exacts_remove ch d)"
  "\<lambda>d :: exacts. dict_ok d"
proof
  show "exacts_lookup (fst (exacts_remove ch d)) = (exacts_lookup d)(ch := None)" for ch and d :: exacts
    by (auto simp: exacts_lookup_def exacts_remove_def dict_has_def fun_eq_iff)
qed (auto simp: exacts_lookup_def exacts_remove_def fun_eq_iff distinct_delete)

section \<open>Properties\<close>

text \<open>
  C27. The co-access index refines the set of unordered pairs that were recorded, alone or in a
  batch, and whose members were not removed since: a lookup returns exactly the partners of a hash,
  partnership is symmetric, and \<open>remove\<close> answers whether the hash had a partner.
\<close>

theorem coaccess_refines_pairs:
  "let g = foldl coaccess_step [] ops; E = foldl pairs_step {} ops in
     coaccess_lookup g = (\<lambda>a. {b. (a, b) \<in> E}) \<and> sym E
   \<and> snd (coaccess_remove ch g) = (\<exists>b. (ch, b) \<in> E)"
proof -
  have "sym (edges (foldl coaccess_step [] ops))"
    by (rule coaccess_history.run_ok) (simp add: edges_def coaccess_lookup_def dict_get_def sym_def)
  then show ?thesis
    unfolding edges_run [symmetric] Let_def
    by (auto simp: edges_def coaccess_remove_def coaccess_lookup_def Let_def)
qed

text \<open>
  Cosine similarity stays between -1 and 1 for vectors of any, also different, lengths.
\<close>

theorem cosine_similarity_bounds: "cosine_similarity a b \<in> {-1..1}"
  using cosine_bounds [of a b] by (simp add: abs_le_iff)

text \<open>
  Clustering partitions the given fragments: one cluster per payload hash, in order of first
  appearance, each holding exactly the fragments of that hash in their given order.
\<close>

theorem cluster_partitions:
  "snd (cluster fs s) = map (\<lambda>h. filter (\<lambda>f. frag_hash f = h) fs) (fromkeys (map frag_hash fs))
   \<and> distinct (fromkeys (map frag_hash fs)) \<and> set (fromkeys (map frag_hash fs)) = frag_hash ` set fs"
  by (simp add: cluster_groups)

end
