(* ===== verification/Policies.thy ===== *)
theory Policies
  imports Fragment "HOL-Library.Product_Lexorder"
begin

text \<open>
  The decision helpers of the serving plane: admission, the TinyLFU sketch, tenant quotas, the hit
  observer and the prefetcher of \<open>membrane/decision.py\<close>, the eviction orders of
  \<open>membrane/store/eviction.py\<close>, the tiers, bandit and router weights of \<open>membrane/tiers.py\<close>, and
  the window sizing of \<open>membrane/transfer_engine_ext.py\<close>. Floats are reals; the SHA-1 digest and
  the random draws are arguments.
\<close>

section \<open>Admission\<close>

record admission_policy =
  min_reuse_score :: real
  admission_enabled :: bool

definition should_admit :: "admission_policy \<Rightarrow> real \<Rightarrow> bool" where
  "should_admit p score = (if \<not> admission_enabled p then True else score \<ge> min_reuse_score p)"

section \<open>TinyLFU\<close>

record lfu_decision =
  admitted :: bool
  victim_key :: "string option"
  reason :: string

record tiny_lfu =
  capacity :: int
  window_size :: int
  main_size :: int
  sketch_size :: int
  sketch :: "int list"
  lfu_counter :: int
  window :: "(string, unit) dict"
  main :: "(string, unit) dict"

definition TinyLFU :: "int \<Rightarrow> real \<Rightarrow> int \<Rightarrow> tiny_lfu result" where
  "TinyLFU cap window_ratio slots =
     (if cap \<le> 0 then Inl ValueError
      else
        let x = of_int cap * window_ratio;
            ws = max 1 (if x \<ge> 0 then \<lfloor>x\<rfloor> else \<lceil>x\<rceil>)
        in Inr \<lparr>capacity = cap, window_size = ws, main_size = cap - ws, sketch_size = slots,
                sketch = replicate (nat slots) 0, lfu_counter = 0, window = [], main = []\<rparr>)"

definition lfu_hash :: "(string \<Rightarrow> nat) \<Rightarrow> tiny_lfu \<Rightarrow> string \<Rightarrow> int result" where
  "lfu_hash sha1 l k =
     (if sketch_size l = 0 then Inl ZeroDivisionError else Inr (int (sha1 k) mod sketch_size l))"

definition estimate :: "(string \<Rightarrow> nat) \<Rightarrow> tiny_lfu \<Rightarrow> string \<Rightarrow> int result" where
  "estimate sha1 l k =
     bind_result (lfu_hash sha1 l k) (\<lambda>h.
     bind_result (py_index (sketch l) h) (\<lambda>i. Inr (sketch l ! i)))"

definition count_hit :: "(string \<Rightarrow> nat) \<Rightarrow> string \<Rightarrow> tiny_lfu \<Rightarrow> tiny_lfu result" where
  "count_hit sha1 k l =
     (let l1 = l\<lparr>lfu_counter := lfu_counter l + 1\<rparr>
      in bind_result (lfu_hash sha1 l1 k) (\<lambda>h.
         bind_result (py_index (sketch l1) h) (\<lambda>i.
           Inr (l1\<lparr>sketch := (sketch l1)[i := sketch l1 ! i + 1]\<rparr>))))"

text \<open>\<open>popitem(last=False)\<close>: the oldest entry goes; an empty dictionary raises.\<close>

definition popitem_first :: "(string, unit) dict \<Rightarrow> (string, unit) dict result" where
  "popitem_first d = (case d of [] \<Rightarrow> Inl KeyError | _ # rest \<Rightarrow> Inr rest)"

definition lfu_admit :: "(string \<Rightarrow> nat) \<Rightarrow> string \<Rightarrow> tiny_lfu \<Rightarrow> (tiny_lfu \<times> lfu_decision) result" where
  "lfu_admit sha1 k l0 =
     bind_result (count_hit sha1 k l0) (\<lambda>l.
     let window_full = int (length (window l)) \<ge> window_size l in
     if int (length (window l)) + int (length (main l)) < capacity l then
       Inr (l\<lparr>window := dict_set (window l) k ()\<rparr>,
            \<lparr>admitted = True, victim_key = None, reason = ''under_capacity''\<rparr>)
     else if \<not> window_full then
       Inr (l\<lparr>window := dict_set (window l) k ()\<rparr>,
            \<lparr>admitted = True,
             victim_key = (case main l of [] \<Rightarrow> None | (v, _) # _ \<Rightarrow> Some v),
             reason = ''window_capacity''\<rparr>)
     else
       (case main l of
          [] \<Rightarrow> Inl StopIteration
        | (victim, _) # _ \<Rightarrow>
            let w = dict_set (window l) k ()
            in bind_result (if int (length w) > window_size l then popitem_first w else Inr w) (\<lambda>w'.
               Inr (l\<lparr>window := w'\<rparr>,
                    \<lparr>admitted = True, victim_key = Some victim, reason = ''window_replace_worst''\<rparr>))))"

definition lfu_touch :: "(string \<Rightarrow> nat) \<Rightarrow> string \<Rightarrow> tiny_lfu \<Rightarrow> tiny_lfu result" where
  "lfu_touch sha1 k l0 =
     bind_result (count_hit sha1 k l0) (\<lambda>l.
     if dict_has (main l) k then Inr (l\<lparr>main := dict_move_to_end (main l) k\<rparr>)
     else if dict_has (window l) k then
       bind_result (if int (length (main l)) \<ge> main_size l then popitem_first (main l) else Inr (main l)) (\<lambda>m.
         Inr (l\<lparr>window := dict_del (window l) k, main := dict_set m k ()\<rparr>))
     else
       let w = dict_set (window l) k ()
       in bind_result (if int (length w) > window_size l then popitem_first w else Inr w) (\<lambda>w'.
          Inr (l\<lparr>window := w'\<rparr>)))"

definition lfu_evict :: "string \<Rightarrow> tiny_lfu \<Rightarrow> tiny_lfu" where
  "lfu_evict k l = l\<lparr>window := dict_del (window l) k, main := dict_del (main l) k\<rparr>"

definition lfu_size :: "tiny_lfu \<Rightarrow> int" where
  "lfu_size l = int (length (window l)) + int (length (main l))"

section \<open>Tenant quotas\<close>

record tenant_quota =
  quota_tenant :: string
  max_bytes :: "int option"
  max_entries :: "int option"
  used_bytes :: int
  used_entries :: int

definition quota_admit :: "int \<Rightarrow> tenant_quota \<Rightarrow> tenant_quota \<times> bool" where
  "quota_admit nbytes q =
     (if (case max_bytes q of None \<Rightarrow> False | Some m \<Rightarrow> used_bytes q + nbytes > m) then (q, False)
      else if (case max_entries q of None \<Rightarrow> False | Some m \<Rightarrow> used_entries q \<ge> m) then (q, False)
      else (q\<lparr>used_bytes := used_bytes q + nbytes, used_entries := used_entries q + 1\<rparr>, True))"

definition quota_release :: "int \<Rightarrow> tenant_quota \<Rightarrow> tenant_quota" where
  "quota_release nbytes q =
     q\<lparr>used_bytes := max 0 (used_bytes q - nbytes), used_entries := max 0 (used_entries q - 1)\<rparr>"

section \<open>Hits and prefetching\<close>

record hit_observer =
  alpha :: real
  decay :: real

definition HitObserver :: hit_observer where
  "HitObserver = \<lparr>alpha = 1 / 10, decay = 5 / 100\<rparr>"

definition hit_score :: "hit_observer \<Rightarrow> real \<Rightarrow> real" where
  "hit_score ob current =
     (let observed = max 0 (1 - decay ob) in alpha ob * observed + (1 - alpha ob) * current)"

definition observer_record_hit :: "hit_observer \<Rightarrow> fragment \<Rightarrow> fragment" where
  "observer_record_hit ob f = f\<lparr>reuse_score := hit_score ob (reuse_score f)\<rparr>"

record prefetcher =
  access_window :: nat
  history :: "string list"
  seen :: "string set"

definition prefetcher_init :: "int \<Rightarrow> prefetcher result" where
  "prefetcher_init n =
     (if n < 0 then Inl ValueError else Inr \<lparr>access_window = nat n, history = [], seen = {}\<rparr>)"

text \<open>A bounded deque drops its oldest entry on append.\<close>

definition deque_append :: "nat \<Rightarrow> 'a list \<Rightarrow> 'a \<Rightarrow> 'a list" where
  "deque_append n xs x = (let ys = xs @ [x] in drop (length ys - n) ys)"

fun prefetch_loop :: "string list \<Rightarrow> string set \<Rightarrow> string list \<Rightarrow> string set \<times> string list" where
  "prefetch_loop [] sn loads = (sn, loads)"
| "prefetch_loop (k # ks) sn loads =
     (if k \<in> sn then prefetch_loop ks sn loads else prefetch_loop ks (insert k sn) (loads @ [k]))"

text \<open>
  \<open>record_access\<close> on the neighbours the co-access index gives for the key: the result is the new
  state and the keys handed to \<open>cache.get_or_load\<close>, whose failures are ignored.
\<close>

definition prefetcher_record_access :: "(string \<Rightarrow> string list) \<Rightarrow> string \<Rightarrow> prefetcher \<Rightarrow> prefetcher \<times> string list" where
  "prefetcher_record_access nbrs k p =
     (let p1 = p\<lparr>history := deque_append (access_window p) (history p) k\<rparr>;
          (sn, loads) = prefetch_loop (nbrs k) (seen p1) []
      in (p1\<lparr>seen := sn\<rparr>, loads))"

definition predict_next :: "prefetcher \<Rightarrow> string \<Rightarrow> string list option \<Rightarrow> real" where
  "predict_next p k session =
     (let h = (case session of Some s \<Rightarrow> s | None \<Rightarrow> history p) in
      if h = [] then 0 else min 1 (real (count_list h k) / max 1 (real (length h))))"

section \<open>Eviction orders\<close>

definition EVICTION_REUSE_EPSILON :: real where
  "EVICTION_REUSE_EPSILON = 1 / 100"

definition weighted_order :: "(string \<times> fragment) list \<Rightarrow> (string, real) dict \<Rightarrow> real \<Rightarrow> string list" where
  "weighted_order candidates access now =
     map fst (sort_key (\<lambda>(h, f). dict_get access h now / (reuse_score f + EVICTION_REUSE_EPSILON)) candidates)"

definition frequency_order ::
  "(string \<Rightarrow> nat) \<Rightarrow> tiny_lfu \<Rightarrow> (string \<times> fragment) list \<Rightarrow> (string, real) dict \<Rightarrow> real \<Rightarrow> string list result" where
  "frequency_order sha1 l candidates access now =
     bind_result (map_result (\<lambda>(h, _). estimate sha1 l h) candidates) (\<lambda>freqs.
       Inr (map (\<lambda>(_, h, _). h)
         (sort_key (\<lambda>(n, h, _). (n, dict_get access h now)) (zip freqs candidates))))"

datatype eviction_policy = WeightedLRU | FrequencyLRU tiny_lfu

fun policy_order ::
  "(string \<Rightarrow> nat) \<Rightarrow> eviction_policy \<Rightarrow> (string \<times> fragment) list \<Rightarrow> (string, real) dict \<Rightarrow> real \<Rightarrow> string list result" where
  "policy_order sha1 WeightedLRU candidates access now = Inr (weighted_order candidates access now)"
| "policy_order sha1 (FrequencyLRU l) candidates access now = frequency_order sha1 l candidates access now"

fun policy_touch :: "(string \<Rightarrow> nat) \<Rightarrow> string \<Rightarrow> eviction_policy \<Rightarrow> eviction_policy result" where
  "policy_touch sha1 k WeightedLRU = Inr WeightedLRU"
| "policy_touch sha1 k (FrequencyLRU l) = bind_result (lfu_touch sha1 k l) (\<lambda>l'. Inr (FrequencyLRU l'))"

section \<open>Tiers, bandit and router weights\<close>

record tier_policy =
  hot_threshold :: real
  warm_threshold :: real
  archive_threshold :: real
  promote_after_hits :: int

definition TierPolicy :: tier_policy where
  "TierPolicy = \<lparr>hot_threshold = 7 / 10, warm_threshold = 4 / 10, archive_threshold = 0, promote_after_hits = 3\<rparr>"

definition select_tier :: "tier_policy \<Rightarrow> fragment \<Rightarrow> string" where
  "select_tier p f =
     (let score = reuse_score f in
      if score \<ge> hot_threshold p then ''hot''
      else if score \<ge> warm_threshold p then ''warm''
      else if score \<ge> archive_threshold p then ''cold''
      else ''archival'')"

record bandit_arm =
  arm_name :: string
  arm_weight :: real
  pulls :: int
  reward_sum :: real

definition estimated_reward :: "bandit_arm \<Rightarrow> real" where
  "estimated_reward a = (if pulls a = 0 then 1 / 2 else reward_sum a / of_int (pulls a))"

text \<open>\<open>max\<close> with a key returns the first maximal element.\<close>

fun max_arm :: "bandit_arm \<Rightarrow> bandit_arm list \<Rightarrow> bandit_arm" where
  "max_arm best [] = best"
| "max_arm best (a # as) = max_arm (if estimated_reward a > estimated_reward best then a else best) as"

text \<open>\<open>random\<close> is the draw of \<open>random.random()\<close>, \<open>pick\<close> the index \<open>random.choice\<close> takes.\<close>

definition select_arm :: "bandit_arm list \<Rightarrow> real \<Rightarrow> real \<Rightarrow> nat \<Rightarrow> bandit_arm result" where
  "select_arm arms epsilon random pick =
     (if random < epsilon
      then (if arms = [] then Inl IndexError else Inr (arms ! (pick mod length arms)))
      else (case arms of [] \<Rightarrow> Inl ValueError | a # as \<Rightarrow> Inr (max_arm a as)))"

definition update_arm :: "real \<Rightarrow> bandit_arm \<Rightarrow> bandit_arm" where
  "update_arm reward a =
     (let a1 = a\<lparr>pulls := pulls a + 1, reward_sum := reward_sum a + reward\<rparr>
      in a1\<lparr>arm_weight := reward_sum a1 / of_int (max 1 (pulls a1))\<rparr>)"

record router_weights =
  latency_ms :: real
  bandwidth_cost :: real
  gpu_load :: real
  memory_pressure :: real

definition normalised :: "router_weights \<Rightarrow> real \<times> real \<times> real \<times> real" where
  "normalised w =
     (let total = latency_ms w + bandwidth_cost w + gpu_load w + memory_pressure w in
      if total \<le> 0 then (1/4, 1/4, 1/4, 1/4)
      else
        let scale = 1 / total
        in (latency_ms w * scale, bandwidth_cost w * scale, gpu_load w * scale, memory_pressure w * scale))"

definition apply_bandit_to_weights :: "bandit_arm list option \<Rightarrow> router_weights \<Rightarrow> router_weights" where
  "apply_bandit_to_weights bandit base =
     (case bandit of
        None \<Rightarrow> base
      | Some arms \<Rightarrow>
          if length arms < 4 then base
          else
            \<lparr>latency_ms = max (5 / 100) (arm_weight (arms ! 0)),
             bandwidth_cost = max (5 / 100) (arm_weight (arms ! 1)),
             gpu_load = max (5 / 100) (arm_weight (arms ! 2)),
             memory_pressure = max (5 / 100) (arm_weight (arms ! 3))\<rparr>)"

definition record_op_store ::
  "fragment \<Rightarrow> admission_policy option \<Rightarrow> tenant_quota option \<Rightarrow> tenant_quota option \<times> bool" where
  "record_op_store f policy quota =
     (if (case policy of None \<Rightarrow> False | Some p \<Rightarrow> \<not> should_admit p (reuse_score f)) then (quota, False)
      else
        (case quota of
           None \<Rightarrow> (None, True)
         | Some q \<Rightarrow> let (q', ok) = quota_admit (payload_size f) q in (Some q', ok)))"

section \<open>Window sizing\<close>

record size_profile =
  baseline_window_size :: int
  bytes_per_token :: int

definition DEFAULT_PROFILES :: "(string, size_profile) dict" where
  "DEFAULT_PROFILES =
     [(''llama-3-8b'', \<lparr>baseline_window_size = 128, bytes_per_token = 512\<rparr>),
      (''llama-3-70b'', \<lparr>baseline_window_size = 64, bytes_per_token = 4096\<rparr>),
      (''mistral-7b'', \<lparr>baseline_window_size = 128, bytes_per_token = 512\<rparr>),
      (''mixtral-8x7b'', \<lparr>baseline_window_size = 64, bytes_per_token = 2048\<rparr>),
      (''phi-3'', \<lparr>baseline_window_size = 128, bytes_per_token = 256\<rparr>)]"

text \<open>\<open>str.lower\<close> on ASCII.\<close>

definition lower_char :: "char \<Rightarrow> char" where
  "lower_char c =
     (let n = (of_char c :: nat) in if 65 \<le> n \<and> n \<le> 90 then char_of (n + 32) else c)"

definition get_model_profile :: "string \<Rightarrow> size_profile" where
  "get_model_profile model =
     dict_get DEFAULT_PROFILES (map lower_char model) \<lparr>baseline_window_size = 128, bytes_per_token = 1024\<rparr>"

record adaptive_fragmenter =
  memory_used :: int
  memory_limit :: int
  sizer_model :: string
  reuse_score_avg :: real
  sizer_enabled :: bool

definition adaptive_window_size :: "adaptive_fragmenter \<Rightarrow> int" where
  "adaptive_window_size a =
     (if \<not> sizer_enabled a then 128
      else
        let base0 = baseline_window_size (get_model_profile (sizer_model a));
            pressure = (if memory_limit a > 0 then real_of_int (memory_used a) / real_of_int (memory_limit a) else 0);
            base1 = (if pressure > 85 / 100 then max 16 (base0 div 2) else base0);
            base2 = (if pressure > 95 / 100 then max 8 (base1 div 4) else base1);
            base3 = (if reuse_score_avg a > 7 / 10 \<and> pressure < 6 / 10 then base2 * 2 else base2)
        in max 16 base3)"

section \<open>The interface of an eviction policy\<close>

text \<open>
  What a node relies on: a policy orders the candidates it is given, each exactly once.
\<close>

locale eviction_order =
  fixes order :: "(string \<times> fragment) list \<Rightarrow> (string, real) dict \<Rightarrow> real \<Rightarrow> string list result"
  assumes order_permutes: "order candidates access now = Inr hs \<Longrightarrow> mset hs = mset (map fst candidates)"
begin

lemma order_set: "order candidates access now = Inr hs \<Longrightarrow> set hs = fst ` set candidates"
  using order_permutes by (metis list.set_map set_mset_mset)

lemma order_distinct:
  "order candidates access now = Inr hs \<Longrightarrow> dict_ok candidates \<Longrightarrow> distinct hs"
  using order_permutes by (metis mset_eq_imp_distinct_iff)

lemma order_length: "order candidates access now = Inr hs \<Longrightarrow> length hs = length candidates"
  using order_permutes by (metis length_map size_mset)

end

lemma frequency_order_permutes:
  assumes "frequency_order sha1 l candidates access now = Inr hs"
  shows "mset hs = mset (map fst candidates)"
proof -
  obtain freqs where f: "map_result (\<lambda>(h, _). estimate sha1 l h) candidates = Inr freqs"
    and hs: "hs = map (\<lambda>(_, h, _). h)
      (sort_key (\<lambda>(n, h, _). (n, dict_get access h now)) (zip freqs candidates))"
    using assms by (auto simp: frequency_order_def)
  have len: "length freqs = length candidates"
    using f by (auto simp: map_result_Inr dest: list_all2_lengthD)
  have "mset hs = image_mset (\<lambda>(_, h, _). h) (mset (zip freqs candidates))"
    by (simp add: hs)
  also have "(\<lambda>(_ :: int, h :: string, _ :: fragment). h) = fst \<circ> snd" by auto
  also have "image_mset (fst \<circ> snd) (mset (zip freqs candidates)) = mset (map fst (map snd (zip freqs candidates)))"
    by (simp add: image_mset.compositionality)
  finally show ?thesis by (simp add: len)
qed

interpretation policy: eviction_order "policy_order sha1 ep" for sha1 ep
proof
  show "mset hs = mset (map fst candidates)" if "policy_order sha1 ep candidates access now = Inr hs"
    for candidates access now hs
    using that by (cases ep) (auto simp: weighted_order_def dest!: frequency_order_permutes)
qed

section \<open>Quotas\<close>

datatype quota_op = QAdmit nat | QRelease nat

fun quota_step :: "tenant_quota \<Rightarrow> quota_op \<Rightarrow> tenant_quota" where
  "quota_step q (QAdmit n) = fst (quota_admit (int n) q)"
| "quota_step q (QRelease n) = quota_release (int n) q"

definition quota_ok :: "tenant_quota \<Rightarrow> bool" where
  "quota_ok q \<longleftrightarrow> 0 \<le> used_bytes q \<and> 0 \<le> used_entries q \<and>
     (\<forall>m. max_bytes q = Some m \<longrightarrow> used_bytes q \<le> max 0 m) \<and>
     (\<forall>m. max_entries q = Some m \<longrightarrow> used_entries q \<le> max 0 m)"

interpretation quota_history: stepping quota_step quota_ok
proof
  show "quota_ok (quota_step q x)" if "quota_ok q" for q x
    using that by (cases x) (auto simp: quota_ok_def quota_admit_def quota_release_def split: option.splits)
qed

lemma quota_step_limits [simp]:
  "max_bytes (quota_step q x) = max_bytes q" "max_entries (quota_step q x) = max_entries q"
  by (cases x; simp add: quota_admit_def quota_release_def)+

lemma quota_run_limits:
  "max_bytes (foldl quota_step q ops) = max_bytes q" "max_entries (foldl quota_step q ops) = max_entries q"
  by (induction ops arbitrary: q) simp_all

section \<open>The sketch without hits\<close>

fun admit_all :: "(string \<Rightarrow> nat) \<Rightarrow> string list \<Rightarrow> tiny_lfu \<Rightarrow> tiny_lfu result" where
  "admit_all sha1 [] l = Inr l"
| "admit_all sha1 (k # ks) l = bind_result (lfu_admit sha1 k l) (\<lambda>(l', _). admit_all sha1 ks l')"

definition sketch_ok :: "tiny_lfu \<Rightarrow> bool" where
  "sketch_ok l \<longleftrightarrow> 0 < sketch_size l \<and> length (sketch l) = nat (sketch_size l)"

lemma count_hit_ok:
  assumes "sketch_ok l"
  obtains l' where "count_hit sha1 k l = Inr l'" and "sketch_ok l'" and "window l' = window l"
    and "main l' = main l" and "capacity l' = capacity l" and "window_size l' = window_size l"
    and "main_size l' = main_size l"
proof -
  have r: "0 \<le> int (sha1 k) mod sketch_size l" "int (sha1 k) mod sketch_size l < sketch_size l"
    using assms by (simp_all add: sketch_ok_def)
  then have "py_index (sketch l) (int (sha1 k) mod sketch_size l) = Inr (nat (int (sha1 k) mod sketch_size l))"
    using assms by (simp add: py_index_def sketch_ok_def)
  with assms show thesis
    by (intro that [of "let l1 = l\<lparr>lfu_counter := lfu_counter l + 1\<rparr>; i = nat (int (sha1 k) mod sketch_size l)
          in l1\<lparr>sketch := (sketch l1)[i := sketch l1 ! i + 1]\<rparr>"])
       (auto simp: count_hit_def lfu_hash_def sketch_ok_def Let_def)
qed

lemma admit_all_fills_window:
  assumes "sketch_ok l" and "main l = []" and "dict_ok (window l)"
    and "distinct ks" and "set ks \<inter> fst ` set (window l) = {}"
    and "int (length (window l)) + int (length ks) \<le> capacity l"
  shows "\<exists>l'. admit_all sha1 ks l = Inr l' \<and> sketch_ok l' \<and> main l' = [] \<and>
    length (window l') = length (window l) + length ks \<and> capacity l' = capacity l \<and>
    window_size l' = window_size l"
  using assms
proof (induction ks arbitrary: l)
  case Nil
  then show ?case by simp
next
  case (Cons k ks)
  obtain l1 where l1: "count_hit sha1 k l = Inr l1" "sketch_ok l1" "window l1 = window l"
    "main l1 = main l" "capacity l1 = capacity l" "window_size l1 = window_size l"
    by (rule count_hit_ok [OF Cons.prems(1)])
  define l2 where "l2 = l1\<lparr>window := dict_set (window l1) k ()\<rparr>"
  have new: "\<not> dict_has (window l) k" using Cons.prems(5) by (simp add: dict_has_iff)
  have "lfu_admit sha1 k l = Inr (l2, \<lparr>admitted = True, victim_key = None, reason = ''under_capacity''\<rparr>)"
    using Cons.prems(2,6) l1 by (simp add: lfu_admit_def l2_def)
  moreover have "\<exists>l'. admit_all sha1 ks l2 = Inr l' \<and> sketch_ok l' \<and> main l' = [] \<and>
    length (window l') = length (window l2) + length ks \<and> capacity l' = capacity l2 \<and>
    window_size l' = window_size l2"
    using Cons.prems l1 new
    by (intro Cons.IH) (auto simp: l2_def sketch_ok_def dict_set_new)
  ultimately show ?case using l1 new by (auto simp: l2_def dict_set_new)
qed

section \<open>The prefetcher\<close>

lemma prefetch_loop_spec:
  "prefetch_loop ks sn loads = (sn', loads') \<Longrightarrow> distinct loads \<Longrightarrow> set loads \<subseteq> sn \<Longrightarrow>
     \<exists>new. loads' = loads @ new \<and> distinct loads' \<and> set new \<inter> sn = {} \<and> sn' = sn \<union> set ks \<and> set loads' \<subseteq> sn'
       \<and> set new = set ks - sn"
proof (induction ks arbitrary: sn loads)
  case Nil
  then show ?case by auto
next
  case (Cons k ks)
  show ?case
  proof (cases "k \<in> sn")
    case True
    with Cons show ?thesis by fastforce
  next
    case False
    with Cons.prems have "prefetch_loop ks (insert k sn) (loads @ [k]) = (sn', loads')"
      and "distinct (loads @ [k])" and "set (loads @ [k]) \<subseteq> insert k sn" by auto
    from Cons.IH [OF this] obtain new where "loads' = loads @ k # new" "distinct loads'"
      "set new \<inter> insert k sn = {}" "sn' = insert k sn \<union> set ks" "set loads' \<subseteq> sn'"
      "set new = set ks - insert k sn" by auto
    with False show ?thesis by (intro exI [of _ "k # new"]) auto
  qed
qed

fun prefetch_run :: "(string \<Rightarrow> string list) \<Rightarrow> string list \<Rightarrow> prefetcher \<Rightarrow> prefetcher \<times> string list" where
  "prefetch_run nbrs [] p = (p, [])"
| "prefetch_run nbrs (k # ks) p =
     (let (p1, l1) = prefetcher_record_access nbrs k p; (p2, l2) = prefetch_run nbrs ks p1 in (p2, l1 @ l2))"

lemma prefetch_run_spec:
  "distinct (snd (prefetch_run nbrs ks p)) \<and> set (snd (prefetch_run nbrs ks p)) \<inter> seen p = {}
   \<and> seen (fst (prefetch_run nbrs ks p)) = seen p \<union> set (concat (map nbrs ks))
   \<and> set (snd (prefetch_run nbrs ks p)) = set (concat (map nbrs ks)) - seen p"
proof (induction ks arbitrary: p)
  case Nil
  then show ?case by simp
next
  case (Cons k ks)
  obtain sn loads where pl: "prefetch_loop (nbrs k) (seen p) [] = (sn, loads)" by fastforce
  have sp: "distinct loads" "set loads \<inter> seen p = {}" "sn = seen p \<union> set (nbrs k)" "set loads = set (nbrs k) - seen p"
    using prefetch_loop_spec [OF pl] by auto
  define p1 where "p1 = p\<lparr>history := deque_append (access_window p) (history p) k, seen := sn\<rparr>"
  have pr: "prefetcher_record_access nbrs k p = (p1, loads)"
    by (simp add: prefetcher_record_access_def pl p1_def)
  obtain p2 l2 where run: "prefetch_run nbrs ks p1 = (p2, l2)" by fastforce
  have eq: "prefetch_run nbrs (k # ks) p = (p2, loads @ l2)" by (simp add: pr run)
  have "seen p1 = seen p \<union> set (nbrs k)" by (simp add: p1_def sp)
  note IH = Cons.IH [of p1, unfolded run fst_conv snd_conv this]
  show ?case unfolding eq fst_conv snd_conv using IH sp(1,2,4) by auto
qed

section \<open>Properties\<close>

text \<open>
  C32. A tenant's accounted use never passes its caps: from a fresh quota, after any admissions and
  releases, the used bytes and entries are non-negative and at most the configured limits.
\<close>

theorem quota_within_caps:
  "let q = foldl quota_step \<lparr>quota_tenant = t, max_bytes = Some b, max_entries = Some n,
             used_bytes = 0, used_entries = 0\<rparr> ops
   in used_bytes q \<in> {0..max 0 b} \<and> used_entries q \<in> {0..max 0 n}"
proof -
  let ?q0 = "\<lparr>quota_tenant = t, max_bytes = Some b, max_entries = Some n, used_bytes = 0, used_entries = 0\<rparr>"
  have "quota_ok (foldl quota_step ?q0 ops)"
    by (rule quota_history.run_ok) (simp add: quota_ok_def)
  then show ?thesis
    using quota_run_limits [where q = ?q0 and ops = ops] by (simp add: quota_ok_def Let_def)
qed

text \<open>
  Filling a TinyLFU sketch with as many distinct keys as its capacity, without a hit in between,
  puts them all in the window segment, beyond its size, and leaves the main segment empty; the
  next admission then raises \<open>StopIteration\<close> instead of choosing a victim.
\<close>

theorem lfu_admit_raises_when_full:
  assumes "TinyLFU cap ratio slots = Inr l" and "0 < slots" and "ratio \<le> 1"
    and "distinct ks" and "length ks = nat cap"
  shows "\<exists>l'. admit_all sha1 ks l = Inr l' \<and> lfu_size l' = cap \<and> lfu_admit sha1 k l' = Inl StopIteration"
proof -
  have cap: "0 < cap" and l: "sketch_ok l" "window l = []" "main l = []" "capacity l = cap" "window_size l \<le> cap"
  proof -
    show "0 < cap" using assms(1) by (auto simp: TinyLFU_def split: if_splits)
    then have "of_int cap * ratio \<le> of_int cap" using assms(3) by (simp add: mult_left_le)
    then have "\<lfloor>of_int cap * ratio\<rfloor> \<le> cap" "\<lceil>of_int cap * ratio\<rceil> \<le> cap" by linarith+
    with \<open>0 < cap\<close> assms(1,2) show "sketch_ok l" "window l = []" "main l = []" "capacity l = cap" "window_size l \<le> cap"
      by (auto simp: TinyLFU_def Let_def sketch_ok_def split: if_splits)
  qed
  then obtain l' where l': "admit_all sha1 ks l = Inr l'" "sketch_ok l'" "main l' = []"
    "length (window l') = nat cap" "capacity l' = cap" "window_size l' \<le> cap"
    using admit_all_fills_window [OF l(1,3), of ks sha1] assms(4,5) cap by auto
  obtain l2 where "count_hit sha1 k l' = Inr l2" "window l2 = window l'" "main l2 = main l'"
    "capacity l2 = capacity l'" "window_size l2 = window_size l'"
    by (rule count_hit_ok [OF l'(2)])
  with l' cap have "lfu_admit sha1 k l' = Inl StopIteration" by (simp add: lfu_admit_def)
  with l' cap show ?thesis by (auto simp: lfu_size_def)
qed

theorem lfu_admit_raises_when_full_witness:
  "\<exists>l. TinyLFU 2 (1 / 100) 8 = Inr l \<and>
    (\<exists>l'. admit_all length [''a'', ''b''] l = Inr l' \<and> lfu_size l' = 2 \<and> lfu_admit length ''c'' l' = Inl StopIteration)"
proof -
  have "TinyLFU 2 (1 / 100) 8 = Inr \<lparr>capacity = 2, window_size = 1, main_size = 1, sketch_size = 8,
      sketch = replicate 8 0, lfu_counter = 0, window = [], main = []\<rparr>"
    by (simp add: TinyLFU_def Let_def)
  with lfu_admit_raises_when_full [OF this, of "[''a'', ''b'']" length "''c''"] show ?thesis by simp
qed

text \<open>
  Whatever policy is configured, an eviction order that is computed lists every candidate
  exactly once.
\<close>

theorem eviction_order_is_permutation:
  assumes "policy_order sha1 ep candidates access now = Inr hs"
  shows "mset hs = mset (map fst candidates)"
  using assms by (rule policy.order_permutes)

theorem eviction_order_is_permutation_witness:
  "\<exists>hs. policy_order length WeightedLRU
      [(''a'', sample_fragment ''public'' 1), (''b'', sample_fragment ''acme'' 2)] [(''a'', 5), (''b'', 3)] 9 = Inr hs
    \<and> mset hs = {#''a'', ''b''#}"
proof -
  obtain hs where hs: "policy_order length WeightedLRU
      [(''a'', sample_fragment ''public'' 1), (''b'', sample_fragment ''acme'' 2)] [(''a'', 5), (''b'', 3)] 9 = Inr hs"
    by simp
  from eviction_order_is_permutation [OF this] hs show ?thesis by (intro exI [of _ hs]) simp
qed

text \<open>
  The prefetcher asks for every key at most once in its whole life: over any sequence of
  accesses the keys it loads are distinct, and they are exactly the co-access neighbours of the
  accessed keys that it had not seen before.
\<close>

theorem prefetch_at_most_once:
  "distinct (snd (prefetch_run nbrs ks p))
   \<and> set (snd (prefetch_run nbrs ks p)) = set (concat (map nbrs ks)) - seen p"
  using prefetch_run_spec [of nbrs ks p] by blast

text \<open>
  The router weights always come out normalised: the four components sum to 1, whatever the
  configured weights.
\<close>

theorem normalised_sums_to_one:
  "(case normalised w of (a, b, c, d) \<Rightarrow> a + b + c + d) = 1"
proof (cases "latency_ms w + bandwidth_cost w + gpu_load w + memory_pressure w \<le> 0")
  case False
  then show ?thesis
    by (simp add: normalised_def Let_def add_divide_distrib [symmetric])
qed (simp add: normalised_def)

text \<open>
  A hit moves a reuse score towards the observation \<open>1 - decay\<close> and keeps it in the unit
  interval; with the default observer a fragment whose score is above 0.95 loses score by a hit.
\<close>

theorem hit_score_moves_to_observation:
  assumes "0 \<le> alpha ob" and "alpha ob \<le> 1" and "0 \<le> decay ob" and "decay ob \<le> 1" and "s \<in> {0..1}"
  shows "hit_score ob s \<in> {0..1} \<and> hit_score ob s \<in> {min s (1 - decay ob)..max s (1 - decay ob)}
    \<and> (hit_score HitObserver s < s \<longleftrightarrow> 95 / 100 < s)"
proof -
  have conv: "min s x \<le> a * x + (1 - a) * s \<and> a * x + (1 - a) * s \<le> max s x"
    if "0 \<le> a" "a \<le> 1" for a x :: real
  proof -
    have eq: "a * x + (1 - a) * s = s + a * (x - s)" by (simp add: algebra_simps)
    have "a * \<bar>x - s\<bar> \<le> \<bar>x - s\<bar>" using that by (simp add: mult_left_le_one_le)
    then show ?thesis unfolding eq
      by (cases "s \<le> x") (auto simp: min_def max_def that mult_nonneg_nonpos algebra_simps intro: mult_left_mono)
  qed
  show ?thesis
    using conv [OF assms(1,2), of "1 - decay ob"] assms(3-5)
    by (auto simp: hit_score_def HitObserver_def Let_def max_def min_def split: if_splits)
qed

theorem hit_score_moves_to_observation_witness:
  "hit_score HitObserver (99 / 100) \<in> {0..1} \<and> hit_score HitObserver (99 / 100) < 99 / 100"
  using hit_score_moves_to_observation [of HitObserver "99 / 100"] by (simp add: HitObserver_def)

end
