(* ===== verification/Wire.thy ===== *)
theory Wire
  imports Fragment
begin

text \<open>
  The wire format of fragments: \<open>PayloadIdentity.to_dict\<close> and \<open>from_dict\<close> of
  \<open>membrane/identity.py\<close> and \<open>to_dict\<close> and \<open>from_dict\<close> of \<open>membrane/serialization.py\<close>, on JSON
  values, with Python's coercions \<open>int\<close>, \<open>float\<close> and \<open>str\<close>. The text of a value that is neither a
  string nor an integer and the value of a float literal in a string are arguments of the
  definitions (\<open>repr\<close>, \<open>parse_float\<close>). A payload reference that is neither a string nor null is
  kept as it is by the code; fragments of this development have typed references, so that case is
  the separate error \<open>UntypedValue\<close>.
\<close>

section \<open>JSON values and coercions\<close>

datatype json =
    JNull | JBool bool | JInt int | JFloat real | JStr string
  | JList "json list" | JObj "(string \<times> json) list"

definition is_space :: "char \<Rightarrow> bool" where
  "is_space c = (c \<in> {CHR '' '', CHR 0x09, CHR 0x0A, CHR 0x0B, CHR 0x0C, CHR 0x0D, CHR 0x1C, CHR 0x1D, CHR 0x1E, CHR 0x1F})"

definition strip :: "string \<Rightarrow> string" where
  "strip s = rev (dropWhile is_space (rev (dropWhile is_space s)))"

text \<open>Digits with single underscores between them.\<close>

fun digits_ok :: "string \<Rightarrow> bool" where
  "digits_ok [] = False"
| "digits_ok [c] = is_digit_char c"
| "digits_ok (c # d # s) =
     (is_digit_char c \<and> (if d = CHR ''_'' then digits_ok s else digits_ok (d # s)))"

definition int_of_string :: "string \<Rightarrow> int result" where
  "int_of_string s0 =
     (let s = strip s0;
          (neg, body) = (case s of c # rest \<Rightarrow> if c = CHR ''-'' then (True, rest)
                                     else if c = CHR ''+'' then (False, rest) else (False, s)
                         | [] \<Rightarrow> (False, []))
      in if digits_ok body
         then let n = int (int_of_digits (filter (\<lambda>c. c \<noteq> CHR ''_'') body)) in Inr (if neg then - n else n)
         else Inl ValueError)"

fun to_int :: "json \<Rightarrow> int result" where
  "to_int (JInt n) = Inr n"
| "to_int (JBool b) = Inr (if b then 1 else 0)"
| "to_int (JFloat x) = Inr (if x \<ge> 0 then \<lfloor>x\<rfloor> else \<lceil>x\<rceil>)"
| "to_int (JStr s) = int_of_string s"
| "to_int _ = Inl TypeError"

fun to_float :: "(string \<Rightarrow> real option) \<Rightarrow> json \<Rightarrow> real result" where
  "to_float pf (JFloat x) = Inr x"
| "to_float pf (JInt n) = Inr (of_int n)"
| "to_float pf (JBool b) = Inr (if b then 1 else 0)"
| "to_float pf (JStr s) = (case pf s of None \<Rightarrow> Inl ValueError | Some x \<Rightarrow> Inr x)"
| "to_float pf _ = Inl TypeError"

fun to_str :: "(json \<Rightarrow> string) \<Rightarrow> json \<Rightarrow> string" where
  "to_str repr (JStr s) = s"
| "to_str repr (JInt n) = str_int n"
| "to_str repr v = repr v"

text \<open>What \<open>for x in v\<close> walks over.\<close>

fun iterate :: "json \<Rightarrow> json list result" where
  "iterate (JList vs) = Inr vs"
| "iterate (JStr s) = Inr (map (\<lambda>c. JStr [c]) s)"
| "iterate (JObj d) = Inr (map (\<lambda>(k, _). JStr k) d)"
| "iterate _ = Inl TypeError"

definition ints_of :: "json \<Rightarrow> int list result" where
  "ints_of v = bind_result (iterate v) (map_result to_int)"

definition pair_of :: "int list \<Rightarrow> (int \<times> int) result" where
  "pair_of xs =
     bind_result (py_index xs 0) (\<lambda>i. bind_result (py_index xs 1) (\<lambda>j. Inr (xs ! i, xs ! j)))"

text \<open>\<open>data[k]\<close> on an object.\<close>

definition item :: "(string \<times> json) list \<Rightarrow> string \<Rightarrow> json result" where
  "item d k = (case map_of d k of None \<Rightarrow> Inl KeyError | Some v \<Rightarrow> Inr v)"

section \<open>Identities\<close>

definition identity_to_dict :: "payload_identity \<Rightarrow> json" where
  "identity_to_dict i = JObj
     [(''payload_hash'', JStr (payload_hash i)), (''model_id'', JStr (model_id i)),
      (''model_revision'', JStr (model_revision i)), (''tokenizer_name'', JStr (tokenizer_name i)),
      (''tokenizer_revision'', JStr (tokenizer_revision i)),
      (''layer_range'', JList [JInt (fst (layer_range i)), JInt (snd (layer_range i))]),
      (''head_range'', JList [JInt (fst (head_range i)), JInt (snd (head_range i))]),
      (''token_span'', JList [JInt (fst (token_span i)), JInt (snd (token_span i))]),
      (''dtype'', JStr (dtype i)), (''shape'', JList (map JInt (shape i)))]"

definition identity_fields :: "string list" where
  "identity_fields =
     [''payload_hash'', ''model_id'', ''model_revision'', ''tokenizer_name'', ''tokenizer_revision'',
      ''layer_range'', ''head_range'', ''token_span'', ''dtype'', ''shape'']"

definition identity_of_obj :: "(json \<Rightarrow> string) \<Rightarrow> (string \<times> json) list \<Rightarrow> payload_identity result" where
  "identity_of_obj repr d =
     (if list_ex (\<lambda>k. \<not> dict_has d k) identity_fields then Inl ValueError
      else
        bind_result (item d ''layer_range'') (\<lambda>v. bind_result (ints_of v) (\<lambda>layers.
        bind_result (item d ''head_range'') (\<lambda>v. bind_result (ints_of v) (\<lambda>heads.
        bind_result (item d ''token_span'') (\<lambda>v. bind_result (ints_of v) (\<lambda>span.
        bind_result (item d ''shape'') (\<lambda>v. bind_result (ints_of v) (\<lambda>shp.
        bind_result (item d ''payload_hash'') (\<lambda>ph.
        bind_result (item d ''model_id'') (\<lambda>mi.
        bind_result (item d ''model_revision'') (\<lambda>mr.
        bind_result (item d ''tokenizer_name'') (\<lambda>tn.
        bind_result (item d ''tokenizer_revision'') (\<lambda>tr.
        bind_result (pair_of layers) (\<lambda>lr.
        bind_result (pair_of heads) (\<lambda>hr.
        bind_result (pair_of span) (\<lambda>ts.
        bind_result (item d ''dtype'') (\<lambda>dt.
          PayloadIdentity
            \<lparr>payload_hash = to_str repr ph, model_id = to_str repr mi, model_revision = to_str repr mr,
             tokenizer_name = to_str repr tn, tokenizer_revision = to_str repr tr,
             layer_range = lr, head_range = hr, token_span = ts, dtype = to_str repr dt,
             shape = shp\<rparr>))))))))))))))))))"

text \<open>
  \<open>k not in data\<close> also works on a string (substring) and on a list (membership); such data then
  cannot be subscripted by a field name.
\<close>

fun substring :: "string \<Rightarrow> string \<Rightarrow> bool" where
  "substring p [] = (p = [])"
| "substring p (c # s) = (take (length p) (c # s) = p \<or> substring p s)"

fun identity_from_dict :: "(json \<Rightarrow> string) \<Rightarrow> json \<Rightarrow> payload_identity result" where
  "identity_from_dict repr (JObj d) = identity_of_obj repr d"
| "identity_from_dict repr (JStr s) =
     (if list_all (\<lambda>k. substring k s) identity_fields then Inl TypeError else Inl ValueError)"
| "identity_from_dict repr (JList vs) =
     (if list_all (\<lambda>k. JStr k \<in> set vs) identity_fields then Inl TypeError else Inl ValueError)"
| "identity_from_dict repr _ = Inl TypeError"

section \<open>Fragments\<close>

definition SCHEMA_VERSION :: int where
  "SCHEMA_VERSION = 5"

definition to_dict :: "fragment \<Rightarrow> (string \<times> json) list" where
  "to_dict f =
     [(''schema_version'', JInt SCHEMA_VERSION), (''tenant_id'', JStr (tenant_id f)),
      (''identity'', identity_to_dict (identity f)),
      (''payload_ref'', (case payload_ref f of None \<Rightarrow> JNull | Some r \<Rightarrow> JStr r)),
      (''payload_size'', JInt (payload_size f)), (''ttl'', JFloat (ttl f)),
      (''reuse_score'', JFloat (reuse_score f)), (''version_id'', JInt (version_id f)),
      (''consistency'', JStr (consistency f)), (''hlc'', JInt (hlc f)),
      (''fingerprint_compat'', JStr (fingerprint_compat f))]"

text \<open>Python's \<open>!=\<close> between a JSON value and an integer.\<close>

fun equals_int :: "json \<Rightarrow> int \<Rightarrow> bool" where
  "equals_int (JInt m) n = (m = n)"
| "equals_int (JFloat x) n = (x = of_int n)"
| "equals_int (JBool b) n = ((if b then 1 else 0) = n)"
| "equals_int _ n = False"

fun ref_of :: "json \<Rightarrow> string option result" where
  "ref_of JNull = Inr None"
| "ref_of (JStr s) = Inr (Some s)"
| "ref_of _ = Inl UntypedValue"

definition decode_fragment ::
  "(json \<Rightarrow> string) \<Rightarrow> (string \<Rightarrow> real option) \<Rightarrow> (string \<times> json) list \<Rightarrow> fragment result" where
  "decode_fragment repr pf d =
     bind_result (item d ''identity'') (\<lambda>iv. bind_result (identity_from_dict repr iv) (\<lambda>i.
     if \<not> dict_has d ''consistency'' then Inl SchemaError
     else if \<not> dict_has d ''hlc'' then Inl SchemaError
     else if \<not> dict_has d ''fingerprint_compat'' then Inl SchemaError
     else
       let tenant = to_str repr (dict_get d ''tenant_id'' (JStr ''public'')) in
       bind_result (item d ''payload_ref'') (\<lambda>rv. bind_result (ref_of rv) (\<lambda>ref.
       bind_result (item d ''payload_size'') (\<lambda>v. bind_result (to_int v) (\<lambda>nbytes.
       bind_result (item d ''ttl'') (\<lambda>v. bind_result (to_float pf v) (\<lambda>life.
       bind_result (item d ''reuse_score'') (\<lambda>v. bind_result (to_float pf v) (\<lambda>score.
       bind_result (item d ''version_id'') (\<lambda>v. bind_result (to_int v) (\<lambda>version.
       bind_result (item d ''consistency'') (\<lambda>cv.
       bind_result (item d ''hlc'') (\<lambda>v. bind_result (to_int v) (\<lambda>stamp.
       bind_result (item d ''fingerprint_compat'') (\<lambda>fv.
         Fragment_new
           \<lparr>identity = i, payload_ref = ref, payload_size = nbytes, ttl = life, reuse_score = score,
            version_id = version, consistency = to_str repr cv, hlc = stamp,
            fingerprint_compat = to_str repr fv, tenant_id = tenant\<rparr>))))))))))))))))"

definition from_dict ::
  "(json \<Rightarrow> string) \<Rightarrow> (string \<Rightarrow> real option) \<Rightarrow> (string \<times> json) list \<Rightarrow> fragment result" where
  "from_dict repr pf d =
     (case map_of d ''schema_version'' of
        None \<Rightarrow> Inl SchemaError
      | Some v \<Rightarrow>
          if \<not> equals_int v SCHEMA_VERSION then Inl SchemaError
          else
            (case decode_fragment repr pf d of
               Inl e \<Rightarrow> Inl (if e = KeyError then SchemaError else e)
             | Inr f \<Rightarrow> Inr f))"

section \<open>Round trips\<close>

lemma ints_of_pair: "ints_of (JList [JInt a, JInt b]) = Inr [a, b]"
  by (simp add: ints_of_def)

lemma ints_of_list: "ints_of (JList (map JInt xs)) = Inr xs"
  by (induction xs) (simp_all add: ints_of_def)

lemma pair_of_list: "pair_of [a, b] = Inr (a, b)"
  by (simp add: pair_of_def py_index_def)

lemma identity_round_trip: "identity_ok i \<Longrightarrow> identity_from_dict repr (identity_to_dict i) = Inr i"
proof -
  assume "identity_ok i"
  then have "PayloadIdentity
      \<lparr>payload_hash = payload_hash i, model_id = model_id i, model_revision = model_revision i,
       tokenizer_name = tokenizer_name i, tokenizer_revision = tokenizer_revision i,
       layer_range = layer_range i, head_range = head_range i, token_span = token_span i,
       dtype = dtype i, shape = shape i\<rparr> = Inr i"
    by (cases i) (simp add: PayloadIdentity_def identity_post_init_Inr)
  then show ?thesis
    by (simp add: identity_to_dict_def identity_of_obj_def identity_fields_def dict_has_def item_def
        ints_of_pair ints_of_list pair_of_list)
qed

lemma decode_round_trip:
  assumes "identity_ok (identity f)" and "fragment_ok f"
  shows "decode_fragment repr pf (to_dict f) = Inr f"
proof -
  have new: "Fragment_new
      \<lparr>identity = identity f, payload_ref = payload_ref f, payload_size = payload_size f, ttl = ttl f,
       reuse_score = reuse_score f, version_id = version_id f, consistency = consistency f, hlc = hlc f,
       fingerprint_compat = fingerprint_compat f, tenant_id = tenant_id f\<rparr> = Inr f"
    using assms(2) by (cases f) simp
  show ?thesis
  proof (cases "payload_ref f")
    case None
    with new identity_round_trip [OF assms(1), of repr] show ?thesis
      by (simp add: decode_fragment_def to_dict_def item_def dict_has_def dict_get_def
          del: Fragment_new_Inr)
  next
    case (Some r)
    with new identity_round_trip [OF assms(1), of repr] show ?thesis
      by (simp add: decode_fragment_def to_dict_def item_def dict_has_def dict_get_def
          del: Fragment_new_Inr)
  qed
qed

section \<open>What decoding accepts\<close>

lemma identity_from_dict_ok: "identity_from_dict repr v = Inr i \<Longrightarrow> identity_ok i"
  by (cases v) (auto simp: identity_of_obj_def PayloadIdentity_def identity_post_init_Inr split: if_splits)

lemma decode_fragment_ok:
  assumes "decode_fragment repr pf d = Inr f"
  shows "fragment_ok f \<and> identity_ok (identity f)"
proof -
  obtain iv i where iv: "identity_from_dict repr iv = Inr i" "identity f = i" "fragment_ok f"
    using assms by (auto simp: decode_fragment_def Let_def split: if_splits)
  with identity_from_dict_ok [OF iv(1)] show ?thesis by simp
qed

section \<open>Properties\<close>

text \<open>
  C30. Decoding what was encoded gives the fragment back, for every fragment the constructors
  accept, with or without a payload reference.
\<close>

theorem from_dict_to_dict:
  assumes "identity_ok (identity f)" and "fragment_ok f"
  shows "from_dict repr pf (to_dict f) = Inr f"
proof -
  have "map_of (to_dict f) ''schema_version'' = Some (JInt SCHEMA_VERSION)" by (simp add: to_dict_def)
  with decode_round_trip [OF assms] show ?thesis by (simp add: from_dict_def)
qed

theorem from_dict_to_dict_witness:
  "identity_ok (identity (sample_fragment ''acme'' 3)) \<and> fragment_ok (sample_fragment ''acme'' 3)
   \<and> from_dict (\<lambda>_. []) (\<lambda>_. None) (to_dict (sample_fragment ''acme'' 3)) = Inr (sample_fragment ''acme'' 3)"
proof -
  have "identity_ok (identity (sample_fragment ''acme'' 3))" "fragment_ok (sample_fragment ''acme'' 3)"
    by (simp_all add: sample_fragment_def sample_identity_def identity_ok_def range_ok_def DTYPE_VALUES_def
        fragment_ok_def tenant_ok_def forbidden_tenant_chars_def CONSISTENCY_LEVELS_def)
  with from_dict_to_dict [OF this] show ?thesis by blast
qed

text \<open>
  C31. Whatever object arrives, decoding either fails or yields a fragment and identity that satisfy
  every constructor check; an object without the current schema version, or without one of the
  fields added since, fails with \<open>SchemaError\<close>.
\<close>

theorem from_dict_validates:
  "(case from_dict repr pf d of Inl _ \<Rightarrow> True | Inr f \<Rightarrow> fragment_ok f \<and> identity_ok (identity f))
   \<and> from_dict repr pf (dict_del d ''schema_version'') = Inl SchemaError
   \<and> from_dict repr pf (dict_set d ''schema_version'' (JInt v))
       = (if v = SCHEMA_VERSION then from_dict repr pf (dict_set d ''schema_version'' (JInt 5)) else Inl SchemaError)
   \<and> is_ok (from_dict repr pf (dict_del d ''payload_ref'')) = False"
proof (intro conjI)
  show "case from_dict repr pf d of Inl _ \<Rightarrow> True | Inr f \<Rightarrow> fragment_ok f \<and> identity_ok (identity f)"
    by (auto simp: from_dict_def split: option.splits sum.splits dest: decode_fragment_ok)
  show "is_ok (from_dict repr pf (dict_del d ''payload_ref'')) = False"
    by (auto simp: from_dict_def is_ok_iff decode_fragment_def item_def Let_def split: option.splits sum.splits if_splits)
qed (simp_all add: from_dict_def SCHEMA_VERSION_def)

end
