(* ===== verification/Content.thy ===== *)
theory Content
  imports Policies Wire
begin

text \<open>
  Byte stores: the in-process \<open>ContentStore\<close> of \<open>membrane/content_store.py\<close> and the warm tier of
  \<open>membrane/store/tiered.py\<close> that takes fragments evicted from memory. A byte string is a \<open>string\<close>
  (one character per byte). The warm tier is modelled over the contract of its byte store (a map
  from keys to bytes); the JSON text of its metadata is an argument, encoder and decoder. Its
  worker thread is the operation \<open>drain_one\<close>, one queue item at a time.
\<close>

type_synonym bytes = string

section \<open>The in-process store\<close>

record in_process_bytes =
  blobs :: "(string, bytes) dict"
  stored_bytes :: int
  capacity_bytes :: "int option"

definition InProcessBytes :: "int option \<Rightarrow> in_process_bytes" where
  "InProcessBytes cap = \<lparr>blobs = [], stored_bytes = 0, capacity_bytes = cap\<rparr>"

definition content_put :: "string \<Rightarrow> bytes \<Rightarrow> in_process_bytes \<Rightarrow> in_process_bytes result" where
  "content_put k data s =
     (if (case capacity_bytes s of None \<Rightarrow> False | Some m \<Rightarrow> int (length data) > m) then Inl ValueError
      else
        let previous = map_of (blobs s) k
        in Inr (s\<lparr>blobs := dict_set (blobs s) k data,
                  stored_bytes := stored_bytes s + (int (length data)
                    - (case previous of None \<Rightarrow> 0 | Some p \<Rightarrow> int (length p)))\<rparr>))"

definition content_get :: "in_process_bytes \<Rightarrow> string \<Rightarrow> bytes option" where
  "content_get s k = map_of (blobs s) k"

definition content_has :: "in_process_bytes \<Rightarrow> string \<Rightarrow> bool" where
  "content_has s k = dict_has (blobs s) k"

definition content_delete :: "string \<Rightarrow> in_process_bytes \<Rightarrow> in_process_bytes \<times> bool" where
  "content_delete k s =
     (case map_of (blobs s) k of
        None \<Rightarrow> (s, False)
      | Some removed \<Rightarrow>
          (s\<lparr>blobs := dict_del (blobs s) k, stored_bytes := stored_bytes s - int (length removed)\<rparr>, True))"

definition content_size :: "in_process_bytes \<Rightarrow> int" where
  "content_size s = stored_bytes s"

definition content_len :: "in_process_bytes \<Rightarrow> nat" where
  "content_len s = length (blobs s)"

section \<open>The warm tier\<close>

definition META_PREFIX :: string where
  "META_PREFIX = ''frag-''"

definition DEMOTED_TIERS :: "string list" where
  "DEMOTED_TIERS = [''hot'', ''warm'', ''cold'']"

record warm_tier =
  tier_store :: "(string, bytes) dict"
  tier_capacity :: int
  tier_rules :: tier_policy
  demotions :: int
  promotions :: int
  tier_index :: "(string, int) dict"
  tier_refs :: "(string, int) dict"
  tier_bytes :: int
  tier_pending :: "(string, fragment \<times> bytes option) dict"
  tier_queue :: "string list"

definition reference :: "string option \<Rightarrow> int \<Rightarrow> warm_tier \<Rightarrow> warm_tier \<times> int" where
  "reference ref delta w =
     (case ref of
        None \<Rightarrow> (w, 0)
      | Some r \<Rightarrow>
          let n = dict_get (tier_refs w) r 0 + delta
          in (w\<lparr>tier_refs := (if n > 0 then dict_set (tier_refs w) r n else dict_del (tier_refs w) r)\<rparr>, max n 0))"

definition tier_load :: "(bytes \<Rightarrow> fragment option) \<Rightarrow> warm_tier \<Rightarrow> string \<Rightarrow> fragment option" where
  "tier_load dec w ch =
     (case map_of (tier_store w) (META_PREFIX @ ch) of None \<Rightarrow> None | Some raw \<Rightarrow> dec raw)"

text \<open>\<open>__init__\<close>: index what is on disk, in sorted key order.\<close>

fun tier_scan :: "(bytes \<Rightarrow> fragment option) \<Rightarrow> string list \<Rightarrow> warm_tier \<Rightarrow> warm_tier" where
  "tier_scan dec [] w = w"
| "tier_scan dec (k # ks) w =
     (if take (length META_PREFIX) k = META_PREFIX
      then (case tier_load dec w (drop (length META_PREFIX) k) of
              None \<Rightarrow> tier_scan dec ks w
            | Some f \<Rightarrow>
                tier_scan dec ks (fst (reference (payload_ref f) 1
                  (w\<lparr>tier_index := dict_set (tier_index w) (key f) (payload_size f),
                     tier_bytes := tier_bytes w + payload_size f\<rparr>))))
      else tier_scan dec ks w)"

definition WarmTier ::
  "(bytes \<Rightarrow> fragment option) \<Rightarrow> (string, bytes) dict \<Rightarrow> int \<Rightarrow> tier_policy \<Rightarrow> warm_tier" where
  "WarmTier dec disk cap rules =
     tier_scan dec (sort (map fst disk))
       \<lparr>tier_store = disk, tier_capacity = cap, tier_rules = rules, demotions = 0, promotions = 0,
        tier_index = [], tier_refs = [], tier_bytes = 0, tier_pending = [], tier_queue = []\<rparr>"

definition tier_contains :: "warm_tier \<Rightarrow> string \<Rightarrow> bool" where
  "tier_contains w ch = (dict_has (tier_index w) ch \<or> dict_has (tier_pending w) ch)"

definition demote_later :: "fragment \<Rightarrow> bytes option \<Rightarrow> warm_tier \<Rightarrow> warm_tier" where
  "demote_later f payload w =
     w\<lparr>tier_pending := dict_set (tier_pending w) (key f) (f, payload), tier_queue := tier_queue w @ [key f]\<rparr>"

fun overflow_loop :: "int \<Rightarrow> int \<Rightarrow> (string, int) dict \<Rightarrow> string list" where
  "overflow_loop cap held [] = []"
| "overflow_loop cap held ((ch, n) # rest) =
     (if held \<le> cap then [] else ch # overflow_loop cap (held - n) rest)"

definition evict_overflow :: "warm_tier \<Rightarrow> string list" where
  "evict_overflow w = overflow_loop (tier_capacity w) (tier_bytes w) (tier_index w)"

definition tier_drop :: "(bytes \<Rightarrow> fragment option) \<Rightarrow> string \<Rightarrow> warm_tier \<Rightarrow> warm_tier" where
  "tier_drop dec ch w =
     (let ref = (case tier_load dec w ch of None \<Rightarrow> None | Some f \<Rightarrow> payload_ref f);
          held = map_of (tier_index w) ch;
          w1 = w\<lparr>tier_index := dict_del (tier_index w) ch\<rparr>;
          (w2, shared) = (case held of
             None \<Rightarrow> (w1, False)
           | Some n \<Rightarrow>
               let (w', users) = reference ref (-1) (w1\<lparr>tier_bytes := tier_bytes w1 - n\<rparr>)
               in (w', users > 0));
          w3 = (case ref of
                  None \<Rightarrow> w2
                | Some r \<Rightarrow> if shared then w2 else w2\<lparr>tier_store := dict_del (tier_store w2) r\<rparr>)
      in w3\<lparr>tier_store := dict_del (tier_store w3) (META_PREFIX @ ch)\<rparr>)"

definition demote ::
  "(fragment \<Rightarrow> bytes) \<Rightarrow> (bytes \<Rightarrow> fragment option) \<Rightarrow> fragment \<Rightarrow> bytes option \<Rightarrow> warm_tier \<Rightarrow> warm_tier \<times> bool" where
  "demote enc dec f payload w =
     (if select_tier (tier_rules w) f \<notin> set DEMOTED_TIERS then (w, False)
      else if payload_ref f \<noteq> None \<and> payload = None then (w, False)
      else if payload_size f > tier_capacity w then (w, False)
      else
        let ch = key f;
            w1 = (case (payload_ref f, payload) of
                    (Some r, Some p) \<Rightarrow> w\<lparr>tier_store := dict_set (tier_store w) r p\<rparr>
                  | _ \<Rightarrow> w);
            w2 = w1\<lparr>tier_store := dict_set (tier_store w1) (META_PREFIX @ ch) (enc f)\<rparr>;
            w3 = (if dict_has (tier_index w2) ch then w2
                  else fst (reference (payload_ref f) 1 (w2\<lparr>tier_bytes := tier_bytes w2 + payload_size f\<rparr>)));
            w4 = w3\<lparr>tier_index := dict_move_to_end (dict_set (tier_index w3) ch (payload_size f)) ch,
                    demotions := demotions w3 + 1\<rparr>
        in (foldl (\<lambda>w victim. tier_drop dec victim w) w4 (evict_overflow w4), True))"

definition drain_one :: "(fragment \<Rightarrow> bytes) \<Rightarrow> (bytes \<Rightarrow> fragment option) \<Rightarrow> warm_tier \<Rightarrow> warm_tier" where
  "drain_one enc dec w =
     (case tier_queue w of
        [] \<Rightarrow> w
      | ch # rest \<Rightarrow>
          let w1 = w\<lparr>tier_queue := rest, tier_pending := dict_del (tier_pending w) ch\<rparr>
          in (case map_of (tier_pending w) ch of
                None \<Rightarrow> w1
              | Some (f, payload) \<Rightarrow> fst (demote enc dec f payload w1)))"

definition promote ::
  "(bytes \<Rightarrow> fragment option) \<Rightarrow> string \<Rightarrow> warm_tier \<Rightarrow> warm_tier \<times> (fragment \<times> bytes option) option" where
  "promote dec ch w =
     (case map_of (tier_pending w) ch of
        Some queued \<Rightarrow>
          (w\<lparr>tier_pending := dict_del (tier_pending w) ch, promotions := promotions w + 1\<rparr>, Some queued)
      | None \<Rightarrow>
          if \<not> dict_has (tier_index w) ch then (w, None)
          else
            let fragment = tier_load dec w ch;
                payload = (case fragment of
                             None \<Rightarrow> None
                           | Some f \<Rightarrow> (case payload_ref f of None \<Rightarrow> None | Some r \<Rightarrow> map_of (tier_store w) r));
                w1 = tier_drop dec ch w
            in (case fragment of
                  None \<Rightarrow> (w1, None)
                | Some f \<Rightarrow>
                    if payload_ref f \<noteq> None \<and> payload = None then (w1, None)
                    else (w1\<lparr>promotions := promotions w1 + 1\<rparr>, Some (f, payload))))"

section \<open>Accounting of the in-process store\<close>

definition content_ok :: "in_process_bytes \<Rightarrow> bool" where
  "content_ok s \<longleftrightarrow> dict_ok (blobs s) \<and> stored_bytes s = sum_list (map (\<lambda>e. int (length (snd e))) (blobs s)) \<and>
     (\<forall>m. capacity_bytes s = Some m \<longrightarrow> (\<forall>k data. map_of (blobs s) k = Some data \<longrightarrow> int (length data) \<le> m))"

lemma dict_set_sum:
  fixes f :: "'k \<times> 'v \<Rightarrow> int"
  assumes "dict_ok d"
  shows "sum_list (map f (dict_set d k v)) =
    sum_list (map f d) + f (k, v) - (case map_of d k of None \<Rightarrow> 0 | Some p \<Rightarrow> f (k, p))"
  using assms
proof (induction d)
  case (Cons e d)
  then show ?case by (cases e) (auto simp: map_of_eq_None_iff [symmetric] split: option.splits)
qed simp

lemma content_put_ok: "content_ok s \<Longrightarrow> content_put k data s = Inr s' \<Longrightarrow> content_ok s'"
  using dict_set_sum [of "blobs s" "\<lambda>e. int (length (snd e))" k data]
  by (auto simp: content_ok_def content_put_def Let_def split: if_splits option.splits)

lemma content_delete_ok: "content_ok s \<Longrightarrow> content_ok (fst (content_delete k s))"
  using dict_del_sum [of "blobs s" k _ "\<lambda>e. int (length (snd e))"]
  by (auto simp: content_ok_def content_delete_def simp del: map_of_eq_Some_iff split: option.splits if_splits)

text \<open>The unbounded store is a keyed store.\<close>

interpretation bytes_store: keyed_store
  "\<lambda>k v s. case content_put k v s of Inl _ \<Rightarrow> s | Inr s' \<Rightarrow> s'" content_get
  "\<lambda>k s. fst (content_delete k s)" "\<lambda>s. content_ok s \<and> capacity_bytes s = None"
proof
  show "content_get (case content_put k v s of Inl _ \<Rightarrow> s | Inr s' \<Rightarrow> s') = (content_get s)(k := Some v)"
    if "content_ok s \<and> capacity_bytes s = None" for k v s
    using that by (auto simp: content_get_def content_put_def fun_eq_iff)
  show "content_get (fst (content_delete k s)) = (content_get s)(k := None)" for k s
    by (auto simp: content_get_def content_delete_def fun_eq_iff split: option.splits)
  show "content_ok (case content_put k v s of Inl _ \<Rightarrow> s | Inr s' \<Rightarrow> s') \<and>
      capacity_bytes (case content_put k v s of Inl _ \<Rightarrow> s | Inr s' \<Rightarrow> s') = None"
    if ok: "content_ok s \<and> capacity_bytes s = None" for k v s
  proof -
    have "\<exists>s'. content_put k v s = Inr s' \<and> capacity_bytes s' = None"
      using ok by (simp add: content_put_def)
    then show ?thesis using ok content_put_ok by auto
  qed
  show "content_ok (fst (content_delete k s)) \<and> capacity_bytes (fst (content_delete k s)) = None"
    if "content_ok s \<and> capacity_bytes s = None" for k s
    using that content_delete_ok [of s k] by (auto simp: content_delete_def split: option.splits)
qed

datatype content_op = Put string bytes | Del string

fun content_step :: "in_process_bytes \<Rightarrow> content_op \<Rightarrow> in_process_bytes" where
  "content_step s (Put k data) = (case content_put k data s of Inl _ \<Rightarrow> s | Inr s' \<Rightarrow> s')"
| "content_step s (Del k) = fst (content_delete k s)"

interpretation content_history: stepping content_step content_ok
proof
  show "content_ok (content_step s x)" if "content_ok s" for s x
    using that by (cases x) (auto simp: content_put_ok content_delete_ok split: sum.splits)
qed

section \<open>Properties\<close>

text \<open>
  After any puts and deletes the reported size of the in-process store is exactly the number of
  bytes it holds.
\<close>

theorem content_size_exact:
  "let s = foldl content_step (InProcessBytes cap) ops in
     content_size s = sum_list (map (\<lambda>e. int (length (snd e))) (blobs s)) \<and> dict_ok (blobs s)"
proof -
  have "content_ok (foldl content_step (InProcessBytes cap) ops)"
    by (rule content_history.run_ok) (simp add: content_ok_def InProcessBytes_def)
  then show ?thesis by (simp add: content_ok_def content_size_def Let_def)
qed

text \<open>
  The configured capacity bounds one payload, not what the store retains: two payloads under
  different keys that each fit are both accepted, whatever their sum.
\<close>

theorem content_capacity_is_per_payload:
  assumes "k1 \<noteq> k2" and "int (length d1) \<le> m" and "int (length d2) \<le> m"
  shows "\<exists>s1 s2. content_put k1 d1 (InProcessBytes (Some m)) = Inr s1 \<and> content_put k2 d2 s1 = Inr s2
    \<and> content_size s2 = int (length d1) + int (length d2)"
  using assms by (simp add: content_put_def InProcessBytes_def content_size_def)

theorem content_capacity_is_per_payload_witness:
  "\<exists>s1 s2. content_put ''a'' ''xyz'' (InProcessBytes (Some 4)) = Inr s1 \<and> content_put ''b'' ''uvw'' s1 = Inr s2
    \<and> content_size s2 = 6 \<and> 4 < content_size s2"
  using content_capacity_is_per_payload [of "''a''" "''b''" "''xyz''" 4 "''uvw''"] by auto

end
