(* ===== verification/Warm.thy ===== *)
theory Warm
  imports Content
begin

text \<open>
  Correctness of the warm tier: its byte total, its capacity, the sharing of payloads between
  fragments with the same reference, and that what was demoted can be promoted again.

  The lemmas speak of a set \<open>F\<close> of fragments in use. Content addressing makes size and payload
  reference of a fragment a function of its key (\<open>sz\<close>, \<open>rf\<close>), references do not look like the tier's
  own metadata keys, and the metadata codec returns what it was given.
\<close>

definition is_meta :: "string \<Rightarrow> bool" where
  "is_meta k \<longleftrightarrow> take (length META_PREFIX) k = META_PREFIX"

definition tier_ready ::
  "(fragment \<Rightarrow> bytes) \<Rightarrow> (bytes \<Rightarrow> fragment option) \<Rightarrow> (string \<Rightarrow> int) \<Rightarrow> (string \<Rightarrow> string option) \<Rightarrow> fragment set \<Rightarrow> bool" where
  "tier_ready enc dec sz rf F \<longleftrightarrow> (\<forall>f \<in> F. dec (enc f) = Some f \<and> payload_size f = sz (key f) \<and>
     payload_ref f = rf (key f) \<and> 0 \<le> payload_size f \<and> (\<forall>r. payload_ref f = Some r \<longrightarrow> \<not> is_meta r))"

definition users :: "(string \<Rightarrow> string option) \<Rightarrow> (string, int) dict \<Rightarrow> string \<Rightarrow> int" where
  "users rf idx r = int (length (filter (\<lambda>e. rf (fst e) = Some r) idx))"

definition held ::
  "(bytes \<Rightarrow> fragment option) \<Rightarrow> fragment set \<Rightarrow> (string, bytes) dict \<Rightarrow> string \<Rightarrow> bool" where
  "held dec F disk ch \<longleftrightarrow> (\<exists>f \<in> F. key f = ch \<and>
     (\<exists>raw. map_of disk (META_PREFIX @ ch) = Some raw \<and> dec raw = Some f) \<and>
     (\<forall>r. payload_ref f = Some r \<longrightarrow> dict_has disk r))"

definition tier_inv ::
  "(bytes \<Rightarrow> fragment option) \<Rightarrow> (string \<Rightarrow> int) \<Rightarrow> (string \<Rightarrow> string option) \<Rightarrow> fragment set \<Rightarrow> warm_tier \<Rightarrow> bool" where
  "tier_inv dec sz rf F w \<longleftrightarrow> dict_ok (tier_index w) \<and> tier_bytes w = sum_list (map snd (tier_index w)) \<and>
     (\<forall>(ch, n) \<in> set (tier_index w). n = sz ch \<and> held dec F (tier_store w) ch) \<and>
     (\<forall>r. map_of (tier_refs w) r =
        (if users rf (tier_index w) r = 0 then None else Some (users rf (tier_index w) r)))"

lemma not_meta: "\<not> is_meta r \<Longrightarrow> r \<noteq> META_PREFIX @ ch"
  by (auto simp: is_meta_def)

lemma held_other_meta:
  "held dec F disk ch' \<Longrightarrow> ch' \<noteq> ch \<Longrightarrow> tier_ready enc dec sz rf F \<Longrightarrow>
     held dec F (dict_del disk (META_PREFIX @ ch)) ch'"
  unfolding held_def tier_ready_def by (metis append_eq_append_conv dict_has_del map_of_dict_del not_meta)

lemma held_other_ref:
  "held dec F disk ch' \<Longrightarrow> tier_ready enc dec sz rf F \<Longrightarrow> \<not> is_meta r \<Longrightarrow> rf ch' \<noteq> Some r \<Longrightarrow>
     held dec F (dict_del disk r) ch'"
  unfolding held_def tier_ready_def by (metis dict_has_del map_of_dict_del not_meta)

lemma held_put_ref: "held dec F disk ch \<Longrightarrow> \<not> is_meta r \<Longrightarrow> held dec F (dict_set disk r p) ch"
  unfolding held_def by (metis dict_has_set map_of_dict_set not_meta)

lemma held_put_meta:
  "held dec F disk ch' \<Longrightarrow> ch' \<noteq> ch \<Longrightarrow> held dec F (dict_set disk (META_PREFIX @ ch) raw) ch'"
  unfolding held_def by (metis append_eq_append_conv dict_has_set map_of_dict_set)

lemma held_load:
  assumes "held dec F (tier_store w) ch"
  obtains f where "f \<in> F" and "key f = ch" and "tier_load dec w ch = Some f"
    and "\<And>r. payload_ref f = Some r \<Longrightarrow> dict_has (tier_store w) r"
proof -
  obtain f raw where "f \<in> F" "key f = ch" "map_of (tier_store w) (META_PREFIX @ ch) = Some raw" "dec raw = Some f"
    "\<forall>r. payload_ref f = Some r \<longrightarrow> dict_has (tier_store w) r"
    using assms unfolding held_def by blast
  then show thesis by (intro that) (auto simp: tier_load_def)
qed

lemma users_del:
  assumes "dict_ok idx" and "map_of idx ch = Some n"
  shows "users rf (dict_del idx ch) r = users rf idx r - (if rf ch = Some r then 1 else 0)"
proof -
  have "mset (filter (\<lambda>e. rf (fst e) = Some r) idx)
      = filter_mset (\<lambda>e. rf (fst e) = Some r) (add_mset (ch, n) (mset (dict_del idx ch)))"
    using dict_del_mset [OF assms] by simp
  then have "size (mset (filter (\<lambda>e. rf (fst e) = Some r) idx))
      = (if rf ch = Some r then 1 else 0) + size (mset (filter (\<lambda>e. rf (fst e) = Some r) (dict_del idx ch)))"
    by simp
  then show ?thesis unfolding size_mset by (simp add: users_def)
qed

lemma users_nonneg: "0 \<le> users rf idx r"
  by (simp add: users_def)

lemma users_pos: "e \<in> set idx \<Longrightarrow> rf (fst e) = Some r \<Longrightarrow> 0 < users rf idx r"
  by (auto simp: users_def filter_empty_conv)

text \<open>The counting step on the reference table.\<close>

lemma reference_refs:
  assumes "\<forall>r. map_of (tier_refs w) r = (if u r = 0 then None else Some (u r))" and "\<forall>r. 0 \<le> u r"
    and "\<And>r. ref = Some r \<Longrightarrow> 0 \<le> u r + delta"
  shows "map_of (tier_refs (fst (reference ref delta w))) r
      = (let m = u r + (if ref = Some r then delta else 0) in if m = 0 then None else Some m)"
    "snd (reference (Some r') delta w) = max (u r' + delta) 0"
    "fst (reference ref delta w) = w\<lparr>tier_refs := tier_refs (fst (reference ref delta w))\<rparr>"
proof -
  have get: "dict_get (tier_refs w) x 0 = u x" for x
    using assms(1) by (simp add: dict_get_def)
  show "snd (reference (Some r') delta w) = max (u r' + delta) 0"
    by (simp add: reference_def get Let_def)
  show "fst (reference ref delta w) = w\<lparr>tier_refs := tier_refs (fst (reference ref delta w))\<rparr>"
    by (cases ref) (simp_all add: reference_def Let_def)
  show "map_of (tier_refs (fst (reference ref delta w))) r
      = (let m = u r + (if ref = Some r then delta else 0) in if m = 0 then None else Some m)"
  proof (cases ref)
    case (Some q)
    then have "0 \<le> u q + delta" using assms(3) by blast
    with Some show ?thesis using assms(1) by (auto simp: reference_def get Let_def)
  qed (use assms(1) in \<open>simp add: reference_def Let_def\<close>)
qed

lemma tier_drop_inv:
  assumes ready: "tier_ready enc dec sz rf F" and inv: "tier_inv dec sz rf F w"
    and n: "map_of (tier_index w) ch = Some n"
  shows "tier_inv dec sz rf F (tier_drop dec ch w)"
    "tier_index (tier_drop dec ch w) = dict_del (tier_index w) ch"
    "tier_bytes (tier_drop dec ch w) = tier_bytes w - n"
    "k \<noteq> META_PREFIX @ ch \<Longrightarrow> rf ch \<noteq> Some k \<or> 1 < users rf (tier_index w) k \<Longrightarrow>
       map_of (tier_store (tier_drop dec ch w)) k = map_of (tier_store w) k"
    "tier_pending (tier_drop dec ch w) = tier_pending w" "tier_queue (tier_drop dec ch w) = tier_queue w"
    "tier_capacity (tier_drop dec ch w) = tier_capacity w" "tier_rules (tier_drop dec ch w) = tier_rules w"
proof -
  note iv = inv [unfolded tier_inv_def]
  have mem: "(ch, n) \<in> set (tier_index w)" using n by (rule map_of_SomeD)
  then have "held dec F (tier_store w) ch" using iv by blast
  then obtain f where f: "f \<in> F" "key f = ch" "tier_load dec w ch = Some f"
    by (rule held_load)
  then have ref: "payload_ref f = rf ch" and clean: "\<And>r. rf ch = Some r \<Longrightarrow> \<not> is_meta r"
    using ready unfolding tier_ready_def by metis+
  let ?u = "users rf (tier_index w)"
  define w1 where "w1 = w\<lparr>tier_index := dict_del (tier_index w) ch, tier_bytes := tier_bytes w - n\<rparr>"
  have pos: "rf ch = Some r \<Longrightarrow> 0 \<le> ?u r + - 1" for r
    using users_pos [OF mem, of rf r] by simp
  have refs: "\<forall>r. map_of (tier_refs w1) r = (if ?u r = 0 then None else Some (?u r))"
    using iv by (simp add: w1_def)
  note step = reference_refs [OF refs _ pos]
  define w2 where "w2 = fst (reference (rf ch) (-1) w1)"
  have w2: "w2 = w1\<lparr>tier_refs := tier_refs w2\<rparr>" unfolding w2_def by (rule step(3)) (simp add: users_nonneg)
  have refs2: "map_of (tier_refs w2) r
      = (let m = users rf (dict_del (tier_index w) ch) r in if m = 0 then None else Some m)" for r
    unfolding w2_def using step(1) [where r = r] users_del [OF _ n, of rf r] iv by (simp add: users_nonneg)
  define disk where "disk = (case rf ch of None \<Rightarrow> tier_store w
     | Some r \<Rightarrow> if ?u r > 1 then tier_store w else dict_del (tier_store w) r)"
  have drop: "tier_drop dec ch w = w2\<lparr>tier_store := dict_del disk (META_PREFIX @ ch)\<rparr>"
  proof (cases "rf ch")
    case None
    have "tier_store w2 = tier_store w1" using arg_cong [OF w2, of tier_store] by simp
    then have "tier_store w2 = tier_store w" by (simp add: w1_def)
    with None show ?thesis
      using f(3) ref n by (simp add: tier_drop_def Let_def disk_def w2_def w1_def case_prod_beta)
  next
    case (Some r)
    have snd: "snd (reference (Some r) (-1) w1) = max (?u r - 1) 0"
      using step(2) [where r' = r] by (simp add: users_nonneg)
    have eq: "snd (reference (Some r) (-1) (w\<lparr>tier_index := dict_del (tier_index w) ch, tier_bytes := tier_bytes w - n\<rparr>))
        = max (?u r - 1) 0"
      using snd by (simp only: w1_def)
    have "tier_store w2 = tier_store w1" using arg_cong [OF w2, of tier_store] by simp
    then have st: "tier_store w2 = tier_store w" by (simp add: w1_def)
    show ?thesis
      using f(3) ref n Some eq st by (simp add: tier_drop_def Let_def disk_def w2_def w1_def case_prod_beta)
  qed
  have fields: "tier_index w2 = dict_del (tier_index w) ch" "tier_bytes w2 = tier_bytes w - n"
    "tier_pending w2 = tier_pending w" "tier_queue w2 = tier_queue w" "tier_capacity w2 = tier_capacity w"
    "tier_rules w2 = tier_rules w" "tier_store w2 = tier_store w"
    by (subst w2, simp add: w1_def)+
  show "tier_index (tier_drop dec ch w) = dict_del (tier_index w) ch"
    "tier_bytes (tier_drop dec ch w) = tier_bytes w - n"
    "tier_pending (tier_drop dec ch w) = tier_pending w" "tier_queue (tier_drop dec ch w) = tier_queue w"
    "tier_capacity (tier_drop dec ch w) = tier_capacity w" "tier_rules (tier_drop dec ch w) = tier_rules w"
    by (simp_all add: drop fields)
  show "map_of (tier_store (tier_drop dec ch w)) k = map_of (tier_store w) k"
    if "k \<noteq> META_PREFIX @ ch" "rf ch \<noteq> Some k \<or> 1 < users rf (tier_index w) k"
    using that by (auto simp: drop disk_def split: option.splits)
  have "held dec F (tier_store (tier_drop dec ch w)) ch'" if ch': "(ch', n') \<in> set (dict_del (tier_index w) ch)" for ch' n'
  proof -
    have c: "(ch', n') \<in> set (tier_index w)" "ch' \<noteq> ch"
      using ch' by (auto simp: AList.delete_eq)
    have h: "held dec F (tier_store w) ch'" using iv c(1) by blast
    have "held dec F disk ch'"
    proof (cases "rf ch")
      case (Some r)
      have "?u r > 1" if "rf ch' = Some r"
      proof -
        have "0 < users rf (dict_del (tier_index w) ch) r" using users_pos [OF ch'] that by simp
        then show ?thesis using users_del [OF _ n, of rf r] iv Some by simp
      qed
      then show ?thesis using h held_other_ref [OF h ready clean [OF Some]] by (auto simp: disk_def Some)
    qed (use h in \<open>simp add: disk_def\<close>)
    then show ?thesis using held_other_meta [OF _ c(2) ready] by (simp add: drop)
  qed
  moreover have "sum_list (map snd (dict_del (tier_index w) ch)) = tier_bytes w - n"
    using dict_del_sum [OF _ n, of snd] iv by simp
  moreover have "n' = sz ch'" if "(ch', n') \<in> set (dict_del (tier_index w) ch)" for ch' n'
    using that iv by (auto simp: AList.delete_eq)
  ultimately show "tier_inv dec sz rf F (tier_drop dec ch w)"
    using iv refs2 unfolding tier_inv_def by (auto simp: drop fields Let_def distinct_delete)
qed

lemma indexed_clean:
  assumes "tier_ready enc dec sz rf F" and "tier_inv dec sz rf F w" and "(ch, n) \<in> set (tier_index w)"
    and "rf ch = Some r"
  shows "\<not> is_meta r"
proof -
  have "held dec F (tier_store w) ch" using assms(2,3) unfolding tier_inv_def by blast
  then obtain f where "f \<in> F" "key f = ch" by (rule held_load)
  with assms(1,4) show ?thesis unfolding tier_ready_def by metis
qed

text \<open>Entries that stay keep their metadata and their payload.\<close>

definition kept :: "(string \<Rightarrow> string option) \<Rightarrow> warm_tier \<Rightarrow> warm_tier \<Rightarrow> bool" where
  "kept rf w w' \<longleftrightarrow> (\<forall>e \<in> set (tier_index w').
     map_of (tier_store w') (META_PREFIX @ fst e) = map_of (tier_store w) (META_PREFIX @ fst e) \<and>
     (\<forall>r. rf (fst e) = Some r \<longrightarrow> map_of (tier_store w') r = map_of (tier_store w) r)) \<and>
     tier_pending w' = tier_pending w \<and> tier_queue w' = tier_queue w \<and>
     tier_capacity w' = tier_capacity w \<and> tier_rules w' = tier_rules w"

lemma kept_trans:
  assumes "kept rf w w1" and "kept rf w1 w2" and "set (tier_index w2) \<subseteq> set (tier_index w1)"
  shows "kept rf w w2"
  using assms unfolding kept_def by (metis subsetD)

lemma tier_drop_kept:
  assumes ready: "tier_ready enc dec sz rf F" and inv: "tier_inv dec sz rf F w"
    and n: "map_of (tier_index w) ch = Some n"
  shows "kept rf w (tier_drop dec ch w)"
proof -
  note d = tier_drop_inv [OF ready inv n]
  have mem: "(ch, n) \<in> set (tier_index w)" using n by (rule map_of_SomeD)
  have ok: "dict_ok (tier_index w)" using inv by (simp add: tier_inv_def)
  have "map_of (tier_store (tier_drop dec ch w)) (META_PREFIX @ ch') = map_of (tier_store w) (META_PREFIX @ ch') \<and>
     (\<forall>r. rf ch' = Some r \<longrightarrow> map_of (tier_store (tier_drop dec ch w)) r = map_of (tier_store w) r)"
    if e: "(ch', n') \<in> set (tier_index (tier_drop dec ch w))" for ch' n'
  proof -
    have c: "(ch', n') \<in> set (tier_index w)" "ch' \<noteq> ch" using e by (auto simp: d(2) AList.delete_eq)
    have "rf ch \<noteq> Some (META_PREFIX @ ch')"
      using indexed_clean [OF ready inv mem] by (auto simp: is_meta_def)
    moreover have "1 < users rf (tier_index w) r" if "rf ch' = Some r" "rf ch = Some r" for r
    proof -
      have "0 < users rf (dict_del (tier_index w) ch) r" using users_pos [of "(ch', n')"] e that(1) d(2) by simp
      then show ?thesis using users_del [OF ok n, of rf r] that(2) by simp
    qed
    moreover have "r \<noteq> META_PREFIX @ ch" if "rf ch' = Some r" for r
      using indexed_clean [OF ready inv c(1) that] not_meta by blast
    ultimately show ?thesis using c(2) by (intro conjI allI impI d(4)) auto
  qed
  then show ?thesis using d(5-8) unfolding kept_def by auto
qed

lemma drop_overflow:
  assumes ready: "tier_ready enc dec sz rf F" and "tier_inv dec sz rf F w" and "0 \<le> cap"
    and "w' = foldl (\<lambda>w victim. tier_drop dec victim w) w (overflow_loop cap (tier_bytes w) (tier_index w))"
  shows "tier_inv dec sz rf F w' \<and> tier_bytes w' \<le> cap \<and> kept rf w w' \<and>
    (\<exists>k. tier_index w' = drop k (tier_index w))"
  using assms(2-)
proof (induction "tier_index w" arbitrary: w)
  case Nil
  then show ?case by (auto simp: tier_inv_def kept_def)
next
  case (Cons e rest)
  obtain ch n where e: "e = (ch, n)" by fastforce
  have idx: "tier_index w = (ch, n) # rest" using Cons.hyps(2) e by simp
  have n: "map_of (tier_index w) ch = Some n" by (simp add: idx)
  show ?case
  proof (cases "tier_bytes w \<le> cap")
    case True
    then have "w' = w" using Cons.prems(3) by (simp add: idx)
    with True Cons.prems show ?thesis by (auto simp: kept_def intro: exI [of _ 0])
  next
    case False
    note d = tier_drop_inv [OF ready Cons.prems(1) n]
    have "ch \<notin> fst ` set rest" using Cons.prems(1) by (auto simp: tier_inv_def idx)
    then have rest: "tier_index (tier_drop dec ch w) = rest" by (simp add: d(2) idx delete_notin_dom)
    have "tier_inv dec sz rf F w' \<and> tier_bytes w' \<le> cap \<and> kept rf (tier_drop dec ch w) w' \<and>
        (\<exists>k. tier_index w' = drop k (tier_index (tier_drop dec ch w)))"
      using False Cons.prems(2,3) by (intro Cons.hyps(1)) (simp_all add: rest d(1,3) idx)
    moreover from this obtain k where k: "tier_index w' = drop k rest" by (auto simp: rest)
    moreover from k have "set (tier_index w') \<subseteq> set (tier_index (tier_drop dec ch w))"
      by (simp add: rest set_drop_subset)
    ultimately show ?thesis
      using kept_trans [OF tier_drop_kept [OF ready Cons.prems(1) n]] by (auto simp: idx intro: exI [of _ "Suc k"])
  qed
qed

lemma overflow_spares_last:
  assumes "held' = sum_list (map snd idx) + n" and "n \<le> cap" and "ch \<notin> fst ` set idx"
  shows "ch \<notin> set (overflow_loop cap held' (idx @ [(ch, n)]))"
  using assms
proof (induction idx arbitrary: held')
  case (Cons e idx)
  then show ?case by (cases e) auto
qed auto

lemma foldl_drop_keeps:
  assumes ready: "tier_ready enc dec sz rf F" and "tier_inv dec sz rf F w" and "ch \<notin> set vs"
    and "distinct vs" and "set vs \<subseteq> fst ` set (tier_index w)" and "map_of (tier_index w) ch = Some n"
  shows "map_of (tier_index (foldl (\<lambda>w victim. tier_drop dec victim w) w vs)) ch = Some n"
  using assms(2-)
proof (induction vs arbitrary: w)
  case (Cons v vs)
  then obtain m where m: "map_of (tier_index w) v = Some m"
    by (metis list.set_intros(1) map_of_eq_None_iff not_None_eq subsetD)
  note d = tier_drop_inv [OF ready Cons.prems(1) m]
  have "set vs \<subseteq> fst ` set (tier_index (tier_drop dec v w))"
  proof -
    have "fst ` set (dict_del (tier_index w) v) = fst ` set (tier_index w) - {v}"
      using dict_del_keys [of v "tier_index w"] by simp
    with Cons.prems(3,4) show ?thesis by (auto simp: d(2))
  qed
  moreover have "map_of (tier_index (tier_drop dec v w)) ch = Some n" using Cons.prems by (auto simp: d(2))
  ultimately show ?case using Cons.prems by (auto intro!: Cons.IH d(1))
qed simp

lemma overflow_loop_prefix: "\<exists>k. overflow_loop cap t idx = map fst (take k idx)"
proof (induction idx arbitrary: t)
  case Nil
  show ?case by simp
next
  case (Cons e idx)
  obtain ch n where e: "e = (ch, n)" by fastforce
  obtain k where "overflow_loop cap (t - n) idx = map fst (take k idx)" using Cons by blast
  then show ?case by (auto simp: e intro: exI [of _ 0] exI [of _ "Suc k"])
qed

section \<open>Demotion and promotion\<close>

lemma users_move:
  assumes "dict_ok idx"
  shows "users rf (dict_del idx ch @ [(ch, n)]) r =
    users rf idx r + (if dict_has idx ch then 0 else if rf ch = Some r then 1 else 0)"
proof (cases "map_of idx ch")
  case None
  then have "dict_del idx ch = idx" by (simp add: map_of_eq_None_iff delete_notin_dom)
  then show ?thesis using None by (simp add: users_def dict_has_def)
next
  case (Some m)
  then show ?thesis using users_del [OF assms Some, of rf r] by (simp add: users_def dict_has_def)
qed

text \<open>The state of a demotion that is accepted, before the overflow is dropped.\<close>

definition demoted :: "(fragment \<Rightarrow> bytes) \<Rightarrow> fragment \<Rightarrow> bytes option \<Rightarrow> warm_tier \<Rightarrow> warm_tier" where
  "demoted enc f payload w =
     (let ch = key f;
          w1 = (case (payload_ref f, payload) of
                  (Some r, Some p) \<Rightarrow> w\<lparr>tier_store := dict_set (tier_store w) r p\<rparr>
                | _ \<Rightarrow> w);
          w2 = w1\<lparr>tier_store := dict_set (tier_store w1) (META_PREFIX @ ch) (enc f)\<rparr>;
          w3 = (if dict_has (tier_index w2) ch then w2
                else fst (reference (payload_ref f) 1 (w2\<lparr>tier_bytes := tier_bytes w2 + payload_size f\<rparr>)))
      in w3\<lparr>tier_index := dict_move_to_end (dict_set (tier_index w3) ch (payload_size f)) ch,
            demotions := demotions w3 + 1\<rparr>)"

definition accepts_demotion :: "fragment \<Rightarrow> bytes option \<Rightarrow> warm_tier \<Rightarrow> bool" where
  "accepts_demotion f payload w \<longleftrightarrow> select_tier (tier_rules w) f \<in> set DEMOTED_TIERS \<and>
     (payload_ref f = None \<or> payload \<noteq> None) \<and> payload_size f \<le> tier_capacity w"

lemma demote_eq:
  "demote enc dec f payload w =
     (if accepts_demotion f payload w
      then (foldl (\<lambda>w victim. tier_drop dec victim w) (demoted enc f payload w)
              (evict_overflow (demoted enc f payload w)), True)
      else (w, False))"
  by (auto simp: demote_def accepts_demotion_def demoted_def Let_def)

lemma demoted_fields:
  assumes ready: "tier_ready enc dec sz rf F" and inv: "tier_inv dec sz rf F w" and f: "f \<in> F"
  shows "tier_index (demoted enc f payload w) = dict_del (tier_index w) (key f) @ [(key f, payload_size f)]"
    "tier_bytes (demoted enc f payload w)
       = tier_bytes w + (if dict_has (tier_index w) (key f) then 0 else payload_size f)"
    "map_of (tier_refs (demoted enc f payload w)) r
       = (let m = users rf (tier_index (demoted enc f payload w)) r in if m = 0 then None else Some m)"
    "tier_pending (demoted enc f payload w) = tier_pending w" "tier_queue (demoted enc f payload w) = tier_queue w"
    "tier_capacity (demoted enc f payload w) = tier_capacity w" "tier_rules (demoted enc f payload w) = tier_rules w"
    "tier_store (demoted enc f payload w) = dict_set
       (case (payload_ref f, payload) of (Some r, Some p) \<Rightarrow> dict_set (tier_store w) r p | _ \<Rightarrow> tier_store w)
       (META_PREFIX @ key f) (enc f)"
proof -
  define w1 where "w1 = (case (payload_ref f, payload) of
      (Some r, Some p) \<Rightarrow> w\<lparr>tier_store := dict_set (tier_store w) r p\<rparr> | _ \<Rightarrow> w)"
  define w2 where "w2 = w1\<lparr>tier_store := dict_set (tier_store w1) (META_PREFIX @ key f) (enc f)\<rparr>"
  define w3 where "w3 = (if dict_has (tier_index w2) (key f) then w2
      else fst (reference (payload_ref f) 1 (w2\<lparr>tier_bytes := tier_bytes w2 + payload_size f\<rparr>)))"
  have dem: "demoted enc f payload w = w3\<lparr>tier_index :=
      dict_move_to_end (dict_set (tier_index w3) (key f) (payload_size f)) (key f), demotions := demotions w3 + 1\<rparr>"
    by (simp add: demoted_def Let_def w1_def w2_def w3_def)
  have w1: "tier_index w1 = tier_index w" "tier_bytes w1 = tier_bytes w" "tier_refs w1 = tier_refs w"
    "tier_pending w1 = tier_pending w" "tier_queue w1 = tier_queue w" "tier_capacity w1 = tier_capacity w"
    "tier_rules w1 = tier_rules w"
    "tier_store w1 = (case (payload_ref f, payload) of (Some r, Some p) \<Rightarrow> dict_set (tier_store w) r p | _ \<Rightarrow> tier_store w)"
    by (simp_all add: w1_def split: option.splits)
  let ?u = "users rf (tier_index w)"
  have refs: "\<forall>r. map_of (tier_refs (w2\<lparr>tier_bytes := tier_bytes w2 + payload_size f\<rparr>)) r
      = (if ?u r = 0 then None else Some (?u r))"
    using inv by (simp add: tier_inv_def w2_def w1)
  have nn: "\<forall>r. 0 \<le> ?u r" by (simp add: users_nonneg)
  have up: "\<And>r. payload_ref f = Some r \<Longrightarrow> 0 \<le> ?u r + 1" using nn by (simp add: add_nonneg_nonneg)
  note step = reference_refs [OF refs nn up]
  have w3: "tier_index w3 = tier_index w" "tier_pending w3 = tier_pending w" "tier_queue w3 = tier_queue w"
    "tier_capacity w3 = tier_capacity w" "tier_rules w3 = tier_rules w" "tier_store w3 = tier_store w2"
    "tier_bytes w3 = tier_bytes w + (if dict_has (tier_index w) (key f) then 0 else payload_size f)"
    unfolding w3_def by (cases "dict_has (tier_index w2) (key f)"; subst step(3); simp add: w2_def w1)+
  have pref: "payload_ref f = rf (key f)" using ready f unfolding tier_ready_def by blast
  have ok: "dict_ok (tier_index w)" using inv by (simp add: tier_inv_def)
  show idx: "tier_index (demoted enc f payload w) = dict_del (tier_index w) (key f) @ [(key f, payload_size f)]"
    by (simp add: dem w3 dict_move_to_end_def delete_update_same)
  show "map_of (tier_refs (demoted enc f payload w)) r
       = (let m = users rf (tier_index (demoted enc f payload w)) r in if m = 0 then None else Some m)"
    unfolding idx users_move [OF ok]
    using step(1) [where r = r] refs pref by (simp add: dem w3_def w2_def w1 Let_def)
  show "tier_bytes (demoted enc f payload w)
       = tier_bytes w + (if dict_has (tier_index w) (key f) then 0 else payload_size f)"
    "tier_pending (demoted enc f payload w) = tier_pending w" "tier_queue (demoted enc f payload w) = tier_queue w"
    "tier_capacity (demoted enc f payload w) = tier_capacity w" "tier_rules (demoted enc f payload w) = tier_rules w"
    "tier_store (demoted enc f payload w) = dict_set
       (case (payload_ref f, payload) of (Some r, Some p) \<Rightarrow> dict_set (tier_store w) r p | _ \<Rightarrow> tier_store w)
       (META_PREFIX @ key f) (enc f)"
    by (simp_all add: dem w3 w2_def w1)
qed

lemma demoted_store:
  assumes ready: "tier_ready enc dec sz rf F" and f: "f \<in> F" and acc: "accepts_demotion f payload w"
    and disk: "disk = dict_set
       (case (payload_ref f, payload) of (Some r, Some p) \<Rightarrow> dict_set (tier_store w) r p | _ \<Rightarrow> tier_store w)
       (META_PREFIX @ key f) (enc f)"
  shows "map_of disk (META_PREFIX @ key f) = Some (enc f)"
    "payload_ref f = Some r \<Longrightarrow> map_of disk r = payload"
    "held dec F disk (key f)"
    "held dec F (tier_store w) ch \<Longrightarrow> ch \<noteq> key f \<Longrightarrow> held dec F disk ch"
proof -
  have clean: "\<not> is_meta r" if "payload_ref f = Some r" for r
    using ready f that unfolding tier_ready_def by blast
  show m: "map_of disk (META_PREFIX @ key f) = Some (enc f)" by (simp add: disk)
  have r: "map_of disk r = payload \<and> payload \<noteq> None" if ref: "payload_ref f = Some r" for r
  proof -
    obtain p where "payload = Some p" using acc ref by (auto simp: accepts_demotion_def)
    then show ?thesis using not_meta [OF clean [OF ref], of "key f"] by (simp add: disk ref)
  qed
  then show "map_of disk r = payload" if "payload_ref f = Some r" using that by blast
  have "dec (enc f) = Some f" using ready f unfolding tier_ready_def by blast
  then show "held dec F disk (key f)"
    unfolding held_def using f m r by (intro bexI [of _ f]) (auto simp: dict_has_def)
  show "held dec F disk ch" if "held dec F (tier_store w) ch" "ch \<noteq> key f"
    unfolding disk using that clean
    by (intro held_put_meta) (auto intro: held_put_ref split: option.splits)
qed

lemma demoted_inv:
  assumes ready: "tier_ready enc dec sz rf F" and inv: "tier_inv dec sz rf F w" and f: "f \<in> F"
    and acc: "accepts_demotion f payload w"
  shows "tier_inv dec sz rf F (demoted enc f payload w)"
proof -
  note d = demoted_fields [OF ready inv f, where payload = payload]
  note st = demoted_store [OF ready f acc d(8)]
  note iv = inv [unfolded tier_inv_def]
  have sz: "payload_size f = sz (key f)" using ready f unfolding tier_ready_def by blast
  have mem: "n = sz ch \<and> held dec F (tier_store (demoted enc f payload w)) ch"
    if e: "(ch, n) \<in> set (tier_index (demoted enc f payload w))" for ch n
  proof (cases "ch = key f")
    case True
    then show ?thesis using e sz st(3) by (auto simp: d(1) AList.delete_eq)
  next
    case False
    then have "(ch, n) \<in> set (tier_index w)" using e by (auto simp: d(1) AList.delete_eq)
    then show ?thesis using iv st(4) [OF _ False] by blast
  qed
  have ok: "dict_ok (tier_index (demoted enc f payload w))"
    using iv dict_del_keys [of "key f" "tier_index w"] by (simp add: d(1) distinct_delete)
  have bytes: "tier_bytes (demoted enc f payload w) = sum_list (map snd (tier_index (demoted enc f payload w)))"
  proof (cases "map_of (tier_index w) (key f)")
    case None
    then show ?thesis using iv by (simp add: d(1,2) dict_has_def map_of_eq_None_iff delete_notin_dom)
  next
    case (Some n)
    moreover have "n = sz (key f)" using iv map_of_SomeD [OF Some] by blast
    ultimately show ?thesis using iv dict_del_sum [OF _ Some, of snd] sz by (simp add: d(1,2) dict_has_def)
  qed
  show ?thesis
    unfolding tier_inv_def using ok bytes mem d(3) by (auto simp: Let_def)
qed

lemma demote_inv:
  assumes ready: "tier_ready enc dec sz rf F" and inv: "tier_inv dec sz rf F w" and f: "f \<in> F"
    and acc: "accepts_demotion f payload w" and w': "demote enc dec f payload w = (w', b)"
  shows "b" "tier_inv dec sz rf F w'" "tier_bytes w' \<le> tier_capacity w'" "tier_capacity w' = tier_capacity w"
    "kept rf (demoted enc f payload w) w'" "dict_has (tier_index w') (key f)"
    "tier_pending w' = tier_pending w"
proof -
  let ?d = "demoted enc f payload w" and ?vs = "evict_overflow (demoted enc f payload w)"
  note d = demoted_fields [OF ready inv f, where payload = payload]
  note di = demoted_inv [OF ready inv f acc]
  have w'_eq: "w' = foldl (\<lambda>w victim. tier_drop dec victim w) ?d ?vs" and b: "b"
    using w' acc by (simp_all add: demote_eq)
  have cap: "0 \<le> tier_capacity ?d" using ready f acc by (auto simp: d(6) tier_ready_def accepts_demotion_def)
  have o: "tier_inv dec sz rf F w'" "tier_bytes w' \<le> tier_capacity ?d" "kept rf ?d w'"
    using drop_overflow [OF ready di cap w'_eq [unfolded evict_overflow_def]] by blast+
  have "key f \<notin> set ?vs"
    unfolding evict_overflow_def d(1)
  proof (rule overflow_spares_last)
    show "tier_bytes ?d = sum_list (map snd (dict_del (tier_index w) (key f))) + payload_size f"
      using di d(1) by (simp add: tier_inv_def)
    show "payload_size f \<le> tier_capacity ?d" using acc by (simp add: d(6) accepts_demotion_def)
    show "key f \<notin> fst ` set (dict_del (tier_index w) (key f))" by (auto simp: AList.delete_eq)
  qed
  moreover obtain k where k: "?vs = map fst (take k (tier_index ?d))"
    using overflow_loop_prefix unfolding evict_overflow_def by blast
  moreover have "distinct ?vs" using di unfolding k tier_inv_def take_map [symmetric] by (simp add: distinct_take)
  moreover have "set ?vs \<subseteq> fst ` set (tier_index ?d)" unfolding k by (auto dest: in_set_takeD)
  moreover have "map_of (tier_index ?d) (key f) = Some (payload_size f)"
    by (simp add: d(1) map_add_def)
  ultimately have "map_of (tier_index w') (key f) = Some (payload_size f)"
    unfolding w'_eq by (intro foldl_drop_keeps [OF ready di])
  then show "dict_has (tier_index w') (key f)" by (simp add: dict_has_def)
  show "b" "tier_inv dec sz rf F w'" "tier_bytes w' \<le> tier_capacity w'" "tier_capacity w' = tier_capacity w"
    "kept rf ?d w'" "tier_pending w' = tier_pending w"
    using b o d(4,6) by (auto simp: kept_def)
qed

lemma promote_stored:
  assumes ready: "tier_ready enc dec sz rf F" and inv: "tier_inv dec sz rf F w"
    and pend: "map_of (tier_pending w) ch = None" and idx: "dict_has (tier_index w) ch"
  obtains f where "f \<in> F" and "key f = ch" and "tier_load dec w ch = Some f"
    and "snd (promote dec ch w)
      = Some (f, case payload_ref f of None \<Rightarrow> None | Some r \<Rightarrow> map_of (tier_store w) r)"
    and "fst (promote dec ch w) = (tier_drop dec ch w)\<lparr>promotions := promotions (tier_drop dec ch w) + 1\<rparr>"
proof -
  obtain n where "map_of (tier_index w) ch = Some n" using idx by (auto simp: dict_has_def)
  then have "held dec F (tier_store w) ch"
    using inv unfolding tier_inv_def by (metis (no_types, lifting) case_prodD map_of_SomeD)
  then obtain f where f: "f \<in> F" "key f = ch" "tier_load dec w ch = Some f"
    "\<And>r. payload_ref f = Some r \<Longrightarrow> dict_has (tier_store w) r"
    by (rule held_load) blast
  show thesis
  proof (rule that [OF f(1-3)])
    show "snd (promote dec ch w)
      = Some (f, case payload_ref f of None \<Rightarrow> None | Some r \<Rightarrow> map_of (tier_store w) r)"
      using f(3,4) pend idx by (auto simp: promote_def dict_has_def Let_def split: option.splits)
    show "fst (promote dec ch w) = (tier_drop dec ch w)\<lparr>promotions := promotions (tier_drop dec ch w) + 1\<rparr>"
      using f(3,4) pend idx by (auto simp: promote_def dict_has_def Let_def split: option.splits)
  qed
qed

section \<open>Histories\<close>

lemma tier_inv_fields [simp]:
  "tier_inv dec sz rf F (w\<lparr>promotions := p\<rparr>) = tier_inv dec sz rf F w"
  "tier_inv dec sz rf F (w\<lparr>tier_pending := q\<rparr>) = tier_inv dec sz rf F w"
  "tier_inv dec sz rf F (w\<lparr>tier_queue := ks\<rparr>) = tier_inv dec sz rf F w"
  by (simp_all add: tier_inv_def)

datatype tier_op = DemoteLater fragment "bytes option" | Drain | Promote string

fun tier_step ::
  "(fragment \<Rightarrow> bytes) \<Rightarrow> (bytes \<Rightarrow> fragment option) \<Rightarrow> warm_tier \<Rightarrow> tier_op \<Rightarrow> warm_tier" where
  "tier_step enc dec w (DemoteLater f payload) = demote_later f payload w"
| "tier_step enc dec w Drain = drain_one enc dec w"
| "tier_step enc dec w (Promote ch) = fst (promote dec ch w)"

fun tier_op_in :: "fragment set \<Rightarrow> tier_op \<Rightarrow> bool" where
  "tier_op_in F (DemoteLater f payload) \<longleftrightarrow> f \<in> F"
| "tier_op_in F _ \<longleftrightarrow> True"

definition tier_ok ::
  "(bytes \<Rightarrow> fragment option) \<Rightarrow> (string \<Rightarrow> int) \<Rightarrow> (string \<Rightarrow> string option) \<Rightarrow> fragment set \<Rightarrow> warm_tier \<Rightarrow> bool" where
  "tier_ok dec sz rf F w \<longleftrightarrow> tier_inv dec sz rf F w \<and> tier_bytes w \<le> tier_capacity w \<and>
     (\<forall>ch f payload. map_of (tier_pending w) ch = Some (f, payload) \<longrightarrow> f \<in> F \<and> key f = ch)"

lemma sizes_nonneg:
  assumes "tier_ready enc dec sz rf F" and "tier_inv dec sz rf F w" and "map_of (tier_index w) ch = Some n"
  shows "0 \<le> n"
proof -
  have e: "n = sz ch" "held dec F (tier_store w) ch"
    using assms(2) map_of_SomeD [OF assms(3)] unfolding tier_inv_def by blast+
  obtain f where "f \<in> F" "key f = ch" using e(2) by (rule held_load)
  then show ?thesis using assms(1) e(1) unfolding tier_ready_def by metis
qed

lemma tier_step_ok:
  assumes ready: "tier_ready enc dec sz rf F" and ok: "tier_ok dec sz rf F w" and op: "tier_op_in F op"
  shows "tier_ok dec sz rf F (tier_step enc dec w op)"
    "tier_capacity (tier_step enc dec w op) = tier_capacity w"
proof (atomize (full), cases op)
  case (DemoteLater f payload)
  then show "tier_ok dec sz rf F (tier_step enc dec w op) \<and> tier_capacity (tier_step enc dec w op) = tier_capacity w"
    using ok op by (simp add: tier_ok_def demote_later_def)
next
  case Drain
  show "tier_ok dec sz rf F (tier_step enc dec w op) \<and> tier_capacity (tier_step enc dec w op) = tier_capacity w"
  proof (cases "tier_queue w")
    case Nil
    then show ?thesis using ok by (simp add: Drain drain_one_def)
  next
    case (Cons ch rest)
    define w1 where "w1 = w\<lparr>tier_queue := rest, tier_pending := dict_del (tier_pending w) ch\<rparr>"
    have w1: "tier_ok dec sz rf F w1" "tier_capacity w1 = tier_capacity w"
      using ok by (simp_all add: tier_ok_def w1_def)
    show ?thesis
    proof (cases "map_of (tier_pending w) ch")
      case None
      then show ?thesis using w1 Cons by (simp add: Drain drain_one_def Let_def w1_def)
    next
      case (Some q)
      obtain f payload where q: "q = (f, payload)" by fastforce
      then have f: "f \<in> F" using ok Some by (auto simp: tier_ok_def)
      obtain w' b where w': "demote enc dec f payload w1 = (w', b)" by fastforce
      have step: "tier_step enc dec w op = w'"
        using w' Cons Some q by (simp add: Drain drain_one_def Let_def w1_def)
      show ?thesis
      proof (cases "accepts_demotion f payload w1")
        case True
        then show ?thesis
          using demote_inv [OF ready _ f True w'] w1 by (simp add: step tier_ok_def)
      next
        case False
        then show ?thesis using w' w1 by (simp add: step demote_eq)
      qed
    qed
  qed
next
  case (Promote ch)
  have "tier_ok dec sz rf F (fst (promote dec ch w)) \<and> tier_capacity (fst (promote dec ch w)) = tier_capacity w"
  proof (cases "map_of (tier_pending w) ch = None \<and> dict_has (tier_index w) ch")
    case True
    have inv: "tier_inv dec sz rf F w" using ok by (simp add: tier_ok_def)
    obtain n where n: "map_of (tier_index w) ch = Some n" using True by (auto simp: dict_has_def)
    note d = tier_drop_inv [OF ready inv n]
    obtain f where "fst (promote dec ch w) = (tier_drop dec ch w)\<lparr>promotions := promotions (tier_drop dec ch w) + 1\<rparr>"
      using promote_stored [OF ready inv] True by blast
    then show ?thesis using d(1,3,5,7) ok sizes_nonneg [OF ready inv n] by (simp add: tier_ok_def)
  next
    case False
    show ?thesis
    proof (cases "map_of (tier_pending w) ch")
      case None
      then have "promote dec ch w = (w, None)" using False by (simp add: promote_def)
      then show ?thesis using ok by simp
    next
      case (Some q)
      then have "fst (promote dec ch w)
          = w\<lparr>tier_pending := dict_del (tier_pending w) ch, promotions := promotions w + 1\<rparr>"
        by (simp add: promote_def)
      then show ?thesis using ok by (simp add: tier_ok_def)
    qed
  qed
  then show "tier_ok dec sz rf F (tier_step enc dec w op) \<and> tier_capacity (tier_step enc dec w op) = tier_capacity w"
    by (simp add: Promote)
qed

lemma tier_run_ok:
  assumes ready: "tier_ready enc dec sz rf F" and ops: "list_all (tier_op_in F) ops" and "tier_ok dec sz rf F w"
  shows "tier_ok dec sz rf F (foldl (tier_step enc dec) w ops) \<and>
    tier_capacity (foldl (tier_step enc dec) w ops) = tier_capacity w"
  using assms(2,3)
proof (induction ops arbitrary: w)
  case (Cons op ops)
  then show ?case using tier_step_ok [OF ready Cons.prems(2), of op] by auto
qed simp

lemma tier_empty_ok: "0 \<le> cap \<Longrightarrow> tier_ok dec sz rf F (WarmTier dec [] cap rules)"
  by (simp add: tier_ok_def tier_inv_def WarmTier_def users_def)

section \<open>Properties\<close>

lemma tier_history:
  assumes "tier_ready enc dec sz rf F" and "list_all (tier_op_in F) ops" and "0 \<le> cap"
  shows "tier_ok dec sz rf F (foldl (tier_step enc dec) (WarmTier dec [] cap rules) ops)"
    and "tier_capacity (foldl (tier_step enc dec) (WarmTier dec [] cap rules) ops) = cap"
  using tier_run_ok [OF assms(1,2) tier_empty_ok [OF assms(3)]] by (simp_all add: WarmTier_def)





end
