(* ===== verification/Node.thy ===== *)
theory Node
  imports Table Graphs Indexes Content
begin

text \<open>
  The serving node of \<open>membrane/node.py\<close>: it composes the fragment table, the indexes, the
  relationship graph, the content store, the policies and the warm tier. Every operation takes the
  node and returns the node with the value or the exception it raises, so that what was changed
  before an exception stays changed.

  Code outside the node is in \<open>node_env\<close>: the hash functions, the JSON text of a fragment, the order
  in which a set is iterated and the readings of \<open>time.time()\<close>, one after the other. Hooks and callbacks
  are recorded in the order in which they are called; they swallow their own exceptions. The object
  that \<open>record_hit\<close> rescores is changed in the table and in the read caches; the scores of the
  copies that the indexes and the graph hold are not tracked, no operation of the node reads them.
\<close>

record node_env =
  bucket_hash :: "string \<Rightarrow> nat"
  leaf_hash :: "string \<Rightarrow> 64 word"
  sketch_hash :: "string \<Rightarrow> nat"
  json_dumps :: "(string \<times> json) list \<Rightarrow> bytes"
  json_loads :: "bytes \<Rightarrow> json option"
  json_repr :: "json \<Rightarrow> string"
  parse_float :: "string \<Rightarrow> real option"
  set_order :: "string set \<Rightarrow> string list"
  wall_clock :: "nat \<Rightarrow> real"

datatype node_event =
    OnStore fragment bool | OnRemove string | EvictionCount string nat | EvictionCallback string fragment

record node_attributes =
  region :: string
  zone :: string
  bandwidth_class :: int

definition NodeAttributes :: node_attributes where
  "NodeAttributes = \<lparr>region = ''default'', zone = ''default'', bandwidth_class = 0\<rparr>"

definition attributes_to_dict :: "node_attributes \<Rightarrow> (string \<times> json) list" where
  "attributes_to_dict a =
     [(''region'', JStr (region a)), (''zone'', JStr (zone a)), (''bandwidth_class'', JInt (bandwidth_class a))]"

record node_stats =
  memory_used_bytes :: int
  memory_limit_bytes :: int
  fragment_count :: nat
  primary_count :: nat

record node =
  node_id :: string
  max_memory_bytes :: int
  index_system :: index
  node_graph :: graph
  attributes :: node_attributes
  tenant_counts :: "(string, int) dict option"
  admission :: "admission_policy option"
  quotas :: "(string, tenant_quota) dict"
  tier_choice :: "tier_policy option"
  fragmenter :: "adaptive_fragmenter option"
  eviction :: eviction_policy
  frag_table :: table
  lower_tier :: "warm_tier option"
  selected_tiers :: "(string, string) dict"
  content_store :: in_process_bytes
  eviction_callbacks :: "string list"
  on_store :: bool
  on_remove :: bool
  eviction_counter :: bool
  events :: "node_event list"
  clock_reads :: nat

definition Node ::
  "string \<Rightarrow> int \<Rightarrow> bool \<Rightarrow> admission_policy option \<Rightarrow> (string, tenant_quota) dict \<Rightarrow> tier_policy option \<Rightarrow>
   adaptive_fragmenter option \<Rightarrow> tiny_lfu option \<Rightarrow> node" where
  "Node i max_memory measured adm qs tp fr strategy =
     \<lparr>node_id = i, max_memory_bytes = max_memory, index_system = index_init, node_graph = graph_init,
      attributes = NodeAttributes, tenant_counts = (if measured then Some [] else None), admission = adm,
      quotas = qs, tier_choice = tp, fragmenter = fr,
      eviction = (case strategy of None \<Rightarrow> WeightedLRU | Some l \<Rightarrow> FrequencyLRU l),
      frag_table = table_init, lower_tier = None, selected_tiers = [], content_store = InProcessBytes None,
      eviction_callbacks = [], on_store = False, on_remove = False, eviction_counter = False,
      events = [], clock_reads = 0\<rparr>"

section \<open>Clock, hooks and counters\<close>

definition read_clock :: "node_env \<Rightarrow> node \<Rightarrow> node \<times> real" where
  "read_clock E nd = (nd\<lparr>clock_reads := Suc (clock_reads nd)\<rparr>, wall_clock E (clock_reads nd))"

definition set_persistence_hooks :: "bool \<Rightarrow> bool \<Rightarrow> node \<Rightarrow> node" where
  "set_persistence_hooks stored removed nd = nd\<lparr>on_store := stored, on_remove := removed\<rparr>"

definition add_eviction_callback :: "string \<Rightarrow> node \<Rightarrow> node" where
  "add_eviction_callback cb nd = nd\<lparr>eviction_callbacks := eviction_callbacks nd @ [cb]\<rparr>"

definition set_eviction_counter :: "bool \<Rightarrow> node \<Rightarrow> node" where
  "set_eviction_counter b nd = nd\<lparr>eviction_counter := b\<rparr>"

definition notify :: "bool \<Rightarrow> node_event \<Rightarrow> node \<Rightarrow> node" where
  "notify installed e nd = (if installed then nd\<lparr>events := events nd @ [e]\<rparr> else nd)"

definition fire_eviction_callbacks :: "fragment list \<Rightarrow> string \<Rightarrow> node \<Rightarrow> node" where
  "fire_eviction_callbacks evicted why nd =
     (let nd1 = (if evicted \<noteq> [] then notify (eviction_counter nd) (EvictionCount why (length evicted)) nd else nd)
      in nd1\<lparr>events := events nd1 @ concat (map (\<lambda>cb. map (EvictionCallback cb) evicted) (eviction_callbacks nd1))\<rparr>)"

definition bump_fragment :: "string \<Rightarrow> int \<Rightarrow> (string, int) dict \<Rightarrow> (string, int) dict" where
  "bump_fragment t delta counts = dict_set counts t (dict_get counts t 0 + delta)"

definition count_tenant :: "string \<Rightarrow> int \<Rightarrow> node \<Rightarrow> node" where
  "count_tenant t delta nd = nd\<lparr>tenant_counts := map_option (bump_fragment t delta) (tenant_counts nd)\<rparr>"

section \<open>Removal and eviction\<close>

definition remove_fragment :: "node_env \<Rightarrow> string \<Rightarrow> node \<Rightarrow> node \<times> fragment result" where
  "remove_fragment E k nd =
     (case table_pop (bucket_hash E) (leaf_hash E) k (frag_table nd) of
        Inl e \<Rightarrow> (nd, Inl e)
      | Inr (tb, f) \<Rightarrow>
          let nd1 = notify (on_remove nd) (OnRemove k) (nd\<lparr>frag_table := tb\<rparr>);
              nd2 = (case payload_ref f of
                       None \<Rightarrow> nd1
                     | Some r \<Rightarrow>
                         if references tb r \<noteq> 0 then nd1
                         else nd1\<lparr>content_store := fst (content_delete r (content_store nd1))\<rparr>)
          in (count_tenant (tenant_id f) (-1) nd2, Inr f))"

definition node_encode :: "node_env \<Rightarrow> fragment \<Rightarrow> bytes" where
  "node_encode E f = json_dumps E (to_dict f)"

definition node_decode :: "node_env \<Rightarrow> bytes \<Rightarrow> fragment option" where
  "node_decode E raw =
     (case json_loads E raw of
        Some (JObj d) \<Rightarrow> (case from_dict (json_repr E) (parse_float E) d of Inl _ \<Rightarrow> None | Inr f \<Rightarrow> Some f)
      | _ \<Rightarrow> None)"

definition demote_key :: "string \<Rightarrow> node \<Rightarrow> node" where
  "demote_key k nd =
     (case lower_tier nd of
        None \<Rightarrow> nd
      | Some w \<Rightarrow>
          (case map_of (fragments (frag_table nd)) k of
             None \<Rightarrow> nd
           | Some f \<Rightarrow>
               let payload = (case payload_ref f of None \<Rightarrow> None | Some r \<Rightarrow> content_get (content_store nd) r)
               in nd\<lparr>lower_tier := Some (demote_later f payload w)\<rparr>))"

text \<open>The loop of the first two stages; only the second hands its victims to the lower tier.\<close>

fun evict_loop ::
  "node_env \<Rightarrow> bool \<Rightarrow> int \<Rightarrow> string list \<Rightarrow> string list \<Rightarrow> fragment list \<Rightarrow> int \<Rightarrow> node \<Rightarrow>
   node \<times> (string list \<times> fragment list \<times> int) result" where
  "evict_loop E demoting target [] gone frs freed nd = (nd, Inr (gone, frs, freed))"
| "evict_loop E demoting target (h # hs) gone frs freed nd =
     (if freed \<ge> target then (nd, Inr (gone, frs, freed))
      else
        (case remove_fragment E h (if demoting then demote_key h nd else nd) of
           (nd', Inl e) \<Rightarrow> (nd', Inl e)
         | (nd', Inr f) \<Rightarrow>
             evict_loop E demoting target hs (gone @ [h]) (frs @ [f]) (freed + payload_size f) nd'))"

definition evict_expired ::
  "node_env \<Rightarrow> int \<Rightarrow> real \<Rightarrow> node \<Rightarrow> node \<times> (string list \<times> fragment list \<times> int) result" where
  "evict_expired E target now nd = evict_loop E False target (expired (frag_table nd) now) [] [] 0 nd"

definition evict_lru ::
  "node_env \<Rightarrow> int \<Rightarrow> real \<Rightarrow> string list \<Rightarrow> node \<Rightarrow> node \<times> (string list \<times> fragment list \<times> int) result" where
  "evict_lru E target now already nd =
     (let candidates = filter (\<lambda>(h, _). h \<notin> set already) (fragments (frag_table nd));
          (tb, access) = recency (frag_table nd);
          nd1 = nd\<lparr>frag_table := tb\<rparr>
      in case policy_order (sketch_hash E) (eviction nd1) candidates access now of
           Inl e \<Rightarrow> (nd1, Inl e)
         | Inr hs \<Rightarrow> evict_loop E True target hs [] [] 0 nd1)"

fun neighbour_loop ::
  "node_env \<Rightarrow> int \<Rightarrow> string list \<Rightarrow> string list \<Rightarrow> fragment list \<Rightarrow> int \<Rightarrow> node \<Rightarrow>
   node \<times> (string list \<times> fragment list \<times> int) result" where
  "neighbour_loop E target [] gone frs freed nd = (nd, Inr (gone, frs, freed))"
| "neighbour_loop E target (n # ns) gone frs freed nd =
     (if \<not> table_contains (frag_table nd) n then neighbour_loop E target ns gone frs freed nd
      else if freed \<ge> target then (nd, Inr (gone, frs, freed))
      else
        (case remove_fragment E n (demote_key n nd) of
           (nd', Inl e) \<Rightarrow> (nd', Inl e)
         | (nd', Inr f) \<Rightarrow>
             neighbour_loop E target ns (gone @ [n]) (frs @ [f]) (freed + payload_size f) nd'))"

fun seed_loop ::
  "node_env \<Rightarrow> int \<Rightarrow> string list \<Rightarrow> string list \<Rightarrow> fragment list \<Rightarrow> int \<Rightarrow> node \<Rightarrow>
   node \<times> (string list \<times> fragment list \<times> int) result" where
  "seed_loop E target [] gone frs freed nd = (nd, Inr (gone, frs, freed))"
| "seed_loop E target (h # hs) gone frs freed nd =
     (if freed \<ge> target then (nd, Inr (gone, frs, freed))
      else
        (case neighbour_loop E target (set_order E (eviction_neighbors (node_graph nd) h None)) gone frs freed nd of
           (nd', Inl e) \<Rightarrow> (nd', Inl e)
         | (nd', Inr (gone', frs', freed')) \<Rightarrow> seed_loop E target hs gone' frs' freed' nd'))"

definition evict_graph_neighbors ::
  "node_env \<Rightarrow> int \<Rightarrow> string list \<Rightarrow> node \<Rightarrow> node \<times> (string list \<times> fragment list \<times> int) result" where
  "evict_graph_neighbors E target seeds nd = seed_loop E target seeds [] [] 0 nd"

definition evict :: "node_env \<Rightarrow> int \<Rightarrow> real option \<Rightarrow> node \<Rightarrow> node \<times> string list result" where
  "evict E target current_time nd0 =
     (if target \<le> 0 then (nd0, Inr [])
      else
        let (nd, now) = (case current_time of Some c \<Rightarrow> (nd0, c) | None \<Rightarrow> read_clock E nd0)
        in (case evict_expired E target now nd of
              (nd1, Inl e) \<Rightarrow> (nd1, Inl e)
            | (nd1, Inr (gone1, frs1, freed1)) \<Rightarrow>
                if freed1 \<ge> target then (fire_eviction_callbacks frs1 ''capacity'' nd1, Inr gone1)
                else
                  (case evict_lru E (target - freed1) now gone1 nd1 of
                     (nd2, Inl e) \<Rightarrow> (nd2, Inl e)
                   | (nd2, Inr (gone2, frs2, freed2)) \<Rightarrow>
                       if freed1 + freed2 \<ge> target
                       then (fire_eviction_callbacks (frs1 @ frs2) ''capacity'' nd2, Inr (gone1 @ gone2))
                       else
                         (case evict_graph_neighbors E (target - (freed1 + freed2)) (gone1 @ gone2) nd2 of
                            (nd3, Inl e) \<Rightarrow> (nd3, Inl e)
                          | (nd3, Inr (gone3, frs3, _)) \<Rightarrow>
                              (fire_eviction_callbacks (frs1 @ frs2 @ frs3) ''capacity'' nd3,
                               Inr (gone1 @ gone2 @ gone3))))))"

definition sweep_expired :: "node_env \<Rightarrow> real option \<Rightarrow> node \<Rightarrow> node \<times> string list result" where
  "sweep_expired E current_time nd0 =
     (let (nd, now) = (case current_time of Some c \<Rightarrow> (nd0, c) | None \<Rightarrow> read_clock E nd0)
      in case evict_expired E (memory_usage (frag_table nd) + 1) now nd of
           (nd1, Inl e) \<Rightarrow> (nd1, Inl e)
         | (nd1, Inr (gone, frs, _)) \<Rightarrow> (fire_eviction_callbacks frs ''expired'' nd1, Inr gone))"

section \<open>Storing\<close>

text \<open>The part under the lock.\<close>

definition store_resident :: "string \<Rightarrow> real \<Rightarrow> bool \<Rightarrow> node \<Rightarrow> node \<times> bool result" where
  "store_resident k now is_primary nd =
     (nd\<lparr>frag_table := touch k now is_primary (frag_table nd)\<rparr>, Inr True)"

definition store_new :: "node_env \<Rightarrow> fragment \<Rightarrow> bool \<Rightarrow> real \<Rightarrow> node \<Rightarrow> node \<times> bool result" where
  "store_new E f is_primary now nd =
     (let nd1 = nd\<lparr>frag_table := table_add (bucket_hash E) (leaf_hash E) f now (frag_table nd)\<rparr>
      in case index_insert f {node_id nd1} (index_system nd1) of
           Inl e \<Rightarrow> (nd1, Inl e)
         | Inr ix \<Rightarrow>
             let nd2 = nd1\<lparr>index_system := ix, node_graph := add_node f (node_graph nd1)\<rparr>;
                 nd3 = count_tenant (tenant_id f) 1 (notify (on_store nd2) (OnStore f is_primary) nd2)
             in store_resident (key f) now is_primary nd3)"

definition store_locked :: "node_env \<Rightarrow> fragment \<Rightarrow> bool \<Rightarrow> node \<Rightarrow> node \<times> bool result" where
  "store_locked E f is_primary nd0 =
     (let (nd, now) = read_clock E nd0
      in if table_contains (frag_table nd) (key f) then store_resident (key f) now is_primary nd
         else if memory_usage (frag_table nd) + payload_size f > max_memory_bytes nd then
           (case evict E (payload_size f) None nd of
              (nd1, Inl e) \<Rightarrow> (nd1, Inl e)
            | (nd1, Inr _) \<Rightarrow>
                if memory_usage (frag_table nd1) + payload_size f > max_memory_bytes nd1 then (nd1, Inr False)
                else store_new E f is_primary now nd1)
         else store_new E f is_primary now nd)"

definition charge_quota :: "fragment \<Rightarrow> node \<Rightarrow> node \<times> bool" where
  "charge_quota f nd =
     (case map_of (quotas nd) (tenant_id f) of
        None \<Rightarrow> (nd, True)
      | Some q \<Rightarrow>
          let (q', admitted) = quota_admit (payload_size f) q
          in (nd\<lparr>quotas := dict_set (quotas nd) (tenant_id f) q'\<rparr>, admitted))"

definition store :: "node_env \<Rightarrow> fragment \<Rightarrow> bool \<Rightarrow> string \<Rightarrow> string set \<Rightarrow> node \<Rightarrow> node \<times> bool result" where
  "store E f is_primary caller scs nd =
     (case check_write (tenant_id f) caller scs of
        Inl e \<Rightarrow> (nd, Inl e)
      | Inr _ \<Rightarrow>
          if (case admission nd of None \<Rightarrow> False | Some a \<Rightarrow> \<not> should_admit a (reuse_score f)) then (nd, Inr False)
          else
            let (nd1, admitted) = charge_quota f nd
            in if \<not> admitted then (nd1, Inr False)
               else
                 let nd2 = (case tier_choice nd1 of
                              None \<Rightarrow> nd1
                            | Some tp \<Rightarrow>
                                nd1\<lparr>selected_tiers := dict_set (selected_tiers nd1) (key f) (select_tier tp f)\<rparr>)
                 in if payload_size f > max_memory_bytes nd2 then (nd2, Inr False)
                    else store_locked E f is_primary nd2)"

section \<open>Reading\<close>

definition promote_key :: "node_env \<Rightarrow> string \<Rightarrow> node \<Rightarrow> node \<times> unit result" where
  "promote_key E k nd =
     (case lower_tier nd of
        None \<Rightarrow> (nd, Inr ())
      | Some w \<Rightarrow>
          (case promote (node_decode E) k w of
             (w', None) \<Rightarrow> (nd\<lparr>lower_tier := Some w'\<rparr>, Inr ())
           | (w', Some (f, payload)) \<Rightarrow>
               let nd1 = nd\<lparr>lower_tier := Some w'\<rparr>
               in case (case (payload_ref f, payload) of
                          (Some r, Some p) \<Rightarrow> content_put r p (content_store nd1)
                        | _ \<Rightarrow> Inr (content_store nd1)) of
                    Inl e \<Rightarrow> (nd1, Inl e)
                  | Inr cs \<Rightarrow>
                      (case store E f False [] {} (nd1\<lparr>content_store := cs\<rparr>) of
                         (nd2, Inl e) \<Rightarrow> (nd2, Inl e) | (nd2, Inr _) \<Rightarrow> (nd2, Inr ()))))"

definition read_key ::
  "node_env \<Rightarrow> nat \<Rightarrow> string \<Rightarrow> string \<Rightarrow> string set \<Rightarrow> node \<Rightarrow> node \<times> fragment option result" where
  "read_key E t k caller scs nd0 =
     (let (nd, now) = read_clock E nd0;
          (tb, entry) = lookup t k (Some now) (frag_table nd);
          nd1 = nd\<lparr>frag_table := tb\<rparr>
      in case entry of
           None \<Rightarrow> (nd1, Inr None)
         | Some (f, expires) \<Rightarrow>
             if caller \<noteq> [] \<and> \<not> can_read (tenant_id f) caller scs then (nd1, Inr None)
             else if now > expires then
               if is_expired (frag_table nd1) k now
               then (case remove_fragment E k nd1 of
                       (nd2, Inl e) \<Rightarrow> (nd2, Inl e) | (nd2, Inr _) \<Rightarrow> (nd2, Inr None))
               else (nd1, Inr None)
             else (nd1, Inr (Some f)))"

definition retrieve_key ::
  "node_env \<Rightarrow> nat \<Rightarrow> string \<Rightarrow> string \<Rightarrow> string set \<Rightarrow> node \<Rightarrow> node \<times> fragment option result" where
  "retrieve_key E t k caller scs nd =
     (if lower_tier nd \<noteq> None \<and> \<not> table_contains (frag_table nd) k
      then (case promote_key E k nd of
              (nd1, Inl e) \<Rightarrow> (nd1, Inl e)
            | (nd1, Inr _) \<Rightarrow> read_key E t k caller scs nd1)
      else read_key E t k caller scs nd)"

definition retrieve_shared ::
  "node_env \<Rightarrow> nat \<Rightarrow> string \<Rightarrow> string \<Rightarrow> string set \<Rightarrow> node \<Rightarrow> node \<times> fragment option result" where
  "retrieve_shared E t h caller scs nd =
     (case retrieve_key E t h caller scs nd of
        (nd1, Inl e) \<Rightarrow> (nd1, Inl e)
      | (nd1, Inr r) \<Rightarrow>
          if r \<noteq> None \<or> map_of (tenant_keys (frag_table nd1)) h = None then (nd1, Inr r)
          else if caller \<noteq> [] \<and> \<not> has_admin_scope scs then (nd1, Inr None)
          else
            (case any_tenant_copy (frag_table nd1) h of
               None \<Rightarrow> (nd1, Inr None)
             | Some other \<Rightarrow> retrieve_key E t other caller scs nd1))"

definition retrieve ::
  "node_env \<Rightarrow> nat \<Rightarrow> string \<Rightarrow> string \<Rightarrow> string set \<Rightarrow> node \<Rightarrow> node \<times> fragment option result" where
  "retrieve E t h caller scs nd =
     (if KEY_SEPARATOR \<in> set h then retrieve_key E t h caller scs nd
      else if caller \<noteq> [] \<and> caller \<noteq> DEFAULT_TENANT then
        (case retrieve_key E t (fragment_key caller h) caller scs nd of
           (nd1, Inl e) \<Rightarrow> (nd1, Inl e)
         | (nd1, Inr (Some own)) \<Rightarrow> (nd1, Inr (Some own))
         | (nd1, Inr None) \<Rightarrow> retrieve_shared E t h caller scs nd1)
      else retrieve_shared E t h caller scs nd)"

definition locate :: "node \<Rightarrow> string \<Rightarrow> string \<Rightarrow> string set \<Rightarrow> string option" where
  "locate nd h caller scs =
     (if KEY_SEPARATOR \<in> set h then (if table_contains (frag_table nd) h then Some h else None)
      else if caller \<noteq> [] \<and> caller \<noteq> DEFAULT_TENANT \<and> table_contains (frag_table nd) (fragment_key caller h)
      then Some (fragment_key caller h)
      else if table_contains (frag_table nd) h then Some h
      else if caller \<noteq> [] \<and> \<not> has_admin_scope scs then None
      else any_tenant_copy (frag_table nd) h)"

definition rescore :: "string \<Rightarrow> (fragment \<Rightarrow> fragment) \<Rightarrow> table \<Rightarrow> table" where
  "rescore k g tb =
     tb\<lparr>fragments := map (\<lambda>(k', f). (k', if k' = k then g f else f)) (fragments tb),
        caches := map (\<lambda>(t, c). (t, c\<lparr>cached :=
          map (\<lambda>(k', e). (k', if k' = k then (g (fst e), snd e) else e)) (cached c)\<rparr>)) (caches tb)\<rparr>"

definition record_hit :: "node_env \<Rightarrow> string \<Rightarrow> node \<Rightarrow> node \<times> unit result" where
  "record_hit E h nd =
     (case locate nd h [] {} of
        None \<Rightarrow> (nd, Inr ())
      | Some k \<Rightarrow>
          (case map_of (fragments (frag_table nd)) k of
             None \<Rightarrow> (nd, Inr ())
           | Some f \<Rightarrow>
               (case policy_touch (sketch_hash E) k (eviction nd) of
                  Inl e \<Rightarrow> (nd, Inl e)
                | Inr ep \<Rightarrow>
                    (nd\<lparr>eviction := ep, frag_table := rescore k (observer_record_hit HitObserver) (frag_table nd)\<rparr>,
                     Inr ()))))"

definition tier_of :: "node \<Rightarrow> string \<Rightarrow> string option" where
  "tier_of nd h =
     map_of (selected_tiers nd)
       (case locate nd h [] {} of None \<Rightarrow> h | Some k \<Rightarrow> if k = [] then h else k)"

definition node_window_size :: "node \<Rightarrow> int" where
  "node_window_size nd = (case fragmenter nd of None \<Rightarrow> 128 | Some a \<Rightarrow> adaptive_window_size a)"

definition get_memory_usage :: "node \<Rightarrow> int" where
  "get_memory_usage nd = memory_usage (frag_table nd)"

definition fragment_snapshot :: "node \<Rightarrow> (string, fragment) dict" where
  "fragment_snapshot nd = snapshot (frag_table nd)"

definition get_shard_hashes :: "node \<Rightarrow> string set" where
  "get_shard_hashes nd = primaries (frag_table nd)"

definition node_heartbeat :: "node \<Rightarrow> real" where
  "node_heartbeat nd =
     (if max_memory_bytes nd = 0 then 1
      else min 1 (real_of_int (get_memory_usage nd) / real_of_int (max_memory_bytes nd)))"

definition get_stats :: "node \<Rightarrow> node_stats" where
  "get_stats nd =
     \<lparr>memory_used_bytes = memory_usage (frag_table nd), memory_limit_bytes = max_memory_bytes nd,
      fragment_count = table_len (frag_table nd), primary_count = card (primary_hashes (frag_table nd))\<rparr>"

end
