(* ===== verification/Node_Inv.thy ===== *)
theory Node_Inv
  imports Node
begin

text \<open>
  The invariant of a serving node and its preservation by every operation: the table bookkeeping, the
  memory limit, the per-tenant counters, the persistence log, the positional tree, and that
  everything resident or queued for the warm tier passed the constructors.
\<close>

definition valid :: "fragment \<Rightarrow> bool" where
  "valid f \<longleftrightarrow> fragment_ok f \<and> identity_ok (identity f)"

abbreviation residents :: "node \<Rightarrow> (string, fragment) dict" where
  "residents nd \<equiv> fragments (frag_table nd)"

text \<open>What a store that is written by the persistence hooks holds; scores are not written again.\<close>

definition unscored :: "fragment \<Rightarrow> fragment" where
  "unscored f = f\<lparr>reuse_score := 0\<rparr>"

fun replay_event :: "(string \<rightharpoonup> fragment) \<Rightarrow> node_event \<Rightarrow> (string \<rightharpoonup> fragment)" where
  "replay_event m (OnStore f _) = m(key f \<mapsto> unscored f)"
| "replay_event m (OnRemove k) = m(k := None)"
| "replay_event m _ = m"

definition replay :: "node_event list \<Rightarrow> (string \<rightharpoonup> fragment)" where
  "replay es = foldl replay_event Map.empty es"

definition tenant_total :: "(string, fragment) dict \<Rightarrow> string \<Rightarrow> int" where
  "tenant_total frs t = int (length (filter (\<lambda>e. tenant_id (snd e) = t) frs))"

definition counts_ok :: "node \<Rightarrow> bool" where
  "counts_ok nd \<longleftrightarrow> (\<forall>c. tenant_counts nd = Some c \<longrightarrow> (\<lambda>t. dict_get c t 0) = tenant_total (residents nd))"

definition log_ok :: "node \<Rightarrow> bool" where
  "log_ok nd \<longleftrightarrow> (on_store nd \<and> on_remove nd \<longrightarrow>
     replay (events nd) = map_option unscored \<circ> map_of (residents nd))"

definition residents_ok :: "node \<Rightarrow> bool" where
  "residents_ok nd \<longleftrightarrow> (\<forall>k f. map_of (residents nd) k = Some f \<longrightarrow> valid f)"

definition pending_ok :: "node \<Rightarrow> bool" where
  "pending_ok nd \<longleftrightarrow> (\<forall>w k f p. lower_tier nd = Some w \<longrightarrow> map_of (tier_pending w) k = Some (f, p) \<longrightarrow> valid f)"

definition node_inv :: "node_env \<Rightarrow> node \<Rightarrow> bool" where
  "node_inv E nd \<longleftrightarrow>
     table_inv (bucket_hash E) (leaf_hash E) (frag_table nd) \<and> owner_inv (frag_table nd) \<and>
     memory_usage (frag_table nd) \<le> max 0 (max_memory_bytes nd) \<and>
     residents_ok nd \<and> counts_ok nd \<and> log_ok nd \<and> pending_ok nd \<and>
     tree_ok (root (positional (index_system nd)))"

text \<open>What no operation changes.\<close>

definition same_config :: "node \<Rightarrow> node \<Rightarrow> bool" where
  "same_config nd nd' \<longleftrightarrow> max_memory_bytes nd' = max_memory_bytes nd \<and> on_store nd' = on_store nd \<and>
     on_remove nd' = on_remove nd \<and> admission nd' = admission nd \<and> tier_choice nd' = tier_choice nd \<and>
     node_id nd' = node_id nd \<and> (eviction nd = WeightedLRU \<longrightarrow> eviction nd' = WeightedLRU)"

lemma same_config_refl [simp]: "same_config nd nd"
  by (simp add: same_config_def)

lemma same_config_trans [trans]: "same_config a b \<Longrightarrow> same_config b c \<Longrightarrow> same_config a c"
  by (simp add: same_config_def)

lemma replay_snoc [simp]: "replay (es @ [e]) = replay_event (replay es) e"
  by (simp add: replay_def)

lemma replay_silent:
  "(\<And>e m. e \<in> set fs \<Longrightarrow> replay_event m e = m) \<Longrightarrow> replay (es @ fs) = replay es"
proof (induction fs rule: rev_induct)
  case (snoc e fs)
  then show ?case unfolding append_assoc [symmetric] replay_snoc by simp
qed simp

lemma node_invD:
  assumes "node_inv E nd"
  shows "table_inv (bucket_hash E) (leaf_hash E) (frag_table nd)" "owner_inv (frag_table nd)"
    "memory_usage (frag_table nd) \<le> max 0 (max_memory_bytes nd)"
    "residents_ok nd" "counts_ok nd" "log_ok nd" "pending_ok nd"
    "tree_ok (root (positional (index_system nd)))"
    "dict_ok (residents nd)"
  using assms by (simp_all add: node_inv_def table_inv_def)

lemma residents_okD: "residents_ok nd \<Longrightarrow> map_of (residents nd) k = Some f \<Longrightarrow> valid f"
  by (simp add: residents_ok_def)

lemma valid_size: "valid f \<Longrightarrow> 0 \<le> payload_size f"
  by (simp add: valid_def fragment_ok_def)

lemma memory_nonneg:
  assumes "node_inv E nd"
  shows "0 \<le> memory_usage (frag_table nd)"
proof -
  note inv = node_invD [OF assms]
  have "0 \<le> payload_size (snd e)" if "e \<in> set (residents nd)" for e
    using that inv(4,9) valid_size residents_okD [of nd "fst e" "snd e"] by simp
  then show ?thesis
    using table_invD(3) [OF inv(1)] by (auto intro!: sum_list_nonneg)
qed

text \<open>Changes outside the table, the log and the counters are seen by none of the parts.\<close>

lemma node_inv_fields [simp]:
  "node_inv E (nd\<lparr>clock_reads := n\<rparr>) = node_inv E nd"
  "node_inv E (nd\<lparr>content_store := cs\<rparr>) = node_inv E nd"
  "node_inv E (nd\<lparr>quotas := qs\<rparr>) = node_inv E nd"
  "node_inv E (nd\<lparr>selected_tiers := st\<rparr>) = node_inv E nd"
  "node_inv E (nd\<lparr>eviction := ep\<rparr>) = node_inv E nd"
  "node_inv E (nd\<lparr>node_graph := g\<rparr>) = node_inv E nd"
  "node_inv E (nd\<lparr>eviction_callbacks := cbs\<rparr>) = node_inv E nd"
  "node_inv E (nd\<lparr>eviction_counter := b\<rparr>) = node_inv E nd"
  by (simp_all add: node_inv_def residents_ok_def counts_ok_def log_ok_def pending_ok_def)

lemma same_config_fields [simp]:
  "same_config nd (nd'\<lparr>clock_reads := n\<rparr>) = same_config nd nd'"
  "same_config nd (nd'\<lparr>content_store := cs\<rparr>) = same_config nd nd'"
  "same_config nd (nd'\<lparr>quotas := qs\<rparr>) = same_config nd nd'"
  "same_config nd (nd'\<lparr>selected_tiers := st\<rparr>) = same_config nd nd'"
  "same_config nd (nd'\<lparr>node_graph := g\<rparr>) = same_config nd nd'"
  "same_config nd (nd'\<lparr>index_system := ix\<rparr>) = same_config nd nd'"
  "same_config nd (nd'\<lparr>frag_table := tb\<rparr>) = same_config nd nd'"
  "same_config nd (nd'\<lparr>events := es\<rparr>) = same_config nd nd'"
  "same_config nd (nd'\<lparr>tenant_counts := tc\<rparr>) = same_config nd nd'"
  "same_config nd (nd'\<lparr>lower_tier := lt\<rparr>) = same_config nd nd'"
  "same_config nd (nd'\<lparr>eviction_callbacks := cbs\<rparr>) = same_config nd nd'"
  "same_config nd (nd'\<lparr>eviction_counter := b\<rparr>) = same_config nd nd'"
  by (simp_all add: same_config_def)

section \<open>Removal\<close>

lemma tenant_total_del:
  assumes "dict_ok frs" and "map_of frs k = Some f"
  shows "tenant_total (dict_del frs k) t = tenant_total frs t - (if tenant_id f = t then 1 else 0)"
proof -
  have "mset (filter (\<lambda>e. tenant_id (snd e) = t) frs)
      = filter_mset (\<lambda>e. tenant_id (snd e) = t) (add_mset (k, f) (mset (dict_del frs k)))"
    using dict_del_mset [OF assms] by simp
  then have "size (mset (filter (\<lambda>e. tenant_id (snd e) = t) frs))
      = (if tenant_id f = t then 1 else 0) + size (mset (filter (\<lambda>e. tenant_id (snd e) = t) (dict_del frs k)))"
    by simp
  then show ?thesis unfolding size_mset by (simp add: tenant_total_def)
qed

lemma table_pop_Some:
  assumes "map_of (fragments tb) k = Some f"
  obtains tb' where "table_pop b4 b8 k tb = Inr (tb', f)" and "fragments tb' = dict_del (fragments tb) k"
    and "memory_usage tb' = memory_usage tb - payload_size f"
    and "insertion_times tb' = dict_del (insertion_times tb) k"
  using assms by (simp add: table_pop_def Let_def)

text \<open>The state of a removal, with the content store left out.\<close>

lemma removed_inv:
  assumes inv: "node_inv E nd" and f: "map_of (residents nd) k = Some f"
    and pop: "table_pop (bucket_hash E) (leaf_hash E) k (frag_table nd) = Inr (tb, f)"
    and frs: "fragments tb = dict_del (residents nd) k"
    and mem: "memory_usage tb = memory_usage (frag_table nd) - payload_size f"
  shows "node_inv E (count_tenant (tenant_id f) (-1) (notify (on_remove nd) (OnRemove k) (nd\<lparr>frag_table := tb\<rparr>)))"
proof -
  define nd1 where "nd1 = count_tenant (tenant_id f) (-1) (notify (on_remove nd) (OnRemove k) (nd\<lparr>frag_table := tb\<rparr>))"
  note iv = node_invD [OF inv]
  have nd1: "frag_table nd1 = tb" "lower_tier nd1 = lower_tier nd" "index_system nd1 = index_system nd"
    "max_memory_bytes nd1 = max_memory_bytes nd" "on_store nd1 = on_store nd" "on_remove nd1 = on_remove nd"
    "tenant_counts nd1 = map_option (bump_fragment (tenant_id f) (-1)) (tenant_counts nd)"
    "on_remove nd \<Longrightarrow> events nd1 = events nd @ [OnRemove k]"
    by (simp_all add: nd1_def count_tenant_def notify_def)
  have "residents_ok nd1" using iv(4) by (auto simp: residents_ok_def nd1 frs split: if_splits)
  moreover have "counts_ok nd1"
    using iv(5) tenant_total_del [OF iv(9) f]
    by (auto simp: counts_ok_def nd1 frs bump_fragment_def fun_eq_iff dict_get_set)
  moreover have "log_ok nd1" using iv(6) by (auto simp: log_ok_def nd1 frs fun_eq_iff)
  moreover have "pending_ok nd1" using iv(7) by (simp add: pending_ok_def nd1)
  moreover have "memory_usage tb \<le> memory_usage (frag_table nd)"
    using mem valid_size [OF residents_okD [OF iv(4) f]] by simp
  ultimately have "node_inv E nd1"
    using iv table_inv_pop [OF iv(1) pop] table_pop_owner_inv [OF iv(2) pop]
    unfolding node_inv_def nd1 by auto
  then show ?thesis by (simp add: nd1_def)
qed

lemma remove_fragment_ok:
  assumes inv: "node_inv E nd" and f: "map_of (residents nd) k = Some f"
  obtains nd' where "remove_fragment E k nd = (nd', Inr f)" and "node_inv E nd'" and "same_config nd nd'"
    and "residents nd' = dict_del (residents nd) k"
    and "memory_usage (frag_table nd') = memory_usage (frag_table nd) - payload_size f"
    and "eviction nd' = eviction nd" and "clock_reads nd' = clock_reads nd"
    and "node_graph nd' = node_graph nd"
proof -
  obtain tb where tb: "table_pop (bucket_hash E) (leaf_hash E) k (frag_table nd) = Inr (tb, f)"
    "fragments tb = dict_del (residents nd) k" "memory_usage tb = memory_usage (frag_table nd) - payload_size f"
    using table_pop_Some [OF f] by metis
  define nd1 where "nd1 = notify (on_remove nd) (OnRemove k) (nd\<lparr>frag_table := tb\<rparr>)"
  obtain cs where rm: "remove_fragment E k nd = ((count_tenant (tenant_id f) (-1) nd1)\<lparr>content_store := cs\<rparr>, Inr f)"
  proof
    show "remove_fragment E k nd = ((count_tenant (tenant_id f) (-1) nd1)\<lparr>content_store :=
        (case payload_ref f of None \<Rightarrow> content_store nd1
         | Some r \<Rightarrow> if references tb r \<noteq> 0 then content_store nd1 else fst (content_delete r (content_store nd1)))\<rparr>, Inr f)"
      by (simp add: remove_fragment_def tb(1) nd1_def Let_def count_tenant_def split: option.split)
  qed
  show thesis
    using removed_inv [OF inv f tb] tb(2,3)
    by (intro that [OF rm]) (simp_all add: nd1_def count_tenant_def notify_def)
qed

lemma demote_key_ok:
  assumes inv: "node_inv E nd"
  shows "node_inv E (demote_key k nd)" "same_config nd (demote_key k nd)"
    "frag_table (demote_key k nd) = frag_table nd" "eviction (demote_key k nd) = eviction nd"
    "clock_reads (demote_key k nd) = clock_reads nd" "node_graph (demote_key k nd) = node_graph nd"
proof -
  note iv = node_invD [OF inv]
  show eq: "frag_table (demote_key k nd) = frag_table nd" "eviction (demote_key k nd) = eviction nd"
    "clock_reads (demote_key k nd) = clock_reads nd" "node_graph (demote_key k nd) = node_graph nd"
    "same_config nd (demote_key k nd)"
    by (simp_all add: demote_key_def Let_def split: option.splits)
  have "pending_ok (demote_key k nd)"
    using iv(7) residents_okD [OF iv(4)]
    by (auto simp: pending_ok_def demote_key_def demote_later_def Let_def split: option.splits if_splits)
  moreover have "counts_ok (demote_key k nd)" "log_ok (demote_key k nd)" "residents_ok (demote_key k nd)"
    "index_system (demote_key k nd) = index_system nd" "max_memory_bytes (demote_key k nd) = max_memory_bytes nd"
    using iv(4-6) by (simp_all add: counts_ok_def log_ok_def residents_ok_def demote_key_def Let_def split: option.splits)
  ultimately show "node_inv E (demote_key k nd)"
    using iv unfolding node_inv_def eq by simp
qed

section \<open>Eviction\<close>

definition gone_from :: "string list \<Rightarrow> node \<Rightarrow> node \<Rightarrow> bool" where
  "gone_from vs nd nd' \<longleftrightarrow> residents nd' = filter (\<lambda>e. fst e \<notin> set vs) (residents nd) \<and>
     eviction nd' = eviction nd \<and> clock_reads nd' = clock_reads nd \<and> node_graph nd' = node_graph nd"

lemma gone_from_Nil [simp]: "gone_from [] nd nd"
  by (simp add: gone_from_def)

lemma gone_from_trans: "gone_from us a b \<Longrightarrow> gone_from vs b c \<Longrightarrow> gone_from (us @ vs) a c"
  by (auto simp: gone_from_def intro: filter_cong)

text \<open>One victim.\<close>

lemma evict_one:
  assumes inv: "node_inv E nd" and h: "dict_has (residents nd) h"
  obtains nd' f where "remove_fragment E h (if dem then demote_key h nd else nd) = (nd', Inr f)"
    and "map_of (residents nd) h = Some f"
    and "node_inv E nd'" and "same_config nd nd'" and "gone_from [h] nd nd'"
    and "memory_usage (frag_table nd') = memory_usage (frag_table nd) - payload_size f"
proof -
  let ?d = "if dem then demote_key h nd else nd"
  note d = demote_key_ok [OF inv, of h]
  have inv': "node_inv E ?d" and same: "frag_table ?d = frag_table nd" "eviction ?d = eviction nd"
    "clock_reads ?d = clock_reads nd" "node_graph ?d = node_graph nd" "same_config nd ?d"
    using d inv by simp_all
  obtain f where f: "map_of (residents nd) h = Some f" using h by (auto simp: dict_has_def)
  then have f': "map_of (residents ?d) h = Some f" by (simp only: same)
  have eq: "(\<lambda>(k', _). h \<noteq> k') = (\<lambda>e :: string \<times> fragment. fst e \<notin> set [h])" by auto
  show thesis
  proof (rule remove_fragment_ok [OF inv' f'])
    fix nd'
    assume a: "remove_fragment E h ?d = (nd', Inr f)" "node_inv E nd'" "same_config ?d nd'"
      "residents nd' = dict_del (residents ?d) h"
      "memory_usage (frag_table nd') = memory_usage (frag_table ?d) - payload_size f"
      "eviction nd' = eviction ?d" "clock_reads nd' = clock_reads ?d" "node_graph nd' = node_graph ?d"
    have "gone_from [h] nd nd'"
      using a(4,6-8) by (simp only: gone_from_def same AList.delete_eq eq simp_thms)
    then show thesis
      using that [OF a(1) f a(2)] same_config_trans [OF same(5) a(3)] a(5) same(1) by simp
  qed
qed

lemma evict_loop_ok:
  assumes "node_inv E nd" and "distinct hs" and "list_all (dict_has (residents nd)) hs"
  shows "\<exists>nd' k fs n. evict_loop E dem target hs gone frs freed nd = (nd', Inr (gone @ take k hs, frs @ fs, freed + n)) \<and>
     node_inv E nd' \<and> same_config nd nd' \<and> gone_from (take k hs) nd nd' \<and>
     n = memory_usage (frag_table nd) - memory_usage (frag_table nd') \<and>
     (freed + n \<ge> target \<or> take k hs = hs)"
  using assms
proof (induction hs arbitrary: nd gone frs freed)
  case Nil
  then show ?case by (intro exI [of _ nd] exI [of _ 0] exI [of _ "[]"]) simp
next
  case (Cons h hs)
  show ?case
  proof (cases "freed \<ge> target")
    case True
    with Cons.prems show ?thesis by (intro exI [of _ nd] exI [of _ 0] exI [of _ "[]"]) simp
  next
    case False
    have h: "dict_has (residents nd) h" using Cons.prems(3) by simp
    obtain nd1 f where one: "remove_fragment E h (if dem then demote_key h nd else nd) = (nd1, Inr f)"
      "node_inv E nd1" "same_config nd nd1" "gone_from [h] nd nd1"
      "memory_usage (frag_table nd1) = memory_usage (frag_table nd) - payload_size f"
      using evict_one [OF Cons.prems(1) h] by metis
    have dist: "distinct hs" and notin: "h \<notin> set hs" using Cons.prems(2) by simp_all
    have has: "dict_has (residents nd1) k" if "k \<in> set hs" for k
    proof -
      have "k \<noteq> h" "dict_has (residents nd) k" using that notin Cons.prems(3) by (auto simp: list_all_iff)
      moreover have "residents nd1 = dict_del (residents nd) h"
        using one(4) by (simp add: gone_from_def AList.delete_eq case_prod_beta' eq_commute [of h])
      ultimately show ?thesis by simp
    qed
    then have "list_all (dict_has (residents nd1)) hs" by (simp add: list_all_iff)
    from Cons.IH [OF one(2) dist this, of "gone @ [h]" "frs @ [f]" "freed + payload_size f"]
    obtain nd' k fs n where ih: "evict_loop E dem target hs (gone @ [h]) (frs @ [f]) (freed + payload_size f) nd1
        = (nd', Inr ((gone @ [h]) @ take k hs, (frs @ [f]) @ fs, (freed + payload_size f) + n))"
      "node_inv E nd'" "same_config nd1 nd'" "gone_from (take k hs) nd1 nd'"
      "n = memory_usage (frag_table nd1) - memory_usage (frag_table nd')"
      "freed + payload_size f + n \<ge> target \<or> take k hs = hs"
      by blast
    show ?thesis
      using False one(1,5) ih gone_from_trans [OF one(4) ih(4)] same_config_trans [OF one(3) ih(3)]
      by (intro exI [of _ nd'] exI [of _ "Suc k"] exI [of _ "f # fs"] exI [of _ "payload_size f + n"]) auto
  qed
qed

lemma expired_candidates:
  "dict_ok (fragments tb) \<Longrightarrow> distinct (expired tb now) \<and> list_all (dict_has (fragments tb)) (expired tb now)"
  by (auto simp: expired_def list_all_iff is_expired_def dict_has_def split: option.splits)

lemma evict_expired_ok:
  assumes "node_inv E nd"
  obtains nd' k fs n where "evict_expired E target now nd = (nd', Inr (take k (expired (frag_table nd) now), fs, n))"
    and "node_inv E nd'" and "same_config nd nd'" and "gone_from (take k (expired (frag_table nd) now)) nd nd'"
    and "n = memory_usage (frag_table nd) - memory_usage (frag_table nd')"
    and "n \<ge> target \<or> take k (expired (frag_table nd) now) = expired (frag_table nd) now"
proof -
  have "dict_ok (residents nd)" by (rule node_invD(9) [OF assms])
  note c = expired_candidates [OF this, of now]
  obtain nd' k fs n where "evict_loop E False target (expired (frag_table nd) now) [] [] 0 nd
        = (nd', Inr ([] @ take k (expired (frag_table nd) now), [] @ fs, 0 + n))"
    "node_inv E nd'" "same_config nd nd'" "gone_from (take k (expired (frag_table nd) now)) nd nd'"
    "n = memory_usage (frag_table nd) - memory_usage (frag_table nd')"
    "0 + n \<ge> target \<or> take k (expired (frag_table nd) now) = expired (frag_table nd) now"
    using evict_loop_ok [OF assms conjunct1 [OF c] conjunct2 [OF c],
      where gone = "[]" and frs = "[]" and freed = 0 and dem = False and target = target] by blast
  then show thesis by (intro that [of nd' k fs n]) (simp_all add: evict_expired_def)
qed

lemma recency_table:
  assumes inv: "node_inv E nd"
  shows "node_inv E (nd\<lparr>frag_table := fst (recency (frag_table nd))\<rparr>)"
    "fragments (fst (recency (frag_table nd))) = residents nd"
    "memory_usage (fst (recency (frag_table nd))) = memory_usage (frag_table nd)"
proof -
  note iv = node_invD [OF inv]
  have ok: "dict_ok (caches (frag_table nd))" using iv(2) by (simp add: owner_inv_def)
  show frs: "fragments (fst (recency (frag_table nd))) = residents nd"
    "memory_usage (fst (recency (frag_table nd))) = memory_usage (frag_table nd)"
    by (simp_all add: recency_def Let_def)
  have prim: "primary_hashes (fst (recency (frag_table nd))) = primary_hashes (frag_table nd)"
    by (simp add: recency_def Let_def)
  have "owner_inv (fst (recency (frag_table nd)))"
    using iv(2) recency_inv(2) [OF iv(1) ok] unfolding owner_inv_def frs prim by blast
  then show "node_inv E (nd\<lparr>frag_table := fst (recency (frag_table nd))\<rparr>)"
    using iv recency_inv(1) [OF iv(1) ok]
    unfolding node_inv_def counts_ok_def log_ok_def residents_ok_def pending_ok_def by (simp add: frs)
qed

lemma evict_lru_ok:
  assumes inv: "node_inv E nd"
  obtains e nd' where "evict_lru E target now already nd = (nd', Inl e)"
      and "node_inv E nd'" and "same_config nd nd'" and "residents nd' = residents nd"
      and "\<exists>candidates access. policy_order (sketch_hash E) (eviction nd) candidates access now = Inl e"
  | nd' vs fs n where "evict_lru E target now already nd = (nd', Inr (vs, fs, n))"
      and "node_inv E nd'" and "same_config nd nd'" and "gone_from vs nd nd'"
      and "n = memory_usage (frag_table nd) - memory_usage (frag_table nd')"
      and "n \<ge> target \<or> set vs = fst ` set (residents nd) - set already"
proof -
  define tb where "tb = fst (recency (frag_table nd))"
  define cands where "cands = filter (\<lambda>(h, _). h \<notin> set already) (residents nd)"
  define access where "access = snd (recency (frag_table nd))"
  note r = recency_table [OF inv, folded tb_def]
  let ?nd1 = "nd\<lparr>frag_table := tb\<rparr>"
  have lru: "evict_lru E target now already nd =
      (case policy_order (sketch_hash E) (eviction nd) cands access now of
         Inl e \<Rightarrow> (?nd1, Inl e) | Inr hs \<Rightarrow> evict_loop E True target hs [] [] 0 ?nd1)"
    unfolding evict_lru_def Let_def tb_def cands_def access_def case_prod_beta by simp
  show thesis
  proof (cases "policy_order (sketch_hash E) (eviction nd) cands access now")
    case (Inl e)
    show thesis by (rule that(1) [of ?nd1 e]) (use lru Inl r in auto)
  next
    case (Inr hs)
    have ok: "dict_ok cands" using node_invD(9) [OF inv] by (simp add: cands_def distinct_map_filter)
    have set: "set hs = fst ` set (residents nd) - set already"
      using policy.order_set [OF Inr] by (auto simp: cands_def)
    have has: "list_all (dict_has (residents ?nd1)) hs"
      using set by (simp add: list_all_iff r(2) dict_has_iff)
    obtain nd' k fs n where l: "evict_loop E True target hs [] [] 0 ?nd1 = (nd', Inr ([] @ take k hs, [] @ fs, 0 + n))"
      "node_inv E nd'" "same_config ?nd1 nd'" "gone_from (take k hs) ?nd1 nd'"
      "n = memory_usage (frag_table ?nd1) - memory_usage (frag_table nd')"
      "0 + n \<ge> target \<or> take k hs = hs"
      using evict_loop_ok [OF r(1) policy.order_distinct [OF Inr ok] has,
        where gone = "[]" and frs = "[]" and freed = 0 and dem = True and target = target] by blast
    have all: "n \<ge> target \<or> set (take k hs) = fst ` set (residents nd) - set already"
      using l(6) by (elim disjE) (simp_all add: set)
    have "evict_lru E target now already nd = (nd', Inr (take k hs, fs, n))" using l(1) by (simp add: lru Inr)
    moreover have "same_config nd nd'" "gone_from (take k hs) nd nd'"
      "n = memory_usage (frag_table nd) - memory_usage (frag_table nd')"
      using l(3-5) r(2,3) by (simp_all add: same_config_def gone_from_def)
    ultimately show thesis using that(2) l(2) all by blast
  qed
qed

lemma neighbour_loop_empty:
  "residents nd = [] \<Longrightarrow> neighbour_loop E target ns gone frs freed nd = (nd, Inr (gone, frs, freed))"
  by (induction ns) (simp_all add: table_contains_def dict_has_def)

lemma seed_loop_empty:
  "residents nd = [] \<Longrightarrow> seed_loop E target hs gone frs freed nd = (nd, Inr (gone, frs, freed))"
  by (induction hs) (simp_all add: neighbour_loop_empty)

lemma fire_ok:
  assumes "node_inv E nd"
  shows "node_inv E (fire_eviction_callbacks frs why nd)" "same_config nd (fire_eviction_callbacks frs why nd)"
    "frag_table (fire_eviction_callbacks frs why nd) = frag_table nd"
    "eviction (fire_eviction_callbacks frs why nd) = eviction nd"
    "clock_reads (fire_eviction_callbacks frs why nd) = clock_reads nd"
    "lower_tier (fire_eviction_callbacks frs why nd) = lower_tier nd"
    "content_store (fire_eviction_callbacks frs why nd) = content_store nd"
proof -
  let ?nd = "fire_eviction_callbacks frs why nd"
  obtain fs where ev: "?nd = nd\<lparr>events := events nd @ fs\<rparr>" "\<And>e m. e \<in> set fs \<Longrightarrow> replay_event m e = m"
  proof
    show "?nd = nd\<lparr>events := events nd @ (if frs \<noteq> [] \<and> eviction_counter nd then [EvictionCount why (length frs)] else [])
        @ concat (map (\<lambda>cb. map (EvictionCallback cb) frs) (eviction_callbacks nd))\<rparr>"
      by (simp add: fire_eviction_callbacks_def notify_def Let_def)
  qed (auto split: if_splits)
  then show "node_inv E ?nd"
    using assms replay_silent [of fs "events nd"]
    by (simp add: node_inv_def residents_ok_def counts_ok_def log_ok_def pending_ok_def)
  show "same_config nd ?nd" "frag_table ?nd = frag_table nd" "eviction ?nd = eviction nd"
    "clock_reads ?nd = clock_reads nd" "lower_tier ?nd = lower_tier nd" "content_store ?nd = content_store nd"
    by (simp_all add: ev(1))
qed

lemma evict_keeps_out:
  assumes inv: "node_inv E nd" and "gone_from us nd nd1" and "gone_from vs nd1 nd2"
    and "set vs = fst ` set (residents nd1) - set us"
  shows "residents nd2 = []"
proof -
  have "fst e \<in> set vs" if "e \<in> set (residents nd1)" for e
    using that assms(2,4) by (auto simp: gone_from_def)
  then show ?thesis using assms(3) by (simp add: gone_from_def filter_empty_conv)
qed

text \<open>
  An eviction frees the bytes it was asked for or empties the node; it raises only when the policy does.
  The third stage therefore never has anything left to evict.
\<close>

lemma evict_ok:
  assumes inv: "node_inv E nd" and now: "now = (case current of Some c \<Rightarrow> c | None \<Rightarrow> wall_clock E (clock_reads nd))"
  obtains e nd' where "evict E target current nd = (nd', Inl e)" and "node_inv E nd'" and "same_config nd nd'"
      and "set (residents nd') \<subseteq> set (residents nd)"
      and "\<exists>candidates access. policy_order (sketch_hash E) (eviction nd) candidates access now = Inl e"
  | nd' vs where "evict E target current nd = (nd', Inr vs)" and "node_inv E nd'" and "same_config nd nd'"
      and "residents nd' = filter (\<lambda>e. fst e \<notin> set vs) (residents nd)" and "eviction nd' = eviction nd"
      and "clock_reads nd' = clock_reads nd + (if target \<le> 0 \<or> current \<noteq> None then 0 else 1)"
      and "memory_usage (frag_table nd) - memory_usage (frag_table nd') \<ge> target \<or> residents nd' = []"
proof (cases "target \<le> 0")
  case True
  show thesis by (rule that(2) [of nd "[]"]) (use True inv in \<open>auto simp: evict_def\<close>)
next
  case False
  define nd0 where "nd0 = (case current of Some c \<Rightarrow> nd | None \<Rightarrow> fst (read_clock E nd))"
  have nd0: "node_inv E nd0" "same_config nd nd0" "frag_table nd0 = frag_table nd" "eviction nd0 = eviction nd"
    "clock_reads nd0 = clock_reads nd + (if target \<le> 0 \<or> current \<noteq> None then 0 else 1)"
    using inv False by (simp_all add: nd0_def read_clock_def split: option.splits)
  have start: "(case current of Some c \<Rightarrow> (nd, c) | None \<Rightarrow> read_clock E nd) = (nd0, now)"
    by (simp add: nd0_def now read_clock_def split: option.splits)
  obtain nd1 us frs1 n1 where s1: "evict_expired E target now nd0 = (nd1, Inr (us, frs1, n1))"
    "node_inv E nd1" "same_config nd0 nd1" "gone_from us nd0 nd1"
    "n1 = memory_usage (frag_table nd0) - memory_usage (frag_table nd1)"
    using evict_expired_ok [OF nd0(1)] by metis
  have c1: "same_config nd nd1" using nd0(2) s1(3) by (rule same_config_trans)
  show thesis
  proof (cases "n1 \<ge> target")
    case True
    let ?nd' = "fire_eviction_callbacks frs1 ''capacity'' nd1"
    have "evict E target current nd = (?nd', Inr us)"
      using False True s1(1) by (simp add: evict_def start)
    then show thesis
      by (rule that(2))
         (use fire_ok [OF s1(2)] s1(4,5) nd0 True same_config_trans [OF c1] in \<open>simp_all add: gone_from_def\<close>)
  next
    case small: False
    show thesis
    proof (rule evict_lru_ok [OF s1(2), of "target - n1" now us])
      fix e nd2
      assume l: "evict_lru E (target - n1) now us nd1 = (nd2, Inl e)" "node_inv E nd2" "same_config nd1 nd2"
        "residents nd2 = residents nd1"
        "\<exists>candidates access. policy_order (sketch_hash E) (eviction nd1) candidates access now = Inl e"
      have "evict E target current nd = (nd2, Inl e)"
        using False small s1(1) l(1) by (simp add: evict_def start)
      then show thesis
        by (rule that(1)) (use l s1(4) nd0 same_config_trans [OF c1] in \<open>auto simp: gone_from_def\<close>)
    next
      fix nd2 vs frs2 n2
      assume l: "evict_lru E (target - n1) now us nd1 = (nd2, Inr (vs, frs2, n2))" "node_inv E nd2" "same_config nd1 nd2"
        "gone_from vs nd1 nd2" "n2 = memory_usage (frag_table nd1) - memory_usage (frag_table nd2)"
        "n2 \<ge> target - n1 \<or> set vs = fst ` set (residents nd1) - set us"
      let ?nd' = "fire_eviction_callbacks (frs1 @ frs2) ''capacity'' nd2"
      have empty: "residents nd2 = []" if "\<not> n1 + n2 \<ge> target"
        using evict_keeps_out [OF nd0(1) s1(4) l(4)] l(6) that by simp
      have "evict E target current nd = (?nd', Inr (us @ vs))"
      proof (cases "n1 + n2 \<ge> target")
        case False
        then show ?thesis
          using \<open>\<not> target \<le> 0\<close> small s1(1) l(1) empty
          by (simp add: evict_def start evict_graph_neighbors_def seed_loop_empty)
      qed (use \<open>\<not> target \<le> 0\<close> small s1(1) l(1) in \<open>simp add: evict_def start\<close>)
      moreover have "gone_from (us @ vs) nd0 nd2" using s1(4) l(4) by (rule gone_from_trans)
      moreover have "memory_usage (frag_table nd) - memory_usage (frag_table nd2) \<ge> target \<or> residents nd2 = []"
        using empty s1(5) l(5) nd0(3) by auto
      ultimately show thesis
        by (intro that(2) [of ?nd' "us @ vs"])
           (use fire_ok [OF l(2)] nd0 same_config_trans [OF c1 l(3)] in
             \<open>auto simp: gone_from_def intro: same_config_trans\<close>)
    qed
  qed
qed

lemma sweep_expired_ok:
  assumes inv: "node_inv E nd"
  obtains nd' vs where "sweep_expired E current nd = (nd', Inr vs)" and "node_inv E nd'" and "same_config nd nd'"
    and "eviction nd' = eviction nd"
proof -
  define nd0 where "nd0 = (case current of Some c \<Rightarrow> nd | None \<Rightarrow> fst (read_clock E nd))"
  define now where "now = (case current of Some c \<Rightarrow> c | None \<Rightarrow> wall_clock E (clock_reads nd))"
  have nd0: "node_inv E nd0" "same_config nd nd0" "eviction nd0 = eviction nd"
    using inv by (simp_all add: nd0_def read_clock_def split: option.splits)
  have start: "(case current of Some c \<Rightarrow> (nd, c) | None \<Rightarrow> read_clock E nd) = (nd0, now)"
    by (simp add: nd0_def now_def read_clock_def split: option.splits)
  obtain nd1 us frs n where s: "evict_expired E (memory_usage (frag_table nd0) + 1) now nd0 = (nd1, Inr (us, frs, n))"
    "node_inv E nd1" "same_config nd0 nd1" "gone_from us nd0 nd1"
    using evict_expired_ok [OF nd0(1)] by metis
  show thesis
    by (rule that [of "fire_eviction_callbacks frs ''expired'' nd1" us])
       (use s nd0 fire_ok [OF s(2)] in \<open>auto simp: sweep_expired_def start gone_from_def intro: same_config_trans\<close>)
qed

section \<open>Storing\<close>

lemma touch_table [simp]:
  "fragments (touch k now p tb) = fragments tb" "memory_usage (touch k now p tb) = memory_usage tb"
  "insertion_times (touch k now p tb) = insertion_times tb" "tenant_keys (touch k now p tb) = tenant_keys tb"
  by (simp_all add: touch_def)

lemma touch_owner_inv: "owner_inv tb \<Longrightarrow> dict_has (fragments tb) k \<Longrightarrow> owner_inv (touch k now p tb)"
  by (auto simp: owner_inv_def touch_def)

lemma store_resident_ok:
  assumes inv: "node_inv E nd" and "dict_has (residents nd) k"
  shows "node_inv E (nd\<lparr>frag_table := touch k now p (frag_table nd)\<rparr>)"
  using node_invD [OF inv] assms(2) touch_inv touch_owner_inv
  by (simp add: node_inv_def residents_ok_def counts_ok_def log_ok_def pending_ok_def)

lemma table_add_new:
  "\<not> dict_has (fragments tb) (key f) \<Longrightarrow> fragments (table_add b4 b8 f now tb) = fragments tb @ [(key f, f)]"
  "memory_usage (table_add b4 b8 f now tb) = memory_usage tb + payload_size f"
  "insertion_times (table_add b4 b8 f now tb) = dict_set (insertion_times tb) (key f) now"
  by (simp_all add: table_add_def Let_def dict_set_new)

lemma added_inv:
  assumes inv: "node_inv E nd" and new: "\<not> dict_has (residents nd) (key f)" and f: "valid f"
    and fits: "memory_usage (frag_table nd) + payload_size f \<le> max_memory_bytes nd"
    and ix: "tree_ok (root (positional ix))"
    and tb: "tb = table_add (bucket_hash E) (leaf_hash E) f now (frag_table nd)"
  shows "node_inv E (count_tenant (tenant_id f) 1 (notify (on_store nd) (OnStore f p)
    (nd\<lparr>frag_table := tb, index_system := ix, node_graph := g\<rparr>)))"
proof -
  define nd1 where "nd1 = count_tenant (tenant_id f) 1 (notify (on_store nd) (OnStore f p)
    (nd\<lparr>frag_table := tb, index_system := ix, node_graph := g\<rparr>))"
  note iv = node_invD [OF inv]
  have nd1: "frag_table nd1 = tb" "lower_tier nd1 = lower_tier nd" "index_system nd1 = ix"
    "max_memory_bytes nd1 = max_memory_bytes nd" "on_store nd1 = on_store nd" "on_remove nd1 = on_remove nd"
    "tenant_counts nd1 = map_option (bump_fragment (tenant_id f) 1) (tenant_counts nd)"
    "on_store nd \<Longrightarrow> events nd1 = events nd @ [OnStore f p]"
    by (simp_all add: nd1_def count_tenant_def notify_def)
  have frs: "fragments tb = residents nd @ [(key f, f)]" using new by (simp add: tb table_add_new)
  have none: "map_of (residents nd) (key f) = None" using new unfolding dict_has_def by blast
  have mem: "map_of (fragments tb) k = (if k = key f then Some f else map_of (residents nd) k)" for k
    using none by (simp add: frs map_add_def split: option.splits)
  have "residents_ok nd1" using iv(4) f by (simp add: residents_ok_def nd1 mem)
  moreover have "counts_ok nd1"
    using iv(5) by (auto simp: counts_ok_def nd1 frs bump_fragment_def fun_eq_iff dict_get_set tenant_total_def)
  moreover have "log_ok nd1" using iv(6) by (auto simp: log_ok_def nd1 mem fun_eq_iff)
  moreover have "pending_ok nd1" using iv(7) by (simp add: pending_ok_def nd1)
  moreover have "owner_inv tb" using iv(2) by (auto simp: owner_inv_def tb table_add_def Let_def)
  moreover have "memory_usage tb \<le> max 0 (max_memory_bytes nd)" using fits by (simp add: tb table_add_new)
  ultimately have "node_inv E nd1"
    using iv table_inv_add [OF iv(1) new] ix unfolding node_inv_def nd1 tb by blast
  then show ?thesis by (simp add: nd1_def)
qed

lemma store_new_ok:
  assumes inv: "node_inv E nd" and new: "\<not> dict_has (residents nd) (key f)" and f: "valid f"
    and fits: "memory_usage (frag_table nd) + payload_size f \<le> max_memory_bytes nd"
  obtains nd' where "store_new E f p now nd = (nd', Inr True)" and "node_inv E nd'" and "same_config nd nd'"
    and "residents nd' = residents nd @ [(key f, f)]"
    and "map_of (insertion_times (frag_table nd')) (key f) = Some now"
    and "clock_reads nd' = clock_reads nd" and "lower_tier nd' = lower_tier nd" and "eviction nd' = eviction nd"
proof -
  define tb where "tb = table_add (bucket_hash E) (leaf_hash E) f now (frag_table nd)"
  obtain ix where ix: "index_insert f {node_id nd} (index_system nd) = Inr ix" "tree_ok (root (positional ix))"
    using positional_insert_ok [OF node_invD(8) [OF inv], of f] f
    by (auto simp: index_insert_def Let_def valid_def node_table.defs)
  define nd1 where "nd1 = count_tenant (tenant_id f) 1 (notify (on_store nd) (OnStore f p)
    (nd\<lparr>frag_table := tb, index_system := ix, node_graph := add_node f (node_graph nd)\<rparr>))"
  have inv1: "node_inv E nd1" unfolding nd1_def by (rule added_inv [OF inv new f fits ix(2) tb_def])
  have nd1: "frag_table nd1 = tb" "clock_reads nd1 = clock_reads nd" "lower_tier nd1 = lower_tier nd"
    "eviction nd1 = eviction nd" "same_config nd nd1"
    by (simp_all add: nd1_def count_tenant_def notify_def)
  have frs: "fragments tb = residents nd @ [(key f, f)]" using new by (simp add: tb_def table_add_new)
  have eq: "store_new E f p now nd = (nd1\<lparr>frag_table := touch (key f) now p tb\<rparr>, Inr True)"
    using ix(1) by (simp add: store_new_def Let_def store_resident_def nd1_def tb_def count_tenant_def notify_def)
  show thesis
  proof (rule that [OF eq])
    have "dict_has (residents nd1) (key f)" by (simp add: nd1 frs dict_has_iff)
    from store_resident_ok [OF inv1 this] show "node_inv E (nd1\<lparr>frag_table := touch (key f) now p tb\<rparr>)"
      by (simp add: nd1)
  qed (use nd1 frs in \<open>simp_all add: tb_def table_add_new\<close>)
qed

lemma store_locked_ok:
  assumes inv: "node_inv E nd" and f: "valid f"
  obtains e nd' where "store_locked E f p nd = (nd', Inl e)" and "node_inv E nd'" and "same_config nd nd'"
      and "\<exists>candidates access now. policy_order (sketch_hash E) (eviction nd) candidates access now = Inl e"
  | nd' where "store_locked E f p nd = (nd', Inr False)" and "node_inv E nd'" and "same_config nd nd'"
      and "payload_size f > max_memory_bytes nd"
  | nd' where "store_locked E f p nd = (nd', Inr True)" and "node_inv E nd'" and "same_config nd nd'"
      and "dict_has (residents nd) (key f)" and "residents nd' = residents nd"
  | nd' where "store_locked E f p nd = (nd', Inr True)" and "node_inv E nd'" and "same_config nd nd'"
      and "map_of (residents nd') (key f) = Some f"
      and "map_of (insertion_times (frag_table nd')) (key f) = Some (wall_clock E (clock_reads nd))"
proof -
  note outcomes = that
  define nd0 where "nd0 = fst (read_clock E nd)"
  define now where "now = wall_clock E (clock_reads nd)"
  have rc: "read_clock E nd = (nd0, now)" by (simp add: nd0_def now_def read_clock_def)
  have nd0: "node_inv E nd0" "same_config nd nd0" "frag_table nd0 = frag_table nd" "eviction nd0 = eviction nd"
    "max_memory_bytes nd0 = max_memory_bytes nd"
    using inv by (simp_all add: nd0_def read_clock_def)
  have added: thesis if n1: "node_inv E nd1" "same_config nd nd1" "\<not> dict_has (residents nd1) (key f)"
      "memory_usage (frag_table nd1) + payload_size f \<le> max_memory_bytes nd1"
      "store_locked E f p nd = store_new E f p now nd1" for nd1
  proof (rule store_new_ok [OF n1(1,3) f n1(4), of p now])
    fix nd'
    assume a: "store_new E f p now nd1 = (nd', Inr True)" "node_inv E nd'" "same_config nd1 nd'"
      "residents nd' = residents nd1 @ [(key f, f)]" "map_of (insertion_times (frag_table nd')) (key f) = Some now"
    have "map_of (residents nd1) (key f) = None" using n1(3) unfolding dict_has_def by blast
    then have "map_of (residents nd') (key f) = Some f" by (simp add: a(4) map_add_def)
    then show thesis using outcomes(4) [of nd'] a n1(5) same_config_trans [OF n1(2) a(3)] by (simp add: now_def)
  qed
  consider (old) "dict_has (residents nd) (key f)"
    | (room) "\<not> dict_has (residents nd) (key f)" "memory_usage (frag_table nd) + payload_size f \<le> max_memory_bytes nd"
    | (full) "\<not> dict_has (residents nd) (key f)" "\<not> memory_usage (frag_table nd) + payload_size f \<le> max_memory_bytes nd"
    by blast
  then show thesis
  proof cases
    case old
    have "node_inv E (nd0\<lparr>frag_table := touch (key f) now p (frag_table nd0)\<rparr>)"
      using old nd0(3) by (intro store_resident_ok [OF nd0(1)]) simp
    then show thesis
      using that(3) [of "nd0\<lparr>frag_table := touch (key f) now p (frag_table nd0)\<rparr>"] old nd0
      by (simp add: store_locked_def rc table_contains_def store_resident_def)
  next
    case room
    show thesis
      by (rule added [OF nd0(1,2)]) (use room nd0 in \<open>simp_all add: store_locked_def rc table_contains_def\<close>)
  next
    case full
    have sl: "store_locked E f p nd = (case evict E (payload_size f) None nd0 of
              (nd1, Inl e) \<Rightarrow> (nd1, Inl e)
            | (nd1, Inr _) \<Rightarrow>
                if memory_usage (frag_table nd1) + payload_size f > max_memory_bytes nd1 then (nd1, Inr False)
                else store_new E f p now nd1)"
      using full nd0 by (simp add: store_locked_def rc table_contains_def)
    show thesis
    proof (rule evict_ok [OF nd0(1) refl, of "payload_size f" None])
      fix e nd1
      assume a: "evict E (payload_size f) None nd0 = (nd1, Inl e)" "node_inv E nd1" "same_config nd0 nd1"
        "\<exists>candidates access. policy_order (sketch_hash E) (eviction nd0) candidates access
          (case None of None \<Rightarrow> wall_clock E (clock_reads nd0) | Some c \<Rightarrow> c) = Inl e"
      show thesis
        by (rule that(1) [of nd1 e]) (use a sl nd0(4) same_config_trans [OF nd0(2) a(3)] in auto)
    next
      fix nd1 vs
      assume a: "evict E (payload_size f) None nd0 = (nd1, Inr vs)" "node_inv E nd1" "same_config nd0 nd1"
        "residents nd1 = filter (\<lambda>e. fst e \<notin> set vs) (residents nd0)"
        "memory_usage (frag_table nd0) - memory_usage (frag_table nd1) \<ge> payload_size f \<or> residents nd1 = []"
      have c: "same_config nd nd1" using nd0(2) a(3) by (rule same_config_trans)
      show thesis
      proof (cases "memory_usage (frag_table nd1) + payload_size f > max_memory_bytes nd1")
        case True
        have "payload_size f > max_memory_bytes nd"
        proof (rule ccontr)
          assume small: "\<not> payload_size f > max_memory_bytes nd"
          have lim: "memory_usage (frag_table nd) \<le> max 0 (max_memory_bytes nd)" by (rule node_invD(3) [OF inv])
          have "max_memory_bytes nd1 = max_memory_bytes nd" using c by (simp add: same_config_def)
          moreover have "memory_usage (frag_table nd1) = 0" if "residents nd1 = []"
            using table_invD(3) [OF node_invD(1) [OF a(2)]] that by simp
          moreover have "0 \<le> payload_size f" using f by (rule valid_size)
          ultimately show False using True a(5) small nd0(3) lim by auto
        qed
        then show thesis using that(2) [of nd1] True sl a c by simp
      next
        case False
        have "\<not> dict_has (residents nd1) (key f)"
          using full(1) a(4) nd0(3) by (auto simp: dict_has_iff)
        then show thesis by (rule added [OF a(2) c]) (use False sl a(1) in simp_all)
      qed
    qed
  qed
qed

lemma charge_quota_ok:
  assumes "node_inv E nd" and "charge_quota f nd = (nd1, b)"
  shows "node_inv E nd1" "same_config nd nd1" "frag_table nd1 = frag_table nd" "clock_reads nd1 = clock_reads nd"
    "eviction nd1 = eviction nd" "max_memory_bytes nd1 = max_memory_bytes nd" "tier_choice nd1 = tier_choice nd"
    "lower_tier nd1 = lower_tier nd"
  using assms by (auto simp: charge_quota_def Let_def case_prod_beta split: option.splits)

text \<open>A store that passes the guards is a store under the lock, on a node that differs only in quota and tier.\<close>

lemma store_guarded:
  assumes inv: "node_inv E nd"
  obtains nd1 r where "store E f p caller scs nd = (nd1, r)" and "node_inv E nd1" and "same_config nd nd1"
      and "r = Inl TenantScopeError \<or> r = Inr False" and "frag_table nd1 = frag_table nd"
  | nd1 where "store E f p caller scs nd = store_locked E f p nd1" and "node_inv E nd1" and "same_config nd nd1"
      and "frag_table nd1 = frag_table nd" and "clock_reads nd1 = clock_reads nd" and "eviction nd1 = eviction nd"
      and "payload_size f \<le> max_memory_bytes nd" and "lower_tier nd1 = lower_tier nd"
proof (cases "check_write (tenant_id f) caller scs")
  case (Inl e)
  then have "e = TenantScopeError" using check_write_cases [of "tenant_id f" caller scs] by auto
  then show thesis using that(1) Inl inv by (simp add: store_def)
next
  case (Inr u)
  obtain nd1 b where q: "charge_quota f nd = (nd1, b)" by fastforce
  note c = charge_quota_ok [OF inv q]
  define nd2 where "nd2 = (case tier_choice nd1 of None \<Rightarrow> nd1
      | Some tp \<Rightarrow> nd1\<lparr>selected_tiers := dict_set (selected_tiers nd1) (key f) (select_tier tp f)\<rparr>)"
  have nd2: "node_inv E nd2" "same_config nd nd2" "frag_table nd2 = frag_table nd" "clock_reads nd2 = clock_reads nd"
    "eviction nd2 = eviction nd" "max_memory_bytes nd2 = max_memory_bytes nd" "lower_tier nd2 = lower_tier nd"
    using c by (simp_all add: nd2_def split: option.splits)
  have st: "store E f p caller scs nd =
      (if (case admission nd of None \<Rightarrow> False | Some a \<Rightarrow> \<not> should_admit a (reuse_score f)) then (nd, Inr False)
       else if \<not> b then (nd1, Inr False)
       else if payload_size f > max_memory_bytes nd2 then (nd2, Inr False) else store_locked E f p nd2)"
    by (simp add: store_def Inr q nd2_def Let_def)
  show thesis
    using that(1) [of nd "Inr False"] that(1) [of nd1 "Inr False"] that(1) [of nd2 "Inr False"] that(2) [of nd2]
      st inv c nd2
    by (auto split: if_splits)
qed

lemma store_sound:
  assumes inv: "node_inv E nd" and f: "valid f"
  shows "node_inv E (fst (store E f p caller scs nd))" "same_config nd (fst (store E f p caller scs nd))"
proof (atomize (full), rule store_guarded [OF inv, of f p caller scs])
  fix nd1
  assume g: "store E f p caller scs nd = store_locked E f p nd1" "node_inv E nd1" "same_config nd nd1"
  show "node_inv E (fst (store E f p caller scs nd)) \<and> same_config nd (fst (store E f p caller scs nd))"
    by (rule store_locked_ok [OF g(2) f, of p]) (use g same_config_trans [OF g(3)] in simp_all)
qed simp

section \<open>Promotion and reading\<close>

lemma tier_drop_pending [simp]: "tier_pending (tier_drop dec ch w) = tier_pending w"
proof -
  have r: "tier_pending (fst (reference x d v)) = tier_pending v" for x d v
    by (simp add: reference_def Let_def split: option.splits)
  show ?thesis
    unfolding tier_drop_def Let_def
    by (cases "map_of (tier_index w) ch"; cases "tier_load dec w ch") (auto simp: r case_prod_beta split: option.splits)
qed

lemma node_decode_valid: "node_decode E raw = Some f \<Longrightarrow> valid f"
  by (auto simp: node_decode_def from_dict_def valid_def
      split: option.splits json.splits sum.splits if_splits dest: decode_fragment_ok)

lemma promote_pending:
  assumes pend: "\<And>k f p. map_of (tier_pending w) k = Some (f, p) \<Longrightarrow> valid f"
    and pr: "promote (node_decode E) ch w = (w', r)"
  shows "\<And>k f p. map_of (tier_pending w') k = Some (f, p) \<Longrightarrow> valid f" "\<And>f p. r = Some (f, p) \<Longrightarrow> valid f"
proof -
  have load: "tier_load (node_decode E) w ch = Some f \<Longrightarrow> valid f" for f
    by (auto simp: tier_load_def node_decode_valid split: option.splits)
  show "valid f" if "map_of (tier_pending w') k = Some (f, p)" for k f p
    using that pr pend [of k f p]
    by (auto simp: promote_def Let_def split: option.splits if_splits)
  show "valid f" if "r = Some (f, p)" for f p
    using that pr pend [of ch f p] load
    by (auto simp: promote_def Let_def split: option.splits if_splits)
qed

lemma lower_tier_inv:
  assumes "node_inv E nd" and "\<And>k f p. map_of (tier_pending w) k = Some (f, p) \<Longrightarrow> valid f"
  shows "node_inv E (nd\<lparr>lower_tier := Some w\<rparr>)"
  using assms by (simp add: node_inv_def residents_ok_def counts_ok_def log_ok_def pending_ok_def)

lemma promote_key_sound:
  assumes inv: "node_inv E nd"
  shows "node_inv E (fst (promote_key E k nd))" "same_config nd (fst (promote_key E k nd))"
proof -
  have "node_inv E (fst (promote_key E k nd)) \<and> same_config nd (fst (promote_key E k nd))"
  proof (cases "lower_tier nd")
    case None
    then show ?thesis using inv by (simp add: promote_key_def)
  next
    case (Some w)
    obtain w' r where pr: "promote (node_decode E) k w = (w', r)" by fastforce
    have pend: "\<And>k f p. map_of (tier_pending w) k = Some (f, p) \<Longrightarrow> valid f"
      using node_invD(7) [OF inv] Some unfolding pending_ok_def by blast
    have inv1: "node_inv E (nd\<lparr>lower_tier := Some w'\<rparr>)"
      by (rule lower_tier_inv [OF inv], rule promote_pending(1) [OF _ pr]) (use pend in auto)
    show ?thesis
    proof (cases r)
      case None
      then show ?thesis using Some pr inv1 by (simp add: promote_key_def)
    next
      case (Some q)
      obtain f pl where q: "q = (f, pl)" by fastforce
      have f: "valid f" by (rule promote_pending(2) [OF _ pr]) (use pend Some q in auto)
      define put where "put = (case (payload_ref f, pl) of
          (Some r, Some p) \<Rightarrow> content_put r p (content_store nd) | _ \<Rightarrow> Inr (content_store nd))"
      have pk: "promote_key E k nd = (case put of
            Inl e \<Rightarrow> (nd\<lparr>lower_tier := Some w'\<rparr>, Inl e)
          | Inr cs \<Rightarrow> (case store E f False [] {} (nd\<lparr>lower_tier := Some w', content_store := cs\<rparr>) of
                         (nd2, Inl e) \<Rightarrow> (nd2, Inl e) | (nd2, Inr _) \<Rightarrow> (nd2, Inr ())))"
        using Some q pr \<open>lower_tier nd = Some w\<close>
        by (cases "payload_ref f"; cases pl) (simp_all add: promote_key_def put_def Let_def)
      show ?thesis
      proof (cases put)
        case (Inl e)
        then show ?thesis using inv1 by (simp add: pk)
      next
        case (Inr cs)
        define nd2 where "nd2 = nd\<lparr>lower_tier := Some w', content_store := cs\<rparr>"
        have "node_inv E nd2" using inv1 by (simp add: nd2_def)
        note s = store_sound [OF this f, of False "[]" "{}"]
        have "fst (promote_key E k nd) = fst (store E f False [] {} nd2)"
          by (simp add: pk Inr nd2_def split: prod.splits sum.splits)
        then show ?thesis using s by (simp add: nd2_def same_config_def)
      qed
    qed
  qed
  then show "node_inv E (fst (promote_key E k nd))" "same_config nd (fst (promote_key E k nd))" by simp_all
qed

lemma lookup_node_inv:
  assumes inv: "node_inv E nd" and look: "lookup t k now (frag_table nd) = (tb, entry)"
  shows "node_inv E (nd\<lparr>frag_table := tb\<rparr>)" "entry = resident (frag_table nd) k" "fragments tb = residents nd"
    "insertion_times tb = insertion_times (frag_table nd)" "tenant_keys tb = tenant_keys (frag_table nd)"
proof -
  note iv = node_invD [OF inv]
  note l = lookup_spec [OF table_invD(9) [OF iv(1)] look]
  have frs: "fragments tb = residents nd" "memory_usage tb = memory_usage (frag_table nd)"
    "insertion_times tb = insertion_times (frag_table nd)" "tenant_keys tb = tenant_keys (frag_table nd)"
    by (subst l(3), simp)+
  have "owner_inv tb" using lookup_owner_inv [OF iv(2), of t k now] look by simp
  then show "node_inv E (nd\<lparr>frag_table := tb\<rparr>)"
    using iv lookup_inv [OF iv(1) look]
    by (simp add: node_inv_def residents_ok_def counts_ok_def log_ok_def pending_ok_def frs)
  show "entry = resident (frag_table nd) k" by (rule l(1))
  show "fragments tb = residents nd" "insertion_times tb = insertion_times (frag_table nd)"
    "tenant_keys tb = tenant_keys (frag_table nd)" by (rule frs(1,3,4))+
qed

text \<open>A read never raises; what it returns is resident, readable for the caller and not expired.\<close>

lemma read_key_ok:
  assumes inv: "node_inv E nd"
  obtains nd' r where "read_key E t k caller scs nd = (nd', Inr r)" and "node_inv E nd'" and "same_config nd nd'"
    and "\<And>f. r = Some f \<Longrightarrow> map_of (residents nd) k = Some f \<and> can_read (tenant_id f) caller scs \<and>
      wall_clock E (clock_reads nd) \<le> dict_get (insertion_times (frag_table nd)) k 0 + ttl f"
    and "\<And>f. map_of (residents nd) k = Some f \<Longrightarrow> can_read (tenant_id f) caller scs \<Longrightarrow>
      wall_clock E (clock_reads nd) \<le> dict_get (insertion_times (frag_table nd)) k 0 + ttl f \<Longrightarrow> r = Some f"
    and "r \<noteq> None \<Longrightarrow> residents nd' = residents nd"
proof -
  define now where "now = wall_clock E (clock_reads nd)"
  define nd0 where "nd0 = fst (read_clock E nd)"
  have nd0: "node_inv E nd0" "same_config nd nd0" "frag_table nd0 = frag_table nd" "read_clock E nd = (nd0, now)"
    using inv by (simp_all add: nd0_def now_def read_clock_def)
  obtain tb entry where look: "lookup t k (Some now) (frag_table nd0) = (tb, entry)" by fastforce
  note l = lookup_node_inv [OF nd0(1) look, unfolded nd0(3)]
  define nd1 where "nd1 = nd0\<lparr>frag_table := tb\<rparr>"
  have nd1: "node_inv E nd1" "same_config nd nd1" "residents nd1 = residents nd" "frag_table nd1 = tb"
    using l nd0(2) by (simp_all add: nd1_def)
  have rk: "read_key E t k caller scs nd = (case entry of
         None \<Rightarrow> (nd1, Inr None)
       | Some (f, expires) \<Rightarrow>
           if caller \<noteq> [] \<and> \<not> can_read (tenant_id f) caller scs then (nd1, Inr None)
           else if now > expires then
             if is_expired (frag_table nd1) k now
             then (case remove_fragment E k nd1 of (nd2, Inl e) \<Rightarrow> (nd2, Inl e) | (nd2, Inr _) \<Rightarrow> (nd2, Inr None))
             else (nd1, Inr None)
           else (nd1, Inr (Some f)))"
    unfolding read_key_def nd0(4) Let_def prod.case look nd1_def by simp
  have anon: "can_read x [] scs" for x by (simp add: can_read_iff)
  show thesis
  proof (cases "map_of (residents nd) k")
    case None
    then have "entry = None" using l(2) by (simp add: resident_def)
    with None show thesis by (intro that [of nd1 None]) (use nd1 rk in simp_all)
  next
    case (Some f)
    let ?x = "dict_get (insertion_times (frag_table nd)) k 0 + ttl f"
    have e: "entry = Some (f, ?x)" using l(2) Some by (simp add: resident_def)
    consider (denied) "\<not> can_read (tenant_id f) caller scs" | (ok) "can_read (tenant_id f) caller scs" "now \<le> ?x"
      | (old) "can_read (tenant_id f) caller scs" "now > ?x" by fastforce
    then show thesis
    proof cases
      case denied
      then have "caller \<noteq> []" using anon by auto
      with denied Some show thesis by (intro that [of nd1 None]) (use nd1 rk e in simp_all)
    next
      case ok
      with Some show thesis by (intro that [of nd1 "Some f"]) (use nd1 rk e in \<open>simp_all add: now_def\<close>)
    next
      case old
      show thesis
      proof (cases "is_expired (frag_table nd1) k now")
        case True
        have f1: "map_of (residents nd1) k = Some f" using Some nd1(3) by simp
        obtain nd2 where "remove_fragment E k nd1 = (nd2, Inr f)" "node_inv E nd2" "same_config nd1 nd2"
          using remove_fragment_ok [OF nd1(1) f1] by metis
        with old Some True show thesis
          by (intro that [of nd2 None]) (use nd1 rk e same_config_trans [OF nd1(2)] in \<open>simp_all add: now_def\<close>)
      next
        case False
        with old Some show thesis by (intro that [of nd1 None]) (use nd1 rk e in \<open>simp_all add: now_def\<close>)
      qed
    qed
  qed
qed

lemma retrieve_key_ok:
  assumes inv: "node_inv E nd"
  obtains e nd' where "retrieve_key E t k caller scs nd = (nd', Inl e)" and "node_inv E nd'" and "same_config nd nd'"
  | nd' r where "retrieve_key E t k caller scs nd = (nd', Inr r)" and "node_inv E nd'" and "same_config nd nd'"
    and "\<And>f. r = Some f \<Longrightarrow> key f = k \<and> can_read (tenant_id f) caller scs \<and> valid f \<and> map_of (residents nd') k = Some f"
    and "\<And>f. r = Some f \<Longrightarrow> dict_has (residents nd) k \<Longrightarrow> map_of (residents nd) k = Some f"
proof -
  define nd1 where "nd1 = (if lower_tier nd \<noteq> None \<and> \<not> table_contains (frag_table nd) k
    then fst (promote_key E k nd) else nd)"
  note pk = promote_key_sound [OF inv, of k]
  have nd1: "node_inv E nd1" "same_config nd nd1" using pk inv by (simp_all add: nd1_def)
  show thesis
  proof (cases "\<exists>e. retrieve_key E t k caller scs nd = (nd1, Inl e)")
    case True
    then show thesis using that(1) nd1 by blast
  next
    case False
    then have rk: "retrieve_key E t k caller scs nd = read_key E t k caller scs nd1"
      by (cases "promote_key E k nd") (auto simp: retrieve_key_def nd1_def split: sum.splits)
    show thesis
    proof (rule read_key_ok [OF nd1(1), of t k caller scs])
      fix nd' r
      assume a: "read_key E t k caller scs nd1 = (nd', Inr r)" "node_inv E nd'" "same_config nd1 nd'"
        "\<And>f. r = Some f \<Longrightarrow> map_of (residents nd1) k = Some f \<and> can_read (tenant_id f) caller scs \<and>
          wall_clock E (clock_reads nd1) \<le> dict_get (insertion_times (frag_table nd1)) k 0 + ttl f"
        "r \<noteq> None \<Longrightarrow> residents nd' = residents nd1"
      have "key f = k \<and> can_read (tenant_id f) caller scs \<and> valid f \<and> map_of (residents nd') k = Some f"
        if r: "r = Some f" for f
        using a(4) [OF r] a(5) r table_invD(2) [OF node_invD(1) [OF nd1(1)]] residents_okD [OF node_invD(4) [OF nd1(1)]]
        by auto
      moreover have "map_of (residents nd) k = Some f" if "r = Some f" "dict_has (residents nd) k" for f
        using a(4) [OF that(1)] that(2) by (simp add: nd1_def table_contains_def)
      ultimately show thesis
        using that(2) [of nd' r] rk a(1-3) same_config_trans [OF nd1(2) a(3)] by simp
    qed
  qed
qed

end
