(* ===== verification/Node_Props.thy ===== *)
theory Node_Props
  imports Node_Inv
begin

text \<open>
  The properties of a serving node over all histories of its operations: bookkeeping and memory
  limit, the persistence log, isolation of reads, room for every fragment that fits, and reading
  what was stored.
\<close>

section \<open>Retrieval and hits\<close>

definition answers :: "string \<Rightarrow> string \<Rightarrow> fragment \<Rightarrow> bool" where
  "answers h caller f \<longleftrightarrow> key f = h \<or> key f = fragment_key caller h \<or> payload_hash (identity f) = h"

lemma retrieve_shared_ok:
  assumes inv: "node_inv E nd"
  obtains e nd' where "retrieve_shared E t h caller scs nd = (nd', Inl e)" and "node_inv E nd'" and "same_config nd nd'"
  | nd' r where "retrieve_shared E t h caller scs nd = (nd', Inr r)" and "node_inv E nd'" and "same_config nd nd'"
    and "\<And>f. r = Some f \<Longrightarrow> (key f = h \<or> payload_hash (identity f) = h) \<and> can_read (tenant_id f) caller scs \<and> valid f"
proof (rule retrieve_key_ok [OF inv, of t h caller scs])
  fix e nd1
  assume "retrieve_key E t h caller scs nd = (nd1, Inl e)" "node_inv E nd1" "same_config nd nd1"
  then show thesis using that(1) [of nd1 e] by (simp add: retrieve_shared_def)
next
  fix nd1 r
  assume a: "retrieve_key E t h caller scs nd = (nd1, Inr r)" "node_inv E nd1" "same_config nd nd1"
    "\<And>f. r = Some f \<Longrightarrow> key f = h \<and> can_read (tenant_id f) caller scs \<and> valid f \<and> map_of (residents nd1) h = Some f"
  have rs: "retrieve_shared E t h caller scs nd =
      (if r \<noteq> None \<or> map_of (tenant_keys (frag_table nd1)) h = None then (nd1, Inr r)
       else if caller \<noteq> [] \<and> \<not> has_admin_scope scs then (nd1, Inr None)
       else (case any_tenant_copy (frag_table nd1) h of
               None \<Rightarrow> (nd1, Inr None) | Some other \<Rightarrow> retrieve_key E t other caller scs nd1))"
    by (simp add: retrieve_shared_def a(1))
  show thesis
  proof (cases "\<exists>other. any_tenant_copy (frag_table nd1) h = Some other \<and>
      retrieve_shared E t h caller scs nd = retrieve_key E t other caller scs nd1")
    case False
    then have "retrieve_shared E t h caller scs nd = (nd1, Inr r) \<or> retrieve_shared E t h caller scs nd = (nd1, Inr None)"
      unfolding rs by (auto split: option.splits)
    then show thesis using that(2) a(2-4) by blast
  next
    case True
    then obtain other where o: "any_tenant_copy (frag_table nd1) h = Some other"
      "retrieve_shared E t h caller scs nd = retrieve_key E t other caller scs nd1" by blast
    have "other \<in> set (dict_get (tenant_keys (frag_table nd1)) h [])"
      using o(1) Min_in by (auto simp: any_tenant_copy_def dict_get_def split: option.splits if_splits)
    then have "other \<in> tenant_copies (residents nd1) h"
      using table_invD(8) [OF node_invD(1) [OF a(2)]] by (simp add: tenant_inv_def)
    then obtain g where g: "map_of (residents nd1) other = Some g" "payload_hash (identity g) = h"
      by (auto simp: tenant_copies_def)
    show thesis
    proof (rule retrieve_key_ok [OF a(2), of t other caller scs])
      fix e nd'
      assume "retrieve_key E t other caller scs nd1 = (nd', Inl e)" "node_inv E nd'" "same_config nd1 nd'"
      then show thesis using that(1) [of nd' e] o(2) same_config_trans [OF a(3)] by simp
    next
      fix nd' r'
      assume b: "retrieve_key E t other caller scs nd1 = (nd', Inr r')" "node_inv E nd'" "same_config nd1 nd'"
        "\<And>f. r' = Some f \<Longrightarrow> key f = other \<and> can_read (tenant_id f) caller scs \<and> valid f \<and> map_of (residents nd') other = Some f"
        "\<And>f. r' = Some f \<Longrightarrow> dict_has (residents nd1) other \<Longrightarrow> map_of (residents nd1) other = Some f"
      have "payload_hash (identity f) = h" if "r' = Some f" for f
        using b(5) [OF that] g by (auto simp: dict_has_def)
      then show thesis using that(2) [of nd' r'] o(2) b(1-4) same_config_trans [OF a(3) b(3)] by simp
    qed
  qed
qed

lemma retrieve_ok:
  assumes inv: "node_inv E nd"
  obtains e nd' where "retrieve E t h caller scs nd = (nd', Inl e)" and "node_inv E nd'" and "same_config nd nd'"
  | nd' r where "retrieve E t h caller scs nd = (nd', Inr r)" and "node_inv E nd'" and "same_config nd nd'"
    and "\<And>f. r = Some f \<Longrightarrow> answers h caller f \<and> can_read (tenant_id f) caller scs \<and> valid f"
proof -
  note outcomes = that
  have shared: thesis if s: "node_inv E nd1" "same_config nd nd1"
      "retrieve E t h caller scs nd = retrieve_shared E t h caller scs nd1" for nd1
  proof (rule retrieve_shared_ok [OF s(1), of t h caller scs])
    fix e nd'
    assume "retrieve_shared E t h caller scs nd1 = (nd', Inl e)" "node_inv E nd'" "same_config nd1 nd'"
    then show thesis using outcomes(1) s(3) same_config_trans [OF s(2)] by simp
  next
    fix nd' r
    assume a: "retrieve_shared E t h caller scs nd1 = (nd', Inr r)" "node_inv E nd'" "same_config nd1 nd'"
      "\<And>f. r = Some f \<Longrightarrow> (key f = h \<or> payload_hash (identity f) = h) \<and> can_read (tenant_id f) caller scs \<and> valid f"
    have "answers h caller f \<and> can_read (tenant_id f) caller scs \<and> valid f" if "r = Some f" for f
      using a(4) [OF that] by (auto simp: answers_def)
    then show thesis using outcomes(2) [of nd' r] s(3) a(1,2) same_config_trans [OF s(2) a(3)] by simp
  qed
  consider (full) "KEY_SEPARATOR \<in> set h"
    | (own) "KEY_SEPARATOR \<notin> set h" "caller \<noteq> []" "caller \<noteq> DEFAULT_TENANT"
    | (anon) "KEY_SEPARATOR \<notin> set h" "caller = [] \<or> caller = DEFAULT_TENANT" by blast
  then show thesis
  proof cases
    case full
    then have eq: "retrieve E t h caller scs nd = retrieve_key E t h caller scs nd" by (simp add: retrieve_def)
    show thesis
    proof (rule retrieve_key_ok [OF inv, of t h caller scs])
      fix e nd'
      assume "retrieve_key E t h caller scs nd = (nd', Inl e)" "node_inv E nd'" "same_config nd nd'"
      then show thesis using outcomes(1) eq by simp
    next
      fix nd' r
      assume a: "retrieve_key E t h caller scs nd = (nd', Inr r)" "node_inv E nd'" "same_config nd nd'"
        "\<And>f. r = Some f \<Longrightarrow> key f = h \<and> can_read (tenant_id f) caller scs \<and> valid f \<and> map_of (residents nd') h = Some f"
      show thesis
      proof (rule outcomes(2) [OF _ a(2,3)])
        show "retrieve E t h caller scs nd = (nd', Inr r)" using eq a(1) by simp
        show "answers h caller f \<and> can_read (tenant_id f) caller scs \<and> valid f" if "r = Some f" for f
          using a(4) [OF that] by (simp add: answers_def)
      qed
    qed
  next
    case anon
    then show thesis by (intro shared [OF inv]) (auto simp: retrieve_def)
  next
    case own
    show thesis
    proof (rule retrieve_key_ok [OF inv, of t "fragment_key caller h" caller scs])
      fix e nd1
      assume "retrieve_key E t (fragment_key caller h) caller scs nd = (nd1, Inl e)" "node_inv E nd1" "same_config nd nd1"
      then show thesis using outcomes(1) own by (simp add: retrieve_def)
    next
      fix nd1 r
      assume a: "retrieve_key E t (fragment_key caller h) caller scs nd = (nd1, Inr r)" "node_inv E nd1" "same_config nd nd1"
        "\<And>f. r = Some f \<Longrightarrow> key f = fragment_key caller h \<and> can_read (tenant_id f) caller scs \<and> valid f \<and>
          map_of (residents nd1) (fragment_key caller h) = Some f"
      show thesis
      proof (cases r)
        case None
        then show thesis using shared [OF a(2,3)] a(1) own by (simp add: retrieve_def)
      next
        case (Some f)
        have "retrieve E t h caller scs nd = (nd1, Inr (Some f))" using Some a(1) own by (simp add: retrieve_def)
        moreover have "answers h caller f \<and> can_read (tenant_id f) caller scs \<and> valid f"
          using a(4) [OF Some] by (simp add: answers_def)
        ultimately show thesis using outcomes(2) a(2,3) by blast
      qed
    qed
  qed
qed

lemma hit_fields [simp]:
  "key (observer_record_hit ob f) = key f" "payload_size (observer_record_hit ob f) = payload_size f"
  "version_id (observer_record_hit ob f) = version_id f" "payload_ref (observer_record_hit ob f) = payload_ref f"
  "identity (observer_record_hit ob f) = identity f" "tenant_id (observer_record_hit ob f) = tenant_id f"
  "ttl (observer_record_hit ob f) = ttl f" "unscored (observer_record_hit ob f) = unscored f"
  by (simp_all add: observer_record_hit_def key_def unscored_def)

lemma hit_valid: "valid f \<Longrightarrow> valid (observer_record_hit HitObserver f)"
  by (auto simp: valid_def fragment_ok_def observer_record_hit_def hit_score_def HitObserver_def)

definition rescored :: "string \<Rightarrow> (string, fragment) dict \<Rightarrow> (string, fragment) dict" where
  "rescored k frs = map (\<lambda>(k', f). (k', if k' = k then observer_record_hit HitObserver f else f)) frs"

lemma rescored_simps:
  "map_of (rescored k frs) x = map_option (\<lambda>f. if x = k then observer_record_hit HitObserver f else f) (map_of frs x)"
  "map fst (rescored k frs) = map fst frs"
  "sum_list (map (\<lambda>e. payload_size (snd e)) (rescored k frs)) = sum_list (map (\<lambda>e. payload_size (snd e)) frs)"
  "ref_count (rescored k frs) r = ref_count frs r" "tenant_total (rescored k frs) t = tenant_total frs t"
proof -
  show "map_of (rescored k frs) x = map_option (\<lambda>f. if x = k then observer_record_hit HitObserver f else f) (map_of frs x)"
    unfolding rescored_def by (rule map_of_map_snd)
  show "map fst (rescored k frs) = map fst frs" by (simp add: rescored_def comp_def case_prod_beta)
  show "sum_list (map (\<lambda>e. payload_size (snd e)) (rescored k frs)) = sum_list (map (\<lambda>e. payload_size (snd e)) frs)"
    by (induction frs) (auto simp: rescored_def)
  show "ref_count (rescored k frs) r = ref_count frs r" "tenant_total (rescored k frs) t = tenant_total frs t"
    by (induction frs) (auto simp: rescored_def ref_count_def tenant_total_def split: if_splits)
qed

lemma rescore_table_inv:
  assumes inv: "table_inv b4 b8 tb"
  shows "table_inv b4 b8 (rescore k (observer_record_hit HitObserver) tb)"
proof -
  define tb' where "tb' = rescore k (observer_record_hit HitObserver) tb"
  let ?g = "\<lambda>x f. if x = k then observer_record_hit HitObserver f else f"
  note iv = table_invD [OF inv]
  have frs: "fragments tb' = rescored k (fragments tb)" by (simp add: tb'_def rescore_def rescored_def)
  have tb': "memory_usage tb' = memory_usage tb" "digest tb' = digest tb" "insertion_times tb' = insertion_times tb"
    "payload_refs tb' = payload_refs tb" "tenant_keys tb' = tenant_keys tb"
    by (simp_all add: tb'_def rescore_def)
  have res: "resident tb' x = map_option (\<lambda>(f, e). (?g x f, e)) (resident tb x)" for x
    by (cases "map_of (fragments tb) x") (simp_all add: resident_def frs rescored_simps tb')
  have cached': "\<exists>c0. map_of (caches tb) t = Some c0 \<and>
      map_of (cached c) x = map_option (\<lambda>e. if x = k then (observer_record_hit HitObserver (fst e), snd e) else e) (map_of (cached c0) x)"
    if "map_of (caches tb') t = Some c" for t c x
    using that unfolding tb'_def rescore_def by (auto simp: map_of_map_snd)
  have "cache_inv tb'"
    unfolding cache_inv_def
  proof (intro allI impI)
    fix t c x e
    assume c: "map_of (caches tb') t = Some c" and e: "map_of (cached c) x = Some e"
    obtain c0 where c0: "map_of (caches tb) t = Some c0" "map_of (cached c) x
        = map_option (\<lambda>e. if x = k then (observer_record_hit HitObserver (fst e), snd e) else e) (map_of (cached c0) x)"
      using cached' [OF c] by blast
    then obtain e0 where e0: "map_of (cached c0) x = Some e0"
      "e = (if x = k then (observer_record_hit HitObserver (fst e0), snd e0) else e0)"
      using e by (cases "map_of (cached c0) x") auto
    then show "resident tb' x = Some e"
      using cache_invD [OF iv(9) c0(1) e0(1)] by (auto simp: res case_prod_beta)
  qed
  moreover have "refs_inv tb'" using iv(7) by (simp add: refs_inv_def tb' frs rescored_simps)
  moreover have "tenant_copies (fragments tb') h = tenant_copies (fragments tb) h" for h
  proof (rule set_eqI)
    show "x \<in> tenant_copies (fragments tb') h \<longleftrightarrow> x \<in> tenant_copies (fragments tb) h" for x
      by (cases "map_of (fragments tb) x") (simp_all add: tenant_copies_def frs rescored_simps)
  qed
  then have "tenant_inv tb'" using iv(8) by (simp add: tenant_inv_def tb')
  moreover have "digest_contents b4 (digest tb') = map_option version_id \<circ> map_of (fragments tb')"
  proof (rule ext)
    show "digest_contents b4 (digest tb') x = (map_option version_id \<circ> map_of (fragments tb')) x" for x
      by (cases "map_of (fragments tb) x") (simp_all add: tb' frs rescored_simps iv(5))
  qed
  moreover have "key f = x" if "map_of (fragments tb') x = Some f" for x f
    using that iv(2) by (auto simp: frs rescored_simps split: if_splits)
  moreover have "dict_has (fragments tb') x = dict_has (fragments tb) x" for x
    by (simp add: dict_has_def frs rescored_simps)
  ultimately have "table_inv b4 b8 tb'"
    using iv unfolding table_inv_def tb' by (simp add: frs rescored_simps(2,3))
  then show ?thesis by (simp add: tb'_def)
qed

lemma record_hit_ok:
  assumes inv: "node_inv E nd"
  shows "node_inv E (fst (record_hit E h nd))" "same_config nd (fst (record_hit E h nd))"
proof -
  note iv = node_invD [OF inv]
  define g where "g k = nd\<lparr>frag_table := rescore k (observer_record_hit HitObserver) (frag_table nd)\<rparr>" for k
  have frs: "residents (g k) = rescored k (residents nd)" for k by (simp add: g_def rescore_def rescored_def)
  have same: "memory_usage (frag_table (g k)) = memory_usage (frag_table nd)"
    "primary_hashes (frag_table (g k)) = primary_hashes (frag_table nd)" for k
    by (simp_all add: g_def rescore_def)
  have "owner_inv (frag_table (g k))" for k
    using iv(2) unfolding owner_inv_def same dict_has_def frs rescored_simps
    by (simp add: g_def rescore_def comp_def case_prod_beta)
  moreover have "residents_ok (g k)" for k
    using iv(4) hit_valid unfolding residents_ok_def frs rescored_simps by (auto split: if_splits)
  moreover have "counts_ok (g k)" for k using iv(5) unfolding counts_ok_def frs rescored_simps by (simp add: g_def)
  moreover have "log_ok (g k)" for k
  proof -
    have "map_option unscored (map_of (rescored k (residents nd)) x) = map_option unscored (map_of (residents nd) x)" for x
      by (cases "map_of (residents nd) x") (simp_all add: rescored_simps)
    then show ?thesis using iv(6) unfolding log_ok_def frs by (simp add: g_def comp_def)
  qed
  moreover have "pending_ok (g k)" for k using iv(7) by (simp add: pending_ok_def g_def)
  ultimately have "node_inv E (g k)" for k
    using iv rescore_table_inv [OF iv(1)] unfolding node_inv_def same by (simp add: g_def)
  then have "node_inv E ((g k)\<lparr>eviction := ep\<rparr>)" for k ep by simp
  moreover have "(g k)\<lparr>eviction := ep\<rparr>
      = nd\<lparr>eviction := ep, frag_table := rescore k (observer_record_hit HitObserver) (frag_table nd)\<rparr>" for k ep
    by (simp add: g_def)
  ultimately have step: "node_inv E (nd\<lparr>eviction := ep, frag_table := rescore k (observer_record_hit HitObserver) (frag_table nd)\<rparr>)"
    for k ep by metis
  have "ep = WeightedLRU" if "eviction nd = WeightedLRU" "policy_touch (sketch_hash E) k (eviction nd) = Inr ep" for k ep
    using that by simp
  then show "node_inv E (fst (record_hit E h nd))" "same_config nd (fst (record_hit E h nd))"
    using inv step by (simp_all add: record_hit_def same_config_def split: option.splits sum.splits)
qed

section \<open>Histories\<close>

text \<open>
  What is done to a node: requests, removals, evictions, sweeps and hits, the producer writing payloads
  into the content store, the warm tier's writer thread and a reader thread that ends. Only
  constructed fragments can be stored.
\<close>

datatype node_op =
    StoreOp fragment bool string "string set" | RetrieveOp nat string string "string set"
  | RemoveOp string | EvictOp int "real option" | SweepOp "real option" | HitOp string
  | PayloadOp string bytes | DrainOp | ReaderExitOp nat | CallbackOp string | CounterOp bool

fun node_step :: "node_env \<Rightarrow> node \<Rightarrow> node_op \<Rightarrow> node" where
  "node_step E nd (StoreOp f p caller scs) =
     (case bind_result (PayloadIdentity (identity f)) (\<lambda>_. Fragment_new f) of
        Inl _ \<Rightarrow> nd | Inr g \<Rightarrow> fst (store E g p caller scs nd))"
| "node_step E nd (RetrieveOp t h caller scs) = fst (retrieve E t h caller scs nd)"
| "node_step E nd (RemoveOp k) = fst (remove_fragment E k nd)"
| "node_step E nd (EvictOp target current) = fst (evict E target current nd)"
| "node_step E nd (SweepOp current) = fst (sweep_expired E current nd)"
| "node_step E nd (HitOp h) = fst (record_hit E h nd)"
| "node_step E nd (PayloadOp r p) =
     (case content_put r p (content_store nd) of Inl _ \<Rightarrow> nd | Inr cs \<Rightarrow> nd\<lparr>content_store := cs\<rparr>)"
| "node_step E nd DrainOp =
     nd\<lparr>lower_tier := map_option (drain_one (node_encode E) (node_decode E)) (lower_tier nd)\<rparr>"
| "node_step E nd (ReaderExitOp t) = nd\<lparr>frag_table := thread_exit t (frag_table nd)\<rparr>"
| "node_step E nd (CallbackOp cb) = add_eviction_callback cb nd"
| "node_step E nd (CounterOp b) = set_eviction_counter b nd"

lemma demote_pending: "tier_pending (fst (demote enc dec f p w)) = tier_pending w"
proof -
  have drops: "tier_pending (foldl (\<lambda>w victim. tier_drop dec victim w) v vs) = tier_pending v" for v vs
    by (induction vs arbitrary: v) simp_all
  have r: "tier_pending (fst (reference x d v)) = tier_pending v" for x d v
    by (simp add: reference_def Let_def split: option.splits)
  show ?thesis
    unfolding demote_def Let_def by (simp add: drops r split: option.split)
qed

lemma drain_pending:
  assumes "map_of (tier_pending (drain_one enc dec w)) k = Some q"
  shows "map_of (tier_pending w) k = Some q"
  using assms by (auto simp: drain_one_def Let_def demote_pending split: list.splits option.splits if_splits)

lemma node_step_ok:
  assumes inv: "node_inv E nd"
  shows "node_inv E (node_step E nd x)" "same_config nd (node_step E nd x)"
proof (atomize (full), cases x)
  case (StoreOp f p caller scs)
  show "node_inv E (node_step E nd x) \<and> same_config nd (node_step E nd x)"
  proof (cases "bind_result (PayloadIdentity (identity f)) (\<lambda>_. Fragment_new f)")
    case (Inl e)
    then show ?thesis using inv StoreOp by simp
  next
    case (Inr g)
    then have "valid g"
      by (auto simp: valid_def PayloadIdentity_def identity_post_init_Inr)
    moreover have "node_step E nd x = fst (store E g p caller scs nd)"
      unfolding StoreOp node_step.simps Inr by simp
    ultimately show ?thesis using store_sound [OF inv] by simp
  qed
next
  case (RetrieveOp t h caller scs)
  then have eq: "node_step E nd x = fst (retrieve E t h caller scs nd)" by simp
  show "node_inv E (node_step E nd x) \<and> same_config nd (node_step E nd x)"
    unfolding eq by (rule retrieve_ok [OF inv, of t h caller scs]) simp_all
next
  case (RemoveOp k)
  show "node_inv E (node_step E nd x) \<and> same_config nd (node_step E nd x)"
  proof (cases "map_of (residents nd) k")
    case None
    then show ?thesis using inv RemoveOp by (simp add: remove_fragment_def table_pop_def)
  next
    case (Some f)
    obtain nd' where "remove_fragment E k nd = (nd', Inr f)" "node_inv E nd'" "same_config nd nd'"
      using remove_fragment_ok [OF inv Some] by metis
    then show ?thesis using RemoveOp by simp
  qed
next
  case (EvictOp target current)
  then have eq: "node_step E nd x = fst (evict E target current nd)" by simp
  show "node_inv E (node_step E nd x) \<and> same_config nd (node_step E nd x)"
    unfolding eq by (rule evict_ok [OF inv refl, of target current]) simp_all
next
  case (SweepOp current)
  then have eq: "node_step E nd x = fst (sweep_expired E current nd)" by simp
  show "node_inv E (node_step E nd x) \<and> same_config nd (node_step E nd x)"
    unfolding eq by (rule sweep_expired_ok [OF inv, of current]) simp_all
next
  case DrainOp
  have "pending_ok (node_step E nd x)"
    unfolding pending_ok_def
  proof (intro allI impI)
    fix w' k f p
    assume "lower_tier (node_step E nd x) = Some w'" and q: "map_of (tier_pending w') k = Some (f, p)"
    then obtain w where w: "lower_tier nd = Some w" "w' = drain_one (node_encode E) (node_decode E) w"
      by (auto simp: DrainOp)
    show "valid f"
      using drain_pending [OF q [unfolded w(2)]] w(1) node_invD(7) [OF inv] unfolding pending_ok_def by blast
  qed
  then show "node_inv E (node_step E nd x) \<and> same_config nd (node_step E nd x)"
    using inv by (simp add: DrainOp node_inv_def residents_ok_def counts_ok_def log_ok_def)
next
  case (ReaderExitOp t)
  note iv = node_invD [OF inv]
  have te: "fragments (thread_exit t tb) = fragments tb" "memory_usage (thread_exit t tb) = memory_usage tb"
    "owner_inv tb \<Longrightarrow> owner_inv (thread_exit t tb)" for tb
    by (auto simp: thread_exit_def owner_inv_def split: option.splits)
  show "node_inv E (node_step E nd x) \<and> same_config nd (node_step E nd x)"
    using iv thread_exit_inv [OF iv(1)] te
    by (simp add: ReaderExitOp node_inv_def residents_ok_def counts_ok_def log_ok_def pending_ok_def)
qed (use inv record_hit_ok [OF inv] in \<open>simp_all add: add_eviction_callback_def set_eviction_counter_def split: sum.splits\<close>)

text \<open>
  A node as the runtime starts it: with or without a warm tier on a disk, with or without persistence
  hooks.
\<close>

definition start_node ::
  "node_env \<Rightarrow> ((string, bytes) dict \<times> int \<times> tier_policy) option \<Rightarrow> bool \<Rightarrow> node \<Rightarrow> node" where
  "start_node E tier hooked nd =
     set_persistence_hooks hooked hooked
       (nd\<lparr>lower_tier := map_option (\<lambda>(disk, cap, rules). WarmTier (node_decode E) disk cap rules) tier\<rparr>)"

lemma tier_scan_pending: "tier_pending (tier_scan dec ks w) = tier_pending w"
proof (induction ks arbitrary: w)
  case (Cons k ks)
  have r: "tier_pending (fst (reference x d v)) = tier_pending v" for x d v
    by (simp add: reference_def Let_def split: option.splits)
  show ?case by (simp add: Cons r split: option.split)
qed simp

lemma start_node_inv: "node_inv E (start_node E tier hooked (Node i m measured adm qs tp fr strategy))"
  by (auto simp: start_node_def set_persistence_hooks_def Node_def node_inv_def table_inv_init owner_inv_def
      residents_ok_def counts_ok_def log_ok_def pending_ok_def index_init_def positional_init_def
      WarmTier_def tier_scan_pending tenant_total_def replay_def tree_ok_def ordered_def fun_eq_iff dict_get_def)
     (simp_all add: table_init_def)

interpretation node_history: stepping "node_step E" "\<lambda>nd. node_inv E nd \<and> same_config nd0 nd" for E nd0
  by unfold_locales (use node_step_ok same_config_trans in blast)

lemma node_run_ok:
  assumes "nd0 = start_node E tier hooked (Node i m measured adm qs tp fr strategy)"
  shows "node_inv E (foldl (node_step E) nd0 ops)" "same_config nd0 (foldl (node_step E) nd0 ops)"
  using node_history.run_ok [of E nd0 nd0] start_node_inv by (simp_all add: assms)

section \<open>Properties\<close>

text \<open>
  C1. Whatever is done to a node, in whatever order, the bytes it reports are the sum of the sizes of
  the resident fragments and never exceed its limit, every resident fragment passed the
  constructors and is stored under its own key, and the per-tenant counter of the metrics is the
  number of resident fragments of the tenant.
\<close>

theorem node_accounting:
  "let nd = foldl (node_step E) (start_node E tier hooked (Node i m measured adm qs tp fr strategy)) ops in
     get_memory_usage nd = sum_list (map (\<lambda>e. payload_size (snd e)) (fragment_snapshot nd))
   \<and> get_memory_usage nd \<in> {0..max 0 m}
   \<and> set (fragment_snapshot nd) \<subseteq> {(k, f). key f = k \<and> fragment_ok f \<and> identity_ok (identity f)}
   \<and> distinct (map fst (fragment_snapshot nd))
   \<and> (case tenant_counts nd of None \<Rightarrow> True
      | Some c \<Rightarrow> (\<lambda>t. dict_get c t 0)
          = (\<lambda>t. int (length (filter (\<lambda>e. tenant_id (snd e) = t) (fragment_snapshot nd)))))"
proof -
  define nd where "nd = foldl (node_step E) (start_node E tier hooked (Node i m measured adm qs tp fr strategy)) ops"
  have inv: "node_inv E nd" and cfg: "max_memory_bytes nd = m"
    using node_run_ok [OF refl, of E tier hooked i m measured adm qs tp fr strategy ops]
    by (simp_all add: nd_def same_config_def start_node_def set_persistence_hooks_def Node_def)
  note iv = node_invD [OF inv]
  have "key f = k \<and> valid f" if "(k, f) \<in> set (residents nd)" for k f
    using that iv(9) table_invD(2) [OF iv(1)] residents_okD [OF iv(4)] by (metis map_of_is_SomeI)
  then have "set (residents nd) \<subseteq> {(k, f). key f = k \<and> fragment_ok f \<and> identity_ok (identity f)}"
    by (auto simp: valid_def)
  then show ?thesis
    unfolding Let_def nd_def [symmetric]
    using iv(3,5,9) table_invD(3) [OF iv(1)] memory_nonneg [OF inv] cfg
    by (auto simp: get_memory_usage_def fragment_snapshot_def snapshot_def counts_ok_def tenant_total_def fun_eq_iff
        split: option.splits)
qed

text \<open>
  C2. Replaying the persistence hooks rebuilds the node: after any history of a node whose hooks are
  installed, writing every \<open>on_store\<close> and deleting at every \<open>on_remove\<close>, in the order in which
  they were called, gives exactly the resident fragments (up to the reuse score, which hits
  change without a write). Evictions, expiries, promotions and refused stores are all covered.
\<close>

theorem hooks_replay_residents:
  "let nd = foldl (node_step E) (start_node E tier True (Node i m measured adm qs tp fr strategy)) ops in
     replay (events nd) = map_option unscored \<circ> map_of (fragment_snapshot nd)"
proof -
  define nd where "nd = foldl (node_step E) (start_node E tier True (Node i m measured adm qs tp fr strategy)) ops"
  have "node_inv E nd" "on_store nd" "on_remove nd"
    using node_run_ok [OF refl, of E tier True i m measured adm qs tp fr strategy ops]
    by (simp_all add: nd_def same_config_def start_node_def set_persistence_hooks_def)
  then show ?thesis
    unfolding Let_def nd_def [symmetric]
    by (simp add: node_inv_def log_ok_def fragment_snapshot_def snapshot_def)
qed

text \<open>
  C3. A read never crosses tenants and never answers with other content: whatever a caller asks for,
  in any state a node can reach, a fragment that is returned has the requested storage key, the
  caller's own key for the requested hash, or the requested content hash, and its tenant is one
  the caller may read.
\<close>

theorem retrieve_isolated:
  "let nd = foldl (node_step E) (start_node E tier hooked (Node i m measured adm qs tp fr strategy)) ops in
   (case snd (retrieve E t h caller scs nd) of
      Inr (Some f) \<Rightarrow>
        (caller = [] \<or> has_admin_scope scs \<or> tenant_id f \<in> {caller, SYSTEM_TENANT}) \<and>
        (key f \<in> {h, fragment_key caller h} \<or> payload_hash (identity f) = h)
    | _ \<Rightarrow> True)"
proof -
  define nd where "nd = foldl (node_step E) (start_node E tier hooked (Node i m measured adm qs tp fr strategy)) ops"
  have inv: "node_inv E nd" unfolding nd_def by (rule node_run_ok(1) [OF refl])
  show ?thesis
    unfolding Let_def nd_def [symmetric]
  proof (rule retrieve_ok [OF inv, of t h caller scs])
    fix nd' r
    assume a: "retrieve E t h caller scs nd = (nd', Inr r)"
      "\<And>f. r = Some f \<Longrightarrow> answers h caller f \<and> can_read (tenant_id f) caller scs \<and> valid f"
    show "case snd (retrieve E t h caller scs nd) of
        Inr (Some f) \<Rightarrow> (caller = [] \<or> has_admin_scope scs \<or> tenant_id f \<in> {caller, SYSTEM_TENANT}) \<and>
          (key f \<in> {h, fragment_key caller h} \<or> payload_hash (identity f) = h)
      | _ \<Rightarrow> True"
      using a(1) a(2) by (cases r) (auto simp: can_read_iff answers_def)
  qed simp
qed

text \<open>
  C4. The answer of \<open>store\<close>, in any state a node with the default eviction order can reach: a write of a
  tenant the caller may not write raises; otherwise it is True exactly when the admission policy
  takes the score, the tenant's quota has room and the fragment alone fits the limit. Being full
  is never a reason: eviction always makes enough room.
\<close>

theorem store_decision:
  assumes f: "fragment_ok f" "identity_ok (identity f)"
    and nd: "nd = foldl (node_step E) (start_node E tier hooked (Node i m measured adm qs tp fr None)) ops"
  shows "snd (store E f p caller scs nd) =
    (case check_write (tenant_id f) caller scs of
       Inl e \<Rightarrow> Inl e
     | Inr _ \<Rightarrow> Inr ((case adm of None \<Rightarrow> True | Some a \<Rightarrow> should_admit a (reuse_score f)) \<and>
         (case map_of (quotas nd) (tenant_id f) of None \<Rightarrow> True | Some q \<Rightarrow> snd (quota_admit (payload_size f) q)) \<and>
         payload_size f \<le> m))"
proof (cases "check_write (tenant_id f) caller scs")
  case (Inl e)
  then show ?thesis by (simp add: store_def)
next
  case (Inr u)
  have f: "valid f" using f by (simp add: valid_def)
  have inv: "node_inv E nd" unfolding nd by (rule node_run_ok(1) [OF refl])
  have cfg: "max_memory_bytes nd = m" "admission nd = adm" "eviction nd = WeightedLRU"
    using node_run_ok(2) [OF refl, of E tier hooked i m measured adm qs tp fr None ops]
    by (simp_all add: nd same_config_def start_node_def set_persistence_hooks_def Node_def)
  obtain nd1 b where q: "charge_quota f nd = (nd1, b)" by fastforce
  have b: "b = (case map_of (quotas nd) (tenant_id f) of None \<Rightarrow> True | Some q \<Rightarrow> snd (quota_admit (payload_size f) q))"
    using q by (auto simp: charge_quota_def Let_def case_prod_beta split: option.splits)
  note c = charge_quota_ok [OF inv q]
  define nd2 where "nd2 = (case tier_choice nd1 of None \<Rightarrow> nd1
      | Some tp \<Rightarrow> nd1\<lparr>selected_tiers := dict_set (selected_tiers nd1) (key f) (select_tier tp f)\<rparr>)"
  have nd2: "node_inv E nd2" "max_memory_bytes nd2 = m" "eviction nd2 = WeightedLRU"
    using c cfg by (simp_all add: nd2_def split: option.splits)
  have locked: "snd (store_locked E f p nd2) = Inr True" if "payload_size f \<le> m"
    by (rule store_locked_ok [OF nd2(1) f, of p]) (use that nd2 in auto)
  have "store E f p caller scs nd =
      (if (case adm of None \<Rightarrow> False | Some a \<Rightarrow> \<not> should_admit a (reuse_score f)) then (nd, Inr False)
       else if \<not> b then (nd1, Inr False)
       else if payload_size f > m then (nd2, Inr False) else store_locked E f p nd2)"
    using nd2(2) by (simp add: store_def Inr q nd2_def Let_def cfg(2))
  then show ?thesis
    using locked by (auto simp: Inr b split: option.splits)
qed

definition sample_env :: node_env where
  "sample_env = \<lparr>bucket_hash = length, leaf_hash = (\<lambda>_. 7), sketch_hash = length, json_dumps = (\<lambda>_. []),
     json_loads = (\<lambda>_. None), json_repr = (\<lambda>_. []), parse_float = (\<lambda>_. None), set_order = (\<lambda>_. []),
     wall_clock = real\<rparr>"

lemma sample_ok: "fragment_ok (sample_fragment ''acme'' 1)" "identity_ok (identity (sample_fragment t n))"
  by (simp_all add: sample_fragment_def sample_identity_def identity_ok_def range_ok_def DTYPE_VALUES_def
      fragment_ok_def tenant_ok_def forbidden_tenant_chars_def CONSISTENCY_LEVELS_def)

theorem store_decision_witness:
  "snd (store sample_env (sample_fragment ''acme'' 1) True ''acme'' {}
     (start_node sample_env None False (Node ''n'' 100 False None [] None None None))) = Inr True \<and>
   snd (store sample_env (sample_fragment ''acme'' 1) True ''evil'' {}
     (start_node sample_env None False (Node ''n'' 100 False None [] None None None))) = Inl TenantScopeError"
proof -
  let ?n = "start_node sample_env None False (Node ''n'' 100 False None [] None None None)"
  have n: "?n = foldl (node_step sample_env) ?n []" by simp
  have w: "check_write (tenant_id (sample_fragment ''acme'' 1)) ''acme'' {} = Inr ()"
    "check_write (tenant_id (sample_fragment ''acme'' 1)) ''evil'' {} = Inl TenantScopeError"
    by (simp_all add: sample_fragment_def tenant_defs)
  show ?thesis
    using store_decision [OF sample_ok n, of True "''acme''" "{}"] store_decision [OF sample_ok n, of True "''evil''" "{}"] w
    by (simp add: start_node_def set_persistence_hooks_def Node_def sample_fragment_def)
qed

text \<open>
  C5. Reading what was written: after a successful store of a fragment that was not resident, in any
  state a node can reach, its tenant retrieves exactly that fragment by content hash as long as
  the clock has not passed the time of the store plus the fragment's lifetime.
\<close>

theorem retrieve_after_store:
  assumes f: "fragment_ok f" "identity_ok (identity f)"
    and nd: "nd = foldl (node_step E) (start_node E tier hooked (Node i m measured adm qs tp fr strategy)) ops"
    and new: "\<not> table_contains (frag_table nd) (key f)"
    and stored: "store E f p caller scs nd = (nd', Inr True)"
    and hash: "KEY_SEPARATOR \<notin> set (payload_hash (identity f))"
    and fresh: "wall_clock E (clock_reads nd') \<le> wall_clock E (clock_reads nd) + ttl f"
  shows "snd (retrieve E t (payload_hash (identity f)) (tenant_id f) scs' nd') = Inr (Some f)"
proof -
  let ?h = "payload_hash (identity f)"
  have v: "valid f" using f by (simp add: valid_def)
  have inv: "node_inv E nd" unfolding nd by (rule node_run_ok(1) [OF refl])
  have tenant: "tenant_id f \<noteq> []" using f(1) by (simp add: fragment_ok_def tenant_ok_def)
  have "node_inv E nd' \<and> map_of (residents nd') (key f) = Some f \<and>
      map_of (insertion_times (frag_table nd')) (key f) = Some (wall_clock E (clock_reads nd))"
  proof (rule store_guarded [OF inv, of f p caller scs])
    fix nd1 r
    assume "store E f p caller scs nd = (nd1, r)" "r = Inl TenantScopeError \<or> r = Inr False"
    then show ?thesis using stored by auto
  next
    fix nd1
    assume g: "store E f p caller scs nd = store_locked E f p nd1" "node_inv E nd1" "frag_table nd1 = frag_table nd"
      "clock_reads nd1 = clock_reads nd"
    show ?thesis
      by (rule store_locked_ok [OF g(2) v, of p]) (use stored g new in \<open>auto simp: table_contains_def\<close>)
  qed
  then have inv': "node_inv E nd'" and res: "map_of (residents nd') (key f) = Some f"
    and ins: "map_of (insertion_times (frag_table nd')) (key f) = Some (wall_clock E (clock_reads nd))" by simp_all
  have can: "can_read (tenant_id f) (tenant_id f) scs'" using tenant by (simp add: can_read_iff)
  have key: "snd (retrieve_key E t (key f) (tenant_id f) scs' nd') = Inr (Some f)"
  proof -
    have "dict_has (residents nd') (key f)" using res by (simp add: dict_has_def)
    then have eq: "retrieve_key E t (key f) (tenant_id f) scs' nd' = read_key E t (key f) (tenant_id f) scs' nd'"
      by (simp add: retrieve_key_def table_contains_def)
    show ?thesis
      unfolding eq by (rule read_key_ok [OF inv', of t "key f" "tenant_id f" scs']) (use res can fresh ins in \<open>simp add: dict_get_def\<close>)
  qed
  then obtain nd2 where rk: "retrieve_key E t (key f) (tenant_id f) scs' nd' = (nd2, Inr (Some f))"
    by (metis prod.collapse)
  show ?thesis
  proof (cases "tenant_id f = DEFAULT_TENANT")
    case True
    then have "key f = ?h" by (simp add: key_def fragment_key_def)
    then show ?thesis using hash True rk by (simp add: retrieve_def retrieve_shared_def)
  next
    case False
    have "fragment_key (tenant_id f) ?h = key f" by (simp add: key_def)
    then show ?thesis using hash False rk tenant by (simp add: retrieve_def)
  qed
qed

theorem retrieve_after_store_witness:
  "\<exists>nd'. store sample_env (sample_fragment ''acme'' 1) True [] {}
     (start_node sample_env None False (Node ''n'' 100 False None [] None None None)) = (nd', Inr True) \<and>
   snd (retrieve sample_env 0 ''ab12'' ''acme'' {} nd') = Inr (Some (sample_fragment ''acme'' 1))"
proof -
  let ?n = "start_node sample_env None False (Node ''n'' 100 False None [] None None None)"
    and ?s = "store sample_env (sample_fragment ''acme'' 1) True [] {}
     (start_node sample_env None False (Node ''n'' 100 False None [] None None None))"
  have "snd ?s = Inr True" "clock_reads (fst ?s) = 1" by code_simp+
  then obtain nd' where nd': "?s = (nd', Inr True)" "clock_reads nd' = 1" by (metis prod.collapse)
  have n: "?n = foldl (node_step sample_env) ?n []" by simp
  have "snd (retrieve sample_env 0 (payload_hash (identity (sample_fragment ''acme'' 1)))
      (tenant_id (sample_fragment ''acme'' 1)) {} nd') = Inr (Some (sample_fragment ''acme'' 1))"
    by (rule retrieve_after_store [OF sample_ok n _ nd'(1)])
       (simp_all add: nd'(2) start_node_def set_persistence_hooks_def Node_def table_contains_def table_init_def
         dict_has_def sample_fragment_def sample_identity_def sample_env_def KEY_SEPARATOR_def)
  then show ?thesis using nd'(1) by (auto simp: sample_fragment_def sample_identity_def)
qed


end
