(* ===== verification/Ring.thy ===== *)
theory Ring
  imports Fragment
begin

text \<open>
  The consistent hash ring of \<open>membrane/ring.py\<close>: virtual points of the nodes in the order of their
  digests, the node responsible for a content hash and the replica walk. The digest is an argument.
\<close>

record hash_ring =
  virtual_nodes :: int
  ring :: "(string, string) dict"
  sorted_keys :: "string list"
  node_ids :: "string set"

definition Ring :: "int \<Rightarrow> hash_ring" where
  "Ring v = \<lparr>virtual_nodes = v, ring = [], sorted_keys = [], node_ids = {}\<rparr>"

definition points :: "(string \<Rightarrow> string) \<Rightarrow> int \<Rightarrow> string \<Rightarrow> string list" where
  "points md5 v n = map (\<lambda>i. md5 (n @ '':'' @ str_nat i)) [0..<nat v]"

definition ring_add_node :: "(string \<Rightarrow> string) \<Rightarrow> string \<Rightarrow> hash_ring \<Rightarrow> hash_ring" where
  "ring_add_node md5 n R =
     (if n \<in> node_ids R then R
      else
        let d = foldl (\<lambda>d k. dict_set d k n) (ring R) (points md5 (virtual_nodes R) n)
        in R\<lparr>node_ids := insert n (node_ids R), ring := d, sorted_keys := sort (map fst d)\<rparr>)"

definition ring_remove_node :: "(string \<Rightarrow> string) \<Rightarrow> string \<Rightarrow> hash_ring \<Rightarrow> hash_ring" where
  "ring_remove_node md5 n R =
     (if n \<notin> node_ids R then R
      else
        let d = foldl (\<lambda>d k. dict_del d k) (ring R) (points md5 (virtual_nodes R) n)
        in R\<lparr>node_ids := node_ids R - {n}, ring := d, sorted_keys := sort (map fst d)\<rparr>)"

definition require_non_empty :: "hash_ring \<Rightarrow> unit result" where
  "require_non_empty R = (if sorted_keys R = [] then Inl EmptyRingError else Inr ())"

definition owner_at :: "hash_ring \<Rightarrow> string \<Rightarrow> string result" where
  "owner_at R k = (case map_of (ring R) k of None \<Rightarrow> Inl KeyError | Some n \<Rightarrow> Inr n)"

definition get_node :: "(string \<Rightarrow> string) \<Rightarrow> string \<Rightarrow> hash_ring \<Rightarrow> string result" where
  "get_node md5 h R =
     bind_result (require_non_empty R) (\<lambda>_.
       let idx = bisect_left (sorted_keys R) (md5 (snd (split_key h)))
       in if idx < length (sorted_keys R) then owner_at R (sorted_keys R ! idx)
          else owner_at R (sorted_keys R ! 0))"

fun walk :: "hash_ring \<Rightarrow> int \<Rightarrow> string list \<Rightarrow> string list \<Rightarrow> string list result" where
  "walk R n [] found = Inr found"
| "walk R n (k # ks) found =
     bind_result (owner_at R k) (\<lambda>node.
       if node \<in> set found then walk R n ks found
       else if int (length (found @ [node])) \<ge> n then Inr (found @ [node])
       else walk R n ks (found @ [node]))"

definition get_nodes :: "(string \<Rightarrow> string) \<Rightarrow> string \<Rightarrow> int \<Rightarrow> hash_ring \<Rightarrow> string list result" where
  "get_nodes md5 h n R =
     bind_result (require_non_empty R) (\<lambda>_.
       if n \<le> 0 then Inr []
       else
         let i = bisect_left (sorted_keys R) (md5 (snd (split_key h)))
         in walk R n (drop i (sorted_keys R) @ take i (sorted_keys R)) [])"

section \<open>The successor on the ring\<close>

definition successor :: "string set \<Rightarrow> string \<Rightarrow> string" where
  "successor K x = (if \<exists>k\<in>K. x \<le> k then Min {k \<in> K. x \<le> k} else Min K)"

lemma successor_in: "finite K \<Longrightarrow> K \<noteq> {} \<Longrightarrow> successor K x \<in> K"
proof -
  assume K: "finite K" "K \<noteq> {}"
  have "Min {k \<in> K. x \<le> k} \<in> {k \<in> K. x \<le> k}" if "\<exists>k\<in>K. x \<le> k"
    using that K(1) by (intro Min_in) auto
  then show ?thesis using K by (auto simp: successor_def)
qed

text \<open>The defining property of consistent hashing: more points move a hash only to one of them.\<close>

lemma successor_grow:
  assumes "finite K" and "finite P" and "K \<noteq> {}"
  shows "successor (K \<union> P) x \<in> P \<or> successor (K \<union> P) x = successor K x"
proof (cases "\<exists>k\<in>K \<union> P. x \<le> k")
  case True
  let ?m = "Min {k \<in> K \<union> P. x \<le> k}"
  have m: "?m \<in> {k \<in> K \<union> P. x \<le> k}" using True assms by (intro Min_in) auto
  have "?m = Min {k \<in> K. x \<le> k}" if "?m \<notin> P"
  proof (rule antisym)
    show "?m \<le> Min {k \<in> K. x \<le> k}"
      using m that assms by (intro Min_antimono) auto
    show "Min {k \<in> K. x \<le> k} \<le> ?m"
      using m that assms by (intro Min_le) auto
  qed
  moreover have "\<exists>k\<in>K. x \<le> k" if "?m \<notin> P" using m that by blast
  ultimately show ?thesis using True by (auto simp: successor_def)
next
  case False
  let ?m = "Min (K \<union> P)"
  have m: "?m \<in> K \<union> P" using assms by (intro Min_in) auto
  have "?m = Min K" if "?m \<notin> P"
  proof (rule antisym)
    show "?m \<le> Min K" using assms by (intro Min_antimono) auto
    show "Min K \<le> ?m" using m that assms by (intro Min_le) auto
  qed
  then show ?thesis using False by (auto simp: successor_def)
qed

lemma rotated_hd:
  assumes "sorted ks" and "ks \<noteq> []"
  shows "hd (drop (bisect_left ks x) ks @ take (bisect_left ks x) ks) = successor (set ks) x"
    "ks ! (if bisect_left ks x < length ks then bisect_left ks x else 0) = successor (set ks) x"
proof -
  let ?i = "bisect_left ks x"
  show nth: "ks ! (if ?i < length ks then ?i else 0) = successor (set ks) x"
  proof (cases "?i < length ks")
    case True
    have ge: "x \<le> ks ! ?i" by (rule bisect_left_above [OF assms(1) order_refl True])
    have "Min {k \<in> set ks. x \<le> k} = ks ! ?i"
    proof (rule Min_eqI)
      show "ks ! ?i \<in> {k \<in> set ks. x \<le> k}" using True ge by simp
      show "ks ! ?i \<le> k" if k: "k \<in> {k \<in> set ks. x \<le> k}" for k
      proof -
        obtain j where j: "j < length ks" "ks ! j = k" using k by (auto simp: in_set_conv_nth)
        then have "\<not> j < ?i" using k bisect_left_below [of j ks x] by auto
        then show ?thesis using j assms(1) by (auto simp: sorted_nth_mono)
      qed
    qed simp
    then show ?thesis using True ge by (auto simp: successor_def intro: bexI [of _ "ks ! ?i"])
  next
    case False
    have "?i = length ks" using False bisect_left_le [of ks x] by simp
    then have below: "\<not> x \<le> k" if "k \<in> set ks" for k
      using that bisect_left_below [of _ ks x] by (metis in_set_conv_nth leD)
    have "Min (set ks) = ks ! 0"
      using assms by (intro Min_eqI) (auto simp: in_set_conv_nth sorted_nth_mono)
    then show ?thesis using False below by (auto simp: successor_def)
  qed
  have "hd (drop ?i ks @ take ?i ks) = ks ! (if ?i < length ks then ?i else 0)"
    using assms(2) by (simp add: hd_append hd_drop_conv_nth hd_conv_nth)
  then show "hd (drop ?i ks @ take ?i ks) = successor (set ks) x" using nth by simp
qed

section \<open>Invariant\<close>

definition ring_inv :: "hash_ring \<Rightarrow> bool" where
  "ring_inv R \<longleftrightarrow> dict_ok (ring R) \<and> sorted_keys R = sort (map fst (ring R))"

lemma foldl_set_keys:
  "dict_ok d \<Longrightarrow> dict_ok (foldl (\<lambda>d k. dict_set d k n) d ps) \<and>
    map_of (foldl (\<lambda>d k. dict_set d k n) d ps) = (\<lambda>k. if k \<in> set ps then Some n else map_of d k)"
  by (induction ps arbitrary: d) (auto simp: fun_eq_iff)

lemma foldl_del_keys:
  "dict_ok d \<Longrightarrow> dict_ok (foldl (\<lambda>d k. dict_del d k) d ps) \<and>
    map_of (foldl (\<lambda>d k. dict_del d k) d ps) = (\<lambda>k. if k \<in> set ps then None else map_of d k)"
  by (induction ps arbitrary: d) (auto simp: fun_eq_iff)

lemma ring_add_node_inv: "ring_inv R \<Longrightarrow> ring_inv (ring_add_node md5 n R)"
  using foldl_set_keys [of "ring R"] by (auto simp: ring_inv_def ring_add_node_def Let_def)

lemma ring_remove_node_inv: "ring_inv R \<Longrightarrow> ring_inv (ring_remove_node md5 n R)"
  using foldl_del_keys [of "ring R"] by (auto simp: ring_inv_def ring_remove_node_def Let_def)

datatype ring_op = AddNode string | RemoveNode string

fun ring_step :: "(string \<Rightarrow> string) \<Rightarrow> hash_ring \<Rightarrow> ring_op \<Rightarrow> hash_ring" where
  "ring_step md5 R (AddNode n) = ring_add_node md5 n R"
| "ring_step md5 R (RemoveNode n) = ring_remove_node md5 n R"

interpretation ring_history: stepping "ring_step md5" ring_inv for md5
proof
  show "ring_inv (ring_step md5 R x)" if "ring_inv R" for R x
    using that by (cases x) (simp_all add: ring_add_node_inv ring_remove_node_inv)
qed

lemma ring_run_inv: "ring_inv (foldl (ring_step md5) (Ring v) ops)"
  by (rule ring_history.run_ok) (simp add: ring_inv_def Ring_def)

text \<open>The node of a hash is the owner of the successor point; an empty ring raises.\<close>

abbreviation ring_points :: "hash_ring \<Rightarrow> string set" where
  "ring_points R \<equiv> dom (map_of (ring R))"

lemma get_node_eq:
  assumes "ring_inv R"
  shows "get_node md5 h R =
    (if ring_points R = {} then Inl EmptyRingError
     else owner_at R (successor (ring_points R) (md5 (snd (split_key h)))))"
proof -
  let ?ks = "sorted_keys R"
  have keys: "sorted ?ks" "set ?ks = ring_points R"
    using assms by (simp_all add: ring_inv_def dom_map_of_conv_image_fst)
  show ?thesis
  proof (cases "?ks = []")
    case True
    then show ?thesis using keys(2) by (simp add: get_node_def require_non_empty_def)
  next
    case False
    then have "ring_points R \<noteq> {}" using keys(2) by (metis set_empty)
    moreover have "get_node md5 h R = owner_at R (?ks ! (if bisect_left ?ks (md5 (snd (split_key h))) < length ?ks
        then bisect_left ?ks (md5 (snd (split_key h))) else 0))"
      using False by (simp add: get_node_def require_non_empty_def Let_def)
    ultimately show ?thesis using rotated_hd(2) [OF keys(1) False] keys(2) by simp
  qed
qed

lemma owner_at_in: "map_of (ring R) k = Some n \<Longrightarrow> owner_at R k = Inr n"
  by (simp add: owner_at_def)

lemma add_node_points:
  assumes "ring_inv R" and "n \<notin> node_ids R"
  shows "map_of (ring (ring_add_node md5 n R))
    = (\<lambda>k. if k \<in> set (points md5 (virtual_nodes R) n) then Some n else map_of (ring R) k)"
  using foldl_set_keys [of "ring R"] assms by (simp add: ring_add_node_def Let_def ring_inv_def)

lemma remove_node_points:
  assumes "ring_inv R" and "n \<in> node_ids R"
  shows "map_of (ring (ring_remove_node md5 n R))
    = (\<lambda>k. if k \<in> set (points md5 (virtual_nodes R) n) then None else map_of (ring R) k)"
  using foldl_del_keys [of "ring R"] assms by (simp add: ring_remove_node_def Let_def ring_inv_def)

lemma get_node_add:
  assumes inv: "ring_inv R" and old: "get_node md5 h R = Inr old"
  shows "get_node md5 h (ring_add_node md5 n R) \<in> {Inr old, Inr n}"
proof (cases "n \<in> node_ids R")
  case True
  then show ?thesis using old by (simp add: ring_add_node_def)
next
  case False
  let ?R = "ring_add_node md5 n R" and ?x = "md5 (snd (split_key h))"
    and ?P = "set (points md5 (virtual_nodes R) n)"
  have ne: "ring_points R \<noteq> {}" using old get_node_eq [OF inv, of md5 h] by auto
  note mp = add_node_points [OF inv False, of md5]
  have dom: "ring_points ?R = ring_points R \<union> ?P" by (auto simp: mp dom_def)
  have new: "get_node md5 h ?R = owner_at ?R (successor (ring_points R \<union> ?P) ?x)"
    using get_node_eq [OF ring_add_node_inv [OF inv], of md5 h md5 n] ne by (simp add: dom)
  have fin: "finite (ring_points R)" by (rule finite_dom_map_of)
  from successor_grow [OF fin finite_set ne, of "points md5 (virtual_nodes R) n" ?x] show ?thesis
  proof
    assume "successor (ring_points R \<union> ?P) ?x \<in> ?P"
    then show ?thesis by (simp add: new owner_at_def mp)
  next
    assume eq: "successor (ring_points R \<union> ?P) ?x = successor (ring_points R) ?x"
    show ?thesis
      using old get_node_eq [OF inv, of md5 h] ne unfolding new eq by (auto simp: owner_at_def mp)
  qed
qed

text \<open>Removal: when a node's points are its own, no hash of another node moves.\<close>

lemma get_node_remove:
  assumes inv: "ring_inv R" and old: "get_node md5 h R = Inr old" and "old \<noteq> n"
    and own: "n \<in> node_ids R \<Longrightarrow> ring_points R \<inter> set (points md5 (virtual_nodes R) n) \<subseteq> {k. map_of (ring R) k = Some n}"
  shows "get_node md5 h (ring_remove_node md5 n R) = Inr old"
proof (cases "n \<in> node_ids R")
  case False
  then show ?thesis using old by (simp add: ring_remove_node_def)
next
  case True
  let ?R = "ring_remove_node md5 n R" and ?x = "md5 (snd (split_key h))"
    and ?P = "set (points md5 (virtual_nodes R) n)"
  let ?s = "successor (ring_points R) ?x"
  have ne: "ring_points R \<noteq> {}" using old get_node_eq [OF inv, of md5 h] by auto
  have fin: "finite (ring_points R)" by (rule finite_dom_map_of)
  have s: "map_of (ring R) ?s = Some old"
    using old get_node_eq [OF inv, of md5 h] ne by (auto simp: owner_at_def split: option.splits)
  then have sP: "?s \<notin> ?P" using own [OF True] \<open>old \<noteq> n\<close> by auto
  note mp = remove_node_points [OF inv True, of md5]
  have dom: "ring_points ?R = ring_points R - ?P" by (auto simp: mp dom_def)
  have ne': "ring_points R - ?P \<noteq> {}" using s sP by auto
  have un: "(ring_points R - ?P) \<union> (ring_points R \<inter> ?P) = ring_points R" by auto
  have "?s = successor (ring_points R - ?P) ?x"
    using successor_grow [OF _ _ ne', of "ring_points R \<inter> ?P" ?x] fin sP by (auto simp: un)
  moreover have "get_node md5 h ?R = owner_at ?R (successor (ring_points R - ?P) ?x)"
    using get_node_eq [OF ring_remove_node_inv [OF inv], of md5 h md5 n] ne' unfolding dom by simp
  ultimately show ?thesis using s sP by (simp add: owner_at_def mp)
qed

section \<open>Rings without colliding points\<close>

definition labels :: "string set \<Rightarrow> int \<Rightarrow> string set" where
  "labels N v = {n @ '':'' @ str_nat i | n i. n \<in> N \<and> i < nat v}"

definition owns_points :: "(string \<Rightarrow> string) \<Rightarrow> hash_ring \<Rightarrow> bool" where
  "owns_points md5 R \<longleftrightarrow> (\<forall>k n. map_of (ring R) k = Some n \<longleftrightarrow> n \<in> node_ids R \<and> k \<in> set (points md5 (virtual_nodes R) n))"

lemma append_eq_append_conv_notin:
  "x \<notin> set xs \<Longrightarrow> x \<notin> set ys \<Longrightarrow> xs @ x # us = ys @ x # vs \<longleftrightarrow> xs = ys \<and> us = vs"
proof (induction xs arbitrary: ys)
  case Nil
  then show ?case by (cases ys) auto
next
  case (Cons a xs)
  then show ?case by (cases ys) auto
qed

lemma label_inj: "n @ '':'' @ str_nat i = m @ '':'' @ str_nat j \<Longrightarrow> n = m"
proof -
  assume "n @ '':'' @ str_nat i = m @ '':'' @ str_nat j"
  then have "rev (str_nat i) @ CHR '':'' # rev n = rev (str_nat j) @ CHR '':'' # rev m"
    by (metis append_Cons append_Nil rev_append rev_singleton_conv append_assoc rev.simps(2))
  moreover have "CHR '':'' \<notin> set (rev (str_nat i))" "CHR '':'' \<notin> set (rev (str_nat j))"
    using str_nat_not_in [of "CHR '':''"] by (simp_all add: is_digit_char_def)
  ultimately have "rev n = rev m" by (simp add: append_eq_append_conv_notin)
  then show ?thesis by simp
qed

lemma points_disjoint:
  assumes "inj_on md5 (labels N v)" and "n \<in> N" and "m \<in> N" and "n \<noteq> m"
  shows "set (points md5 v n) \<inter> set (points md5 v m) = {}"
proof (rule ccontr)
  assume "\<not> ?thesis"
  then obtain i j where ij: "i < nat v" "j < nat v" "md5 (n @ '':'' @ str_nat i) = md5 (m @ '':'' @ str_nat j)"
    by (auto simp: points_def)
  have "n @ '':'' @ str_nat i \<in> labels N v" "m @ '':'' @ str_nat j \<in> labels N v"
    unfolding labels_def using ij(1,2) assms(2,3) by blast+
  with ij(3) have "n @ '':'' @ str_nat i = m @ '':'' @ str_nat j" by (rule inj_onD [OF assms(1)])
  then show False using label_inj assms(4) by blast
qed

lemma step_owns_points:
  assumes inj: "inj_on md5 (labels N (virtual_nodes R))" and inv: "ring_inv R" and own: "owns_points md5 R"
    and N: "insert n (node_ids R) \<subseteq> N"
  shows "owns_points md5 (ring_add_node md5 n R)" "owns_points md5 (ring_remove_node md5 n R)"
proof -
  have disj: "set (points md5 (virtual_nodes R) m) \<inter> set (points md5 (virtual_nodes R) n) = {}"
    if "m \<in> node_ids R" "m \<noteq> n" for m
    using points_disjoint [OF inj] that N by blast
  have own': "map_of (ring R) k = Some m \<longleftrightarrow> m \<in> node_ids R \<and> k \<in> set (points md5 (virtual_nodes R) m)" for k m
    using own by (simp add: owns_points_def)
  show "owns_points md5 (ring_add_node md5 n R)"
  proof (cases "n \<in> node_ids R")
    case False
    then have fields: "node_ids (ring_add_node md5 n R) = insert n (node_ids R)"
      "virtual_nodes (ring_add_node md5 n R) = virtual_nodes R" by (simp_all add: ring_add_node_def Let_def)
    show ?thesis
      unfolding owns_points_def add_node_points [OF inv False] fields using own' disj False by auto
  qed (use own in \<open>simp add: ring_add_node_def\<close>)
  show "owns_points md5 (ring_remove_node md5 n R)"
  proof (cases "n \<in> node_ids R")
    case True
    then have fields: "node_ids (ring_remove_node md5 n R) = node_ids R - {n}"
      "virtual_nodes (ring_remove_node md5 n R) = virtual_nodes R" by (simp_all add: ring_remove_node_def Let_def)
    show ?thesis
      unfolding owns_points_def remove_node_points [OF inv True] fields using own' disj by auto
  qed (use own in \<open>simp add: ring_remove_node_def\<close>)
qed

lemma ring_step_fields: "virtual_nodes (ring_step md5 R x) = virtual_nodes R"
  by (cases x) (simp_all add: ring_add_node_def ring_remove_node_def Let_def)

fun op_node :: "ring_op \<Rightarrow> string" where
  "op_node (AddNode n) = n"
| "op_node (RemoveNode n) = n"

lemma ring_run_owns:
  assumes inj: "inj_on md5 (labels N v)" and "op_node ` set ops \<subseteq> N"
  shows "owns_points md5 (foldl (ring_step md5) (Ring v) ops) \<and> node_ids (foldl (ring_step md5) (Ring v) ops) \<subseteq> N \<and>
    virtual_nodes (foldl (ring_step md5) (Ring v) ops) = v"
  using assms(2)
proof (induction ops rule: rev_induct)
  case Nil
  show ?case by (auto simp: Ring_def owns_points_def)
next
  case (snoc x ops)
  let ?R = "foldl (ring_step md5) (Ring v) ops"
  have ih: "owns_points md5 ?R" "node_ids ?R \<subseteq> N" "virtual_nodes ?R = v" using snoc by auto
  have x: "op_node x \<in> N" using snoc.prems by auto
  have ins: "insert (op_node x) (node_ids ?R) \<subseteq> N" using ih(2) x by simp
  have inj': "inj_on md5 (labels N (virtual_nodes ?R))" using inj ih(3) by simp
  note s = step_owns_points [OF inj' ring_run_inv ih(1) ins]
  have "owns_points md5 (ring_step md5 ?R x) \<and> node_ids (ring_step md5 ?R x) \<subseteq> N"
  proof (cases x)
    case (AddNode n)
    then show ?thesis using s(1) ih(2) x by (auto simp: ring_add_node_def Let_def)
  next
    case (RemoveNode n)
    then show ?thesis using s(2) ih(2) by (auto simp: ring_remove_node_def Let_def)
  qed
  then show ?case using ih(3) by (simp add: ring_step_fields)
qed

section \<open>The replica walk\<close>

definition owners :: "hash_ring \<Rightarrow> string list \<Rightarrow> string set" where
  "owners R ks = {m. \<exists>k \<in> set ks. map_of (ring R) k = Some m}"

lemma owners_simps: "owners R [] = {}" "map_of (ring R) k = Some m \<Longrightarrow> owners R (k # ks) = insert m (owners R ks)"
  by (auto simp: owners_def)

lemma walk_spec:
  assumes "list_all (dict_has (ring R)) ks" and "distinct found" and "int (length found) < n"
  shows "\<exists>ns. walk R n ks found = Inr (found @ ns) \<and> distinct (found @ ns) \<and> int (length (found @ ns)) \<le> n \<and>
    set ns \<subseteq> owners R ks \<and> (int (length (found @ ns)) = n \<or> owners R ks \<subseteq> set (found @ ns))"
  using assms
proof (induction ks arbitrary: found)
  case Nil
  then show ?case by (intro exI [of _ "[]"]) (simp add: owners_simps)
next
  case (Cons k ks)
  obtain m where m: "map_of (ring R) k = Some m" using Cons.prems(1) by (auto simp: dict_has_def)
  have all: "list_all (dict_has (ring R)) ks" using Cons.prems(1) by simp
  note o = owners_simps(2) [OF m, of ks] and at = owner_at_in [OF m]
  show ?case
  proof (cases "m \<in> set found")
    case True
    obtain ns where ns: "walk R n ks found = Inr (found @ ns)" "distinct (found @ ns)" "int (length (found @ ns)) \<le> n"
      "set ns \<subseteq> owners R ks" "int (length (found @ ns)) = n \<or> owners R ks \<subseteq> set (found @ ns)"
      using Cons.IH [OF all Cons.prems(2,3)] by blast
    show ?thesis using ns True by (intro exI [of _ ns]) (auto simp: at o)
  next
    case False
    show ?thesis
    proof (cases "int (length (found @ [m])) \<ge> n")
      case True
      then show ?thesis using False Cons.prems(2,3) by (intro exI [of _ "[m]"]) (simp add: at o)
    next
      case small: False
      have d: "distinct (found @ [m])" using Cons.prems(2) False by simp
      have l: "int (length (found @ [m])) < n" using small by simp
      obtain ns where ns: "walk R n ks (found @ [m]) = Inr ((found @ [m]) @ ns)" "distinct ((found @ [m]) @ ns)"
        "int (length ((found @ [m]) @ ns)) \<le> n" "set ns \<subseteq> owners R ks"
        "int (length ((found @ [m]) @ ns)) = n \<or> owners R ks \<subseteq> set ((found @ [m]) @ ns)"
        using Cons.IH [OF all d l] by blast
      have "walk R n (k # ks) found = Inr (found @ m # ns)" using ns(1) False small by (simp add: at)
      moreover have "set (m # ns) \<subseteq> owners R (k # ks)" using ns(4) by (auto simp: o)
      moreover have "int (length (found @ m # ns)) = n \<or> owners R (k # ks) \<subseteq> set (found @ m # ns)"
        using ns(5) by (auto simp: o)
      ultimately show ?thesis using ns(2,3) by (intro exI [of _ "m # ns"]) simp
    qed
  qed
qed

lemma walk_prefix: "walk R n ks found = Inr ns \<Longrightarrow> \<exists>ms. ns = found @ ms"
proof (induction ks arbitrary: found)
  case (Cons k ks)
  then show ?case by (fastforce split: if_splits)
qed simp

lemma walk_hd: "map_of (ring R) k = Some m \<Longrightarrow> walk R n (k # ks) [] = Inr ns \<Longrightarrow> hd ns = m"
  by (auto simp: owner_at_in split: if_splits dest: walk_prefix)

lemma get_nodes_spec:
  assumes inv: "ring_inv R" and n: "0 < n" and ne: "ring_points R \<noteq> {}"
  obtains ns where "get_nodes md5 h n R = Inr ns" and "distinct ns" and "int (length ns) = min n (int (card (ran (map_of (ring R)))))"
    and "set ns \<subseteq> ran (map_of (ring R))" and "get_node md5 h R = Inr (hd ns)" and "ns \<noteq> []"
proof -
  let ?i = "bisect_left (sorted_keys R) (md5 (snd (split_key h)))"
  define ks where "ks = drop ?i (sorted_keys R) @ take ?i (sorted_keys R)"
  have keys: "sorted (sorted_keys R)" "set (sorted_keys R) = ring_points R"
    using inv by (simp_all add: ring_inv_def dom_map_of_conv_image_fst)
  then have sk: "sorted_keys R \<noteq> []" using ne by (metis set_empty)
  have set: "set ks = ring_points R"
    using keys(2) by (metis append_take_drop_id ks_def set_append sup_commute)
  have own: "owners R ks = ran (map_of (ring R))" unfolding owners_def set ran_def by auto
  have has: "list_all (dict_has (ring R)) ks" by (auto simp: list_all_iff set dict_has_def)
  obtain ns where ns: "walk R n ks [] = Inr ns" "distinct ns" "int (length ns) \<le> n" "set ns \<subseteq> owners R ks"
    "int (length ns) = n \<or> owners R ks \<subseteq> set ns"
    using walk_spec [OF has, of "[]" n] n by auto
  have gn: "get_nodes md5 h n R = Inr ns"
    using sk n ns(1) by (simp add: get_nodes_def require_non_empty_def ks_def Let_def)
  have fin: "finite (ran (map_of (ring R)))" by (rule finite_ran) (rule finite_dom_map_of)
  have le: "int (length ns) \<le> int (card (ran (map_of (ring R))))"
    using card_mono [OF fin ns(4) [unfolded own]] ns(2) by (simp add: distinct_card)
  have "int (length ns) \<ge> n \<or> int (length ns) \<ge> int (card (ran (map_of (ring R))))"
    using ns(5) card_mono [OF finite_set, of "ran (map_of (ring R))" ns] ns(2) by (auto simp: own distinct_card)
  then have len: "int (length ns) = min n (int (card (ran (map_of (ring R)))))" using ns(3) le by linarith
  have "hd ks = successor (ring_points R) (md5 (snd (split_key h)))"
    unfolding ks_def using rotated_hd(1) [OF keys(1) sk] keys(2) by simp
  moreover obtain k ks' where k: "ks = k # ks'" using set ne by (cases ks) auto
  moreover obtain m where m: "map_of (ring R) k = Some m" using set k by (metis domD list.set_intros(1))
  ultimately have "get_node md5 h R = Inr m" using get_node_eq [OF inv, of md5 h] ne by (simp add: owner_at_in)
  moreover have "hd ns = m" using walk_hd [OF m] ns(1) k by simp
  moreover have "ns \<noteq> []"
  proof -
    have "m \<in> ran (map_of (ring R))" using m by (rule ranI)
    then have "0 < card (ran (map_of (ring R)))" using fin card_gt_0_iff by blast
    then show ?thesis using len n by auto
  qed
  ultimately show thesis using that gn ns(2,4) len own by simp
qed

section \<open>Properties\<close>

text \<open>
  C14. Consistent hashing: in any ring that additions and removals lead to, adding a node moves a content
  hash to that node or leaves it where it is, and removing a node moves only the hashes that node
  was responsible for, provided the digests of the virtual points in use do not collide.
\<close>

theorem ring_minimal_movement:
  assumes "inj_on md5 (labels N v)" and "n \<in> N" and "op_node ` set ops \<subseteq> N"
    and R: "R = foldl (ring_step md5) (Ring v) ops" and old: "get_node md5 h R = Inr old"
  shows "get_node md5 h (ring_add_node md5 n R) \<in> {Inr old, Inr n} \<and>
    (get_node md5 h (ring_remove_node md5 n R) = Inr old \<or> old = n)"
proof -
  have inv: "ring_inv R" unfolding R by (rule ring_run_inv)
  have own: "owns_points md5 R" "virtual_nodes R = v" "node_ids R \<subseteq> N"
    using ring_run_owns [OF assms(1,3)] R by simp_all
  have rm: "ring_points R \<inter> set (points md5 (virtual_nodes R) n) \<subseteq> {k. map_of (ring R) k = Some n}"
    if "n \<in> node_ids R"
    using own(1) that by (auto simp: owns_points_def)
  show ?thesis
    using get_node_add [OF inv old] get_node_remove [OF inv old _ rm] by blast
qed

theorem ring_minimal_movement_witness:
  "get_node id ''h'' (ring_add_node id ''i'' (ring_add_node id ''a'' (Ring 2))) \<in> {Inr ''a'', Inr ''i''} \<and>
   get_node id ''h'' (ring_remove_node id ''i'' (ring_add_node id ''a'' (Ring 2))) = Inr ''a''"
proof -
  have "get_node id ''h'' (ring_add_node id ''a'' (Ring 2)) = Inr ''a''" by code_simp
  with ring_minimal_movement [of id UNIV 2 "''i''" "[AddNode ''a'']" _ "''h''" "''a''"] show ?thesis by simp
qed

text \<open>
  C15. The replica walk: for a positive count it never raises on a non-empty ring and returns that many
  different nodes, or all nodes when there are fewer, and the first of them is the responsible
  node.
\<close>

theorem replica_walk:
  assumes "inj_on md5 (labels N v)" and "op_node ` set ops \<subseteq> N" and v: "0 < v" and n: "0 < n"
    and R: "R = foldl (ring_step md5) (Ring v) ops" and ne: "node_ids R \<noteq> {}"
  shows "\<exists>ns. get_nodes md5 h n R = Inr ns \<and> distinct ns \<and> set ns \<subseteq> node_ids R \<and>
    int (length ns) = min n (int (card (node_ids R))) \<and> get_node md5 h R = Inr (hd ns)"
proof -
  have inv: "ring_inv R" unfolding R by (rule ring_run_inv)
  have own: "owns_points md5 R" "virtual_nodes R = v"
    using ring_run_owns [OF assms(1,2)] R by simp_all
  have first: "md5 (m @ '':'' @ str_nat 0) \<in> set (points md5 v m)" for m using v by (simp add: points_def)
  have "map_of (ring R) (md5 (m @ '':'' @ str_nat 0)) = Some m" if "m \<in> node_ids R" for m
    using own that first [of m] unfolding owns_points_def by blast
  then have "node_ids R \<subseteq> ran (map_of (ring R))" by (meson ranI subsetI)
  moreover have "ran (map_of (ring R)) \<subseteq> node_ids R"
    using own(1) unfolding owns_points_def ran_def by blast
  ultimately have ran: "ran (map_of (ring R)) = node_ids R" by (rule antisym [rotated])
  then have "ring_points R \<noteq> {}" using ne by auto
  then obtain ns where "get_nodes md5 h n R = Inr ns" "distinct ns"
    "int (length ns) = min n (int (card (ran (map_of (ring R)))))" "set ns \<subseteq> ran (map_of (ring R))"
    "get_node md5 h R = Inr (hd ns)"
    using get_nodes_spec [OF inv n] by metis
  then show ?thesis unfolding ran by blast
qed

theorem replica_walk_witness:
  "\<exists>ns. get_nodes id ''h'' 3 (ring_add_node id ''i'' (ring_add_node id ''a'' (Ring 2))) = Inr ns \<and> distinct ns \<and> length ns = 2"
proof -
  have "card (node_ids (ring_add_node id ''i'' (ring_add_node id ''a'' (Ring 2)))) = 2"
    "node_ids (ring_add_node id ''i'' (ring_add_node id ''a'' (Ring 2))) \<noteq> {}"
    by (simp_all add: ring_add_node_def Let_def Ring_def)
  with replica_walk [of id UNIV 2 "[AddNode ''a'', AddNode ''i'']" 3, OF _ _ _ _ refl, of "''h''"] show ?thesis
    by auto
qed

end
