(* ===== verification/Shard.thy ===== *)
theory Shard
  imports Node Ring
begin

text \<open>
  Shard ownership of \<open>membrane/shard.py\<close> on top of the hash ring: the cached primaries and replica
  sets, rebalancing after a topology change, locality-aware placement, migration and snapshots. The
  order in which Python iterates a set is the argument \<open>listing\<close>; the pull, verify and push
  functions of a migration are outside the shard, the outcomes of the first two are arguments.
\<close>

record shard =
  hash_ring :: hash_ring
  replica_count :: int
  shard_attributes :: "(string, node_attributes) dict"
  primary_map :: "(string, string) dict"
  replica_map :: "(string, string set) dict"

definition Shard :: "hash_ring \<Rightarrow> int \<Rightarrow> (string, node_attributes) dict \<Rightarrow> shard" where
  "Shard R n attrs = \<lparr>hash_ring = R, replica_count = n, shard_attributes = attrs, primary_map = [], replica_map = []\<rparr>"

definition assign_shard :: "(string \<Rightarrow> string) \<Rightarrow> string \<Rightarrow> shard \<Rightarrow> shard \<times> string result" where
  "assign_shard md5 h s =
     (case map_of (primary_map s) h of
        Some p \<Rightarrow> (s, Inr p)
      | None \<Rightarrow>
          (case get_node md5 h (hash_ring s) of
             Inl e \<Rightarrow> (s, Inl e)
           | Inr p \<Rightarrow>
               let s1 = s\<lparr>primary_map := dict_set (primary_map s) h p\<rparr>
               in (case get_nodes md5 h (replica_count s1 + 1) (hash_ring s1) of
                     Inl e \<Rightarrow> (s1, Inl e)
                   | Inr ns \<Rightarrow> (s1\<lparr>replica_map := dict_set (replica_map s1) h (set (drop 1 ns))\<rparr>, Inr p))))"

definition get_replicas :: "(string \<Rightarrow> string) \<Rightarrow> string \<Rightarrow> shard \<Rightarrow> shard \<times> string set result" where
  "get_replicas md5 h s =
     (case assign_shard md5 h s of
        (s1, Inl e) \<Rightarrow> (s1, Inl e) | (s1, Inr _) \<Rightarrow> (s1, Inr (dict_get (replica_map s1) h {})))"

definition get_all_nodes :: "(string \<Rightarrow> string) \<Rightarrow> string \<Rightarrow> shard \<Rightarrow> shard \<times> string set result" where
  "get_all_nodes md5 h s =
     (case assign_shard md5 h s of
        (s1, Inl e) \<Rightarrow> (s1, Inl e)
      | (s1, Inr p) \<Rightarrow>
          (case get_replicas md5 h s1 of (s2, Inl e) \<Rightarrow> (s2, Inl e) | (s2, Inr rs) \<Rightarrow> (s2, Inr ({p} \<union> rs))))"

definition is_primary :: "(string \<Rightarrow> string) \<Rightarrow> string \<Rightarrow> string \<Rightarrow> shard \<Rightarrow> shard \<times> bool result" where
  "is_primary md5 h n s =
     (case assign_shard md5 h s of (s1, Inl e) \<Rightarrow> (s1, Inl e) | (s1, Inr p) \<Rightarrow> (s1, Inr (p = n)))"

definition is_replica :: "(string \<Rightarrow> string) \<Rightarrow> string \<Rightarrow> string \<Rightarrow> shard \<Rightarrow> shard \<times> bool result" where
  "is_replica md5 h n s =
     (case get_replicas md5 h s of (s1, Inl e) \<Rightarrow> (s1, Inl e) | (s1, Inr rs) \<Rightarrow> (s1, Inr (n \<in> rs)))"

text \<open>\<open>min(xs, key=f)\<close>: the first element with the least key; an empty argument raises.\<close>

fun min_by :: "('a \<Rightarrow> int) \<Rightarrow> 'a list \<Rightarrow> 'a result" where
  "min_by f [] = Inl ValueError"
| "min_by f [x] = Inr x"
| "min_by f (x # y # zs) = (if f y < f x then min_by f (y # zs) else min_by f (x # zs))"

definition attrs_of :: "shard \<Rightarrow> string \<Rightarrow> node_attributes" where
  "attrs_of s n = dict_get (shard_attributes s) n NodeAttributes"

definition locality_order :: "shard \<Rightarrow> string list \<Rightarrow> string \<Rightarrow> string list" where
  "locality_order s ns p =
     sort_key (\<lambda>n. bandwidth_class (attrs_of s n)) (filter (\<lambda>n. n \<noteq> p \<and> region (attrs_of s n) \<noteq> region (attrs_of s p)) ns)
     @ sort_key (\<lambda>n. bandwidth_class (attrs_of s n)) (filter (\<lambda>n. n \<noteq> p \<and> region (attrs_of s n) = region (attrs_of s p)) ns)"

definition locality_scored_assign ::
  "(string set \<Rightarrow> string list) \<Rightarrow> (string \<Rightarrow> string) \<Rightarrow> string \<Rightarrow> string option \<Rightarrow> shard \<Rightarrow>
   shard \<times> (string \<times> string list) result" where
  "locality_scored_assign listing md5 h primary_region s =
     (case get_all_nodes md5 h s of
        (s1, Inl e) \<Rightarrow> (s1, Inl e)
      | (s1, Inr all_nodes) \<Rightarrow>
          let ns = listing all_nodes in
          if shard_attributes s1 = [] \<or> ns = [] then
            (case assign_shard md5 h s1 of
               (s2, Inl e) \<Rightarrow> (s2, Inl e)
             | (s2, Inr p) \<Rightarrow> (s2, Inr (p, slice_to (replica_count s2) (filter (\<lambda>n. n \<noteq> p) ns))))
          else
            let wanted = (\<lambda>n. case primary_region of None \<Rightarrow> False | Some r \<Rightarrow> region (attrs_of s1 n) = r);
                eligible = (if list_ex wanted ns then filter wanted ns else ns)
            in (case min_by (\<lambda>n. bandwidth_class (attrs_of s1 n)) eligible of
                  Inl e \<Rightarrow> (s1, Inl e)
                | Inr p \<Rightarrow> (s1, Inr (p, slice_to (replica_count s1) (locality_order s1 ns p)))))"

fun rebalance_loop ::
  "(string \<Rightarrow> string) \<Rightarrow> (string, string) dict \<Rightarrow> (string \<times> string \<times> string) list \<Rightarrow> shard \<Rightarrow>
   shard \<times> (string \<times> string \<times> string) list result" where
  "rebalance_loop md5 [] moved s = (s, Inr moved)"
| "rebalance_loop md5 ((h, old) # rest) moved s =
     (case get_node md5 h (hash_ring s) of
        Inl e \<Rightarrow> (s, Inl e)
      | Inr new \<Rightarrow>
          if new = old then rebalance_loop md5 rest moved s
          else
            let s1 = s\<lparr>primary_map := dict_set (primary_map s) h new\<rparr>
            in (case get_nodes md5 h (replica_count s1 + 1) (hash_ring s1) of
                  Inl e \<Rightarrow> (s1, Inl e)
                | Inr ns \<Rightarrow>
                    rebalance_loop md5 rest (moved @ [(h, old, new)])
                      (s1\<lparr>replica_map := dict_set (replica_map s1) h (set (drop 1 ns))\<rparr>)))"

definition shard_rebalance :: "(string \<Rightarrow> string) \<Rightarrow> shard \<Rightarrow> shard \<times> (string \<times> string \<times> string) list result" where
  "shard_rebalance md5 s = rebalance_loop md5 (primary_map s) [] s"

definition shard_add_node :: "(string \<Rightarrow> string) \<Rightarrow> string \<Rightarrow> shard \<Rightarrow> shard \<times> (string \<times> string \<times> string) list result" where
  "shard_add_node md5 n s = shard_rebalance md5 (s\<lparr>hash_ring := ring_add_node md5 n (hash_ring s)\<rparr>)"

definition shard_remove_node :: "(string \<Rightarrow> string) \<Rightarrow> string \<Rightarrow> shard \<Rightarrow> shard \<times> (string \<times> string \<times> string) list result" where
  "shard_remove_node md5 n s = shard_rebalance md5 (s\<lparr>hash_ring := ring_remove_node md5 n (hash_ring s)\<rparr>)"

definition shards_for_node :: "string \<Rightarrow> shard \<Rightarrow> string set" where
  "shards_for_node n s = set (map fst (filter (\<lambda>(h, p). p = n) (primary_map s)))"

definition replica_shards_for_node :: "string \<Rightarrow> shard \<Rightarrow> string set" where
  "replica_shards_for_node n s = set (map fst (filter (\<lambda>(h, rs). n \<in> rs) (replica_map s)))"

text \<open>
  \<open>pulled\<close> and \<open>verified\<close> are what the two functions of a verified migration answer (a raised
  exception counts as False), None when the caller gives no such function. A replica set that is not in
  the map is a fresh one whose changes are lost.
\<close>

definition migrate_primary ::
  "bool option \<Rightarrow> bool option \<Rightarrow> string \<Rightarrow> string \<Rightarrow> string \<Rightarrow> node option \<Rightarrow> shard \<Rightarrow> shard \<times> node option \<times> bool" where
  "migrate_primary pulled verified h leaving local_id nd s =
     (if pulled = Some False \<or> pulled = Some True \<and> verified = Some False then (s, nd, False)
      else
        let s1 = (case map_of (replica_map s) h of
                    None \<Rightarrow> s
                  | Some rs \<Rightarrow>
                      let rs1 = rs - {leaving};
                          rs2 = (if local_id \<notin> rs1 \<and> local_id \<noteq> leaving then insert local_id rs1 else rs1)
                      in s\<lparr>replica_map := dict_set (replica_map s) h rs2\<rparr>);
            s2 = s1\<lparr>primary_map := dict_set (primary_map s1) h local_id\<rparr>;
            nd' = map_option (\<lambda>nd. if table_contains (frag_table nd) h
                     then nd\<lparr>frag_table := (frag_table nd)\<lparr>primary_hashes := insert h (primary_hashes (frag_table nd))\<rparr>\<rparr>
                     else nd) nd
        in (s2, nd', True))"

record shard_snapshot =
  saved_primary :: "(string, string) dict"
  saved_replica :: "(string, string list) dict"

definition save_snapshot :: "shard \<Rightarrow> shard_snapshot" where
  "save_snapshot s =
     \<lparr>saved_primary = primary_map s, saved_replica = map (\<lambda>(h, rs). (h, sorted_list_of_set rs)) (replica_map s)\<rparr>"

definition load_snapshot :: "shard_snapshot option \<Rightarrow> shard \<Rightarrow> shard" where
  "load_snapshot payload s =
     (case payload of
        None \<Rightarrow> s\<lparr>primary_map := [], replica_map := []\<rparr>
      | Some p \<Rightarrow> s\<lparr>primary_map := saved_primary p, replica_map := map (\<lambda>(h, ns). (h, set ns)) (saved_replica p)\<rparr>)"

section \<open>Invariant\<close>

text \<open>Every cached primary is the node the ring names, unless the ring has run empty.\<close>

definition follows_ring :: "(string \<Rightarrow> string) \<Rightarrow> shard \<Rightarrow> bool" where
  "follows_ring md5 s \<longleftrightarrow> ring_points (hash_ring s) = {} \<or>
     list_all (\<lambda>(h, p). get_node md5 h (hash_ring s) = Inr p) (primary_map s)"

definition shard_inv :: "(string \<Rightarrow> string) \<Rightarrow> shard \<Rightarrow> bool" where
  "shard_inv md5 s \<longleftrightarrow> ring_inv (hash_ring s) \<and> dict_ok (primary_map s) \<and> follows_ring md5 s"

lemma get_node_ok: "ring_inv R \<Longrightarrow> ring_points R \<noteq> {} \<Longrightarrow> \<exists>n. get_node md5 h R = Inr n"
proof -
  assume a: "ring_inv R" "ring_points R \<noteq> {}"
  have "successor (ring_points R) (md5 (snd (split_key h))) \<in> ring_points R"
    using a(2) by (intro successor_in finite_dom_map_of) auto
  then obtain n where "map_of (ring R) (successor (ring_points R) (md5 (snd (split_key h)))) = Some n" by blast
  then show ?thesis using get_node_eq [OF a(1), of md5 h] a(2) by (auto simp: owner_at_in)
qed

lemma get_nodes_ok: "ring_inv R \<Longrightarrow> ring_points R \<noteq> {} \<Longrightarrow> \<exists>ns. get_nodes md5 h n R = Inr ns"
proof -
  assume a: "ring_inv R" "ring_points R \<noteq> {}"
  have "set (sorted_keys R) = ring_points R" using a(1) by (simp add: ring_inv_def dom_map_of_conv_image_fst)
  then have "sorted_keys R \<noteq> []" using a(2) by (metis set_empty)
  then show ?thesis
    using get_nodes_spec [OF a(1) _ a(2), of n md5 h]
    by (cases "0 < n") (auto simp: get_nodes_def require_non_empty_def)
qed

text \<open>
  The loop leaves the ring alone, ends with every entry at the node the ring names, and touches the
  replica set of no hash whose primary stays.
\<close>

lemma rebalance_loop_ok:
  assumes "ring_inv (hash_ring s)" and "ring_points (hash_ring s) \<noteq> {}" and "dict_ok (primary_map s)" and "dict_ok todo"
    and "\<forall>h old. (h, old) \<in> set todo \<longrightarrow> map_of (primary_map s) h = Some old"
    and "\<forall>h p. map_of (primary_map s) h = Some p \<longrightarrow> h \<notin> fst ` set todo \<longrightarrow> get_node md5 h (hash_ring s) = Inr p"
  shows "\<exists>s' moved'. rebalance_loop md5 todo moved s = (s', Inr moved') \<and> hash_ring s' = hash_ring s \<and>
    dict_ok (primary_map s') \<and>
    (\<forall>h p. map_of (primary_map s') h = Some p \<longrightarrow> get_node md5 h (hash_ring s) = Inr p) \<and>
    (\<forall>h p. map_of (primary_map s) h = Some p \<longrightarrow> get_node md5 h (hash_ring s) = Inr p \<longrightarrow>
       map_of (replica_map s') h = map_of (replica_map s) h \<and> map_of (primary_map s') h = Some p)"
  using assms
proof (induction todo arbitrary: moved s)
  case Nil
  then show ?case by auto
next
  case (Cons e todo)
  obtain h old where e: "e = (h, old)" by fastforce
  obtain new where new: "get_node md5 h (hash_ring s) = Inr new" using get_node_ok [OF Cons.prems(1,2)] by blast
  obtain ns where ns: "get_nodes md5 h (replica_count s + 1) (hash_ring s) = Inr ns"
    using get_nodes_ok [OF Cons.prems(1,2)] by blast
  have h: "h \<notin> fst ` set todo" "dict_ok todo" using Cons.prems(4) e by auto
  show ?case
  proof (cases "new = old")
    case True
    have "rebalance_loop md5 (e # todo) moved s = rebalance_loop md5 todo moved s" by (simp add: e new True)
    moreover have "\<forall>h' p. map_of (primary_map s) h' = Some p \<longrightarrow> h' \<notin> fst ` set todo \<longrightarrow> get_node md5 h' (hash_ring s) = Inr p"
    proof (intro allI impI)
      show "get_node md5 h' (hash_ring s) = Inr p"
        if p: "map_of (primary_map s) h' = Some p" "h' \<notin> fst ` set todo" for h' p
        using p Cons.prems(5,6) new e True by (cases "h' = h") simp_all
    qed
    moreover have "\<forall>h' old'. (h', old') \<in> set todo \<longrightarrow> map_of (primary_map s) h' = Some old'"
      using Cons.prems(5) by simp
    ultimately show ?thesis using Cons.IH [OF Cons.prems(1-3) h(2), of moved] by simp
  next
    case False
    define s1 where "s1 = s\<lparr>primary_map := dict_set (primary_map s) h new,
      replica_map := dict_set (replica_map s) h (set (drop 1 ns))\<rparr>"
    have loop: "rebalance_loop md5 (e # todo) moved s = rebalance_loop md5 todo (moved @ [(h, old, new)]) s1"
      using False by (simp add: e new ns s1_def Let_def)
    have s1: "hash_ring s1 = hash_ring s" "dict_ok (primary_map s1)"
      "map_of (primary_map s1) = (map_of (primary_map s))(h \<mapsto> new)"
      "map_of (replica_map s1) = (map_of (replica_map s))(h \<mapsto> set (drop 1 ns))"
      using Cons.prems(3) by (simp_all add: s1_def fun_eq_iff)
    have a: "\<forall>h' old'. (h', old') \<in> set todo \<longrightarrow> map_of (primary_map s1) h' = Some old'"
    proof (intro allI impI)
      show "map_of (primary_map s1) h' = Some old'" if t: "(h', old') \<in> set todo" for h' old'
      proof -
        have "h' \<noteq> h" using t h(1) by force
        then show ?thesis using t Cons.prems(5) by (simp add: s1)
      qed
    qed
    have b: "\<forall>h' p. map_of (primary_map s1) h' = Some p \<longrightarrow> h' \<notin> fst ` set todo \<longrightarrow> get_node md5 h' (hash_ring s1) = Inr p"
      using Cons.prems(6) new e by (simp add: s1)
    have pre: "ring_inv (hash_ring s1)" "ring_points (hash_ring s1) \<noteq> {}" using Cons.prems(1,2) s1(1) by simp_all
    obtain s' moved' where ih: "rebalance_loop md5 todo (moved @ [(h, old, new)]) s1 = (s', Inr moved')"
      "hash_ring s' = hash_ring s1" "dict_ok (primary_map s')"
      "\<forall>h p. map_of (primary_map s') h = Some p \<longrightarrow> get_node md5 h (hash_ring s1) = Inr p"
      "\<forall>h p. map_of (primary_map s1) h = Some p \<longrightarrow> get_node md5 h (hash_ring s1) = Inr p \<longrightarrow>
        map_of (replica_map s') h = map_of (replica_map s1) h \<and> map_of (primary_map s') h = Some p"
      using Cons.IH [OF pre s1(2) h(2) a b, of "moved @ [(h, old, new)]"]
      by (elim exE conjE) (rule that, assumption+)
    have "map_of (replica_map s') h' = map_of (replica_map s) h' \<and> map_of (primary_map s') h' = Some p"
      if "map_of (primary_map s) h' = Some p" "get_node md5 h' (hash_ring s) = Inr p" for h' p
    proof -
      have "map_of (primary_map s) h = Some old" using Cons.prems(5) e by simp
      then have "h' \<noteq> h" using that new False by auto
      then show ?thesis using ih(5) that by (simp add: s1)
    qed
    then have "\<forall>h p. map_of (primary_map s) h = Some p \<longrightarrow> get_node md5 h (hash_ring s) = Inr p \<longrightarrow>
        map_of (replica_map s') h = map_of (replica_map s) h \<and> map_of (primary_map s') h = Some p" by blast
    with ih(1-4) show ?thesis
      unfolding loop s1(1) by (intro exI [of _ s'] exI [of _ moved'] conjI)
  qed
qed

lemma rebalance_empty:
  assumes "ring_inv (hash_ring s)" and "ring_points (hash_ring s) = {}"
  shows "shard_rebalance md5 s = (s, if primary_map s = [] then Inr [] else Inl EmptyRingError)"
proof (cases "primary_map s")
  case (Cons e d)
  then show ?thesis
    using get_node_eq [OF assms(1), of md5] assms(2) by (cases e) (simp add: shard_rebalance_def)
qed (simp add: shard_rebalance_def)

lemma rebalance_ok:
  assumes inv: "ring_inv (hash_ring s)" and ok: "dict_ok (primary_map s)"
  shows "shard_inv md5 (fst (shard_rebalance md5 s))" "hash_ring (fst (shard_rebalance md5 s)) = hash_ring s"
    "ring_points (hash_ring s) \<noteq> {} \<Longrightarrow> map_of (primary_map s) h = Some p \<Longrightarrow> get_node md5 h (hash_ring s) = Inr p \<Longrightarrow>
       map_of (replica_map (fst (shard_rebalance md5 s))) h = map_of (replica_map s) h"
proof (atomize (full), cases "ring_points (hash_ring s) = {}")
  case True
  then show "shard_inv md5 (fst (shard_rebalance md5 s)) \<and> hash_ring (fst (shard_rebalance md5 s)) = hash_ring s \<and>
     (ring_points (hash_ring s) \<noteq> {} \<longrightarrow> map_of (primary_map s) h = Some p \<longrightarrow> get_node md5 h (hash_ring s) = Inr p \<longrightarrow>
       map_of (replica_map (fst (shard_rebalance md5 s))) h = map_of (replica_map s) h)"
    using rebalance_empty [OF inv True, of md5] inv ok by (simp add: shard_inv_def follows_ring_def)
next
  case False
  have a: "\<forall>h old. (h, old) \<in> set (primary_map s) \<longrightarrow> map_of (primary_map s) h = Some old"
    using ok by (auto intro: map_of_is_SomeI)
  have b: "\<forall>h p. map_of (primary_map s) h = Some p \<longrightarrow> h \<notin> fst ` set (primary_map s) \<longrightarrow> get_node md5 h (hash_ring s) = Inr p"
  proof (intro allI impI)
    show "get_node md5 h (hash_ring s) = Inr p"
      if "map_of (primary_map s) h = Some p" "h \<notin> fst ` set (primary_map s)" for h p
      using that map_of_SomeD [OF that(1)] by (simp add: rev_image_eqI)
  qed
  obtain s' moved where s': "shard_rebalance md5 s = (s', Inr moved)" "hash_ring s' = hash_ring s" "dict_ok (primary_map s')"
    "\<forall>h p. map_of (primary_map s') h = Some p \<longrightarrow> get_node md5 h (hash_ring s) = Inr p"
    "\<forall>h p. map_of (primary_map s) h = Some p \<longrightarrow> get_node md5 h (hash_ring s) = Inr p \<longrightarrow>
       map_of (replica_map s') h = map_of (replica_map s) h \<and> map_of (primary_map s') h = Some p"
    using rebalance_loop_ok [OF inv False ok ok a b, of "[]", folded shard_rebalance_def]
    by (elim exE conjE) (rule that, assumption+)
  have "get_node md5 h (hash_ring s') = Inr p" if "(h, p) \<in> set (primary_map s')" for h p
    using s'(4) [rule_format, OF map_of_is_SomeI [OF s'(3) that]] s'(2) by simp
  then have "list_all (\<lambda>(h, p). get_node md5 h (hash_ring s') = Inr p) (primary_map s')"
    unfolding list_all_iff by blast
  then show "shard_inv md5 (fst (shard_rebalance md5 s)) \<and> hash_ring (fst (shard_rebalance md5 s)) = hash_ring s \<and>
     (ring_points (hash_ring s) \<noteq> {} \<longrightarrow> map_of (primary_map s) h = Some p \<longrightarrow> get_node md5 h (hash_ring s) = Inr p \<longrightarrow>
       map_of (replica_map (fst (shard_rebalance md5 s))) h = map_of (replica_map s) h)"
    using s'(1-3) s'(5) [rule_format, of h p] inv by (auto simp: shard_inv_def follows_ring_def)
qed

lemma assign_shard_inv:
  assumes inv: "shard_inv md5 s"
  shows "shard_inv md5 (fst (assign_shard md5 h s))" "hash_ring (fst (assign_shard md5 h s)) = hash_ring s"
proof -
  have new: "shard_inv md5 (s\<lparr>primary_map := dict_set (primary_map s) h p\<rparr>)"
    if "map_of (primary_map s) h = None" "get_node md5 h (hash_ring s) = Inr p" for p
    using that inv by (auto simp: shard_inv_def follows_ring_def dict_set_new dict_has_def map_of_eq_None_iff)
  have rep: "shard_inv md5 (s'\<lparr>replica_map := rm\<rparr>) = shard_inv md5 s'" for s' rm
    by (simp add: shard_inv_def follows_ring_def)
  show "shard_inv md5 (fst (assign_shard md5 h s))" "hash_ring (fst (assign_shard md5 h s)) = hash_ring s"
    using inv new rep by (auto simp: assign_shard_def Let_def split: option.splits sum.splits)
qed

section \<open>Histories\<close>

datatype shard_op = AssignOp string | JoinOp string | LeaveOp string

fun shard_step :: "(string \<Rightarrow> string) \<Rightarrow> shard \<Rightarrow> shard_op \<Rightarrow> shard" where
  "shard_step md5 s (AssignOp h) = fst (assign_shard md5 h s)"
| "shard_step md5 s (JoinOp n) = fst (shard_add_node md5 n s)"
| "shard_step md5 s (LeaveOp n) = fst (shard_remove_node md5 n s)"

fun ring_ops :: "shard_op list \<Rightarrow> ring_op list" where
  "ring_ops [] = []"
| "ring_ops (AssignOp h # ops) = ring_ops ops"
| "ring_ops (JoinOp n # ops) = AddNode n # ring_ops ops"
| "ring_ops (LeaveOp n # ops) = RemoveNode n # ring_ops ops"

lemma shard_step_inv:
  assumes inv: "shard_inv md5 s"
  shows "shard_inv md5 (shard_step md5 s x)"
    "hash_ring (shard_step md5 s x) = foldl (ring_step md5) (hash_ring s) (ring_ops [x])"
proof (atomize (full), cases x)
  case (AssignOp h)
  then show "shard_inv md5 (shard_step md5 s x) \<and>
      hash_ring (shard_step md5 s x) = foldl (ring_step md5) (hash_ring s) (ring_ops [x])"
    using assign_shard_inv [OF inv] by simp
next
  case (JoinOp n)
  have "ring_inv (ring_add_node md5 n (hash_ring s))" using inv by (simp add: shard_inv_def ring_add_node_inv)
  then show "shard_inv md5 (shard_step md5 s x) \<and>
      hash_ring (shard_step md5 s x) = foldl (ring_step md5) (hash_ring s) (ring_ops [x])"
    using rebalance_ok(1,2) [of "s\<lparr>hash_ring := ring_add_node md5 n (hash_ring s)\<rparr>" md5] inv
    by (simp add: JoinOp shard_add_node_def shard_inv_def)
next
  case (LeaveOp n)
  have "ring_inv (ring_remove_node md5 n (hash_ring s))" using inv by (simp add: shard_inv_def ring_remove_node_inv)
  then show "shard_inv md5 (shard_step md5 s x) \<and>
      hash_ring (shard_step md5 s x) = foldl (ring_step md5) (hash_ring s) (ring_ops [x])"
    using rebalance_ok(1,2) [of "s\<lparr>hash_ring := ring_remove_node md5 n (hash_ring s)\<rparr>" md5] inv
    by (simp add: LeaveOp shard_remove_node_def shard_inv_def)
qed

lemma ring_ops_append: "ring_ops (xs @ ys) = ring_ops xs @ ring_ops ys"
  by (induction xs rule: ring_ops.induct) simp_all

lemma shard_run:
  "shard_inv md5 (foldl (shard_step md5) (Shard (Ring v) n attrs) ops) \<and>
   hash_ring (foldl (shard_step md5) (Shard (Ring v) n attrs) ops) = foldl (ring_step md5) (Ring v) (ring_ops ops)"
proof (induction ops rule: rev_induct)
  case Nil
  show ?case by (simp add: Shard_def shard_inv_def follows_ring_def Ring_def ring_inv_def)
next
  case (snoc x ops)
  then show ?case using shard_step_inv [of md5 "foldl (shard_step md5) (Shard (Ring v) n attrs) ops" x]
    by (simp add: ring_ops_append)
qed

section \<open>Properties\<close>

text \<open>
  C16. After any sequence of lookups, joins and leaves, every cached primary is the node the hash ring
  names for the hash now, as long as the ring has a node. (When the last node leaves, rebalancing
  raises and the entries stay until the next join.)
\<close>

theorem primaries_follow_ring:
  "let s = foldl (shard_step md5) (Shard (Ring v) n attrs) ops in
     ring (hash_ring s) = [] \<or> list_all (\<lambda>(h, p). get_node md5 h (hash_ring s) = Inr p) (primary_map s)"
  using shard_run [of md5 v n attrs ops] by (auto simp: Let_def shard_inv_def follows_ring_def)

text \<open>
  C17. A replica that leaves stays listed: when a node that is not the primary of a hash is removed, the
  primary does not move, rebalancing skips the hash, and the replica set keeps the node that is no
  longer in the ring.
\<close>

theorem removed_replica_stays_listed:
  assumes "inj_on md5 (labels N v)" and "op_node ` set (ring_ops ops) \<subseteq> N"
    and s: "s = foldl (shard_step md5) (Shard (Ring v) c attrs) ops" and ne: "ring (hash_ring s) \<noteq> []"
    and p: "map_of (primary_map s) h = Some p" and "p \<noteq> n"
    and rs: "map_of (replica_map s) h = Some rs" and "n \<in> rs"
  shows "let s' = fst (shard_remove_node md5 n s) in
    n \<in> dict_get (replica_map s') h {} \<and> n \<notin> node_ids (hash_ring s')"
proof -
  have inv: "shard_inv md5 s" and R: "hash_ring s = foldl (ring_step md5) (Ring v) (ring_ops ops)"
    using shard_run [of md5 v c attrs ops] s by simp_all
  let ?R = "ring_remove_node md5 n (hash_ring s)"
  have rinv: "ring_inv (hash_ring s)" "ring_inv ?R" using inv by (simp_all add: shard_inv_def ring_remove_node_inv)
  have "(h, p) \<in> set (primary_map s)" using p by (rule map_of_SomeD)
  then have old: "get_node md5 h (hash_ring s) = Inr p"
    using inv ne by (auto simp: shard_inv_def follows_ring_def list_all_iff)
  have own: "owns_points md5 (hash_ring s)" using ring_run_owns [OF assms(1,2)] R by simp
  have stay: "get_node md5 h ?R = Inr p"
    by (rule get_node_remove [OF rinv(1) old \<open>p \<noteq> n\<close>]) (use own in \<open>auto simp: owns_points_def\<close>)
  then have "ring_points ?R \<noteq> {}" using get_node_eq [OF rinv(2), of md5 h] by auto
  then have "map_of (replica_map (fst (shard_remove_node md5 n s))) h = Some rs"
    using rebalance_ok(3) [where s = "s\<lparr>hash_ring := ?R\<rparr>" and ?md5.0 = md5 and h = h and p = p] rinv(2) inv p rs stay
    by (simp add: shard_remove_node_def shard_inv_def)
  moreover have "hash_ring (fst (shard_remove_node md5 n s)) = ?R"
    using rebalance_ok(2) [of "s\<lparr>hash_ring := ?R\<rparr>" md5] rinv(2) inv by (simp add: shard_remove_node_def shard_inv_def)
  moreover have "n \<notin> node_ids ?R" by (simp add: ring_remove_node_def Let_def)
  ultimately show ?thesis using \<open>n \<in> rs\<close> by (simp add: dict_get_def Let_def)
qed

theorem removed_replica_stays_listed_witness:
  "let s = foldl (shard_step id) (Shard (Ring 1) 1 []) [JoinOp ''a'', JoinOp ''b'', AssignOp ''a''];
       s' = fst (shard_remove_node id ''b'' s)
   in ''b'' \<in> dict_get (replica_map s') ''a'' {} \<and> ''b'' \<notin> node_ids (hash_ring s')"
proof -
  let ?s = "foldl (shard_step id) (Shard (Ring 1) 1 []) [JoinOp ''a'', JoinOp ''b'', AssignOp ''a'']"
  have "map_of (primary_map ?s) ''a'' = Some ''a''" "map_of (replica_map ?s) ''a'' = Some {''b''}"
    "ring (hash_ring ?s) \<noteq> []" by code_simp+
  with removed_replica_stays_listed [of id UNIV 1 "[JoinOp ''a'', JoinOp ''b'', AssignOp ''a'']" ?s 1 "[]" "''a''" "''a''" "''b''" "{''b''}"]
  show ?thesis by (simp add: Let_def)
qed

section \<open>Snapshots\<close>

text \<open>A snapshot restores both tables.\<close>

lemma load_save_snapshot:
  assumes "list_all (\<lambda>(h, rs). finite rs) (replica_map s)"
  shows "load_snapshot (Some (save_snapshot s)) s = s"
proof -
  have "map (\<lambda>(h, ns). (h, set ns)) (map (\<lambda>(h, rs). (h, sorted_list_of_set rs)) d) = d"
    if "list_all (\<lambda>(h, rs). finite rs) d" for d :: "(string, string set) dict"
    using that by (induction d) auto
  then show ?thesis using assms by (simp add: load_snapshot_def save_snapshot_def)
qed

end
