(* ===== verification/Versions.thy ===== *)
theory Versions
  imports Prelude
begin

text \<open>
  The version chain of \<^verbatim>\<open>versions.py\<close>: version entries with a parent link, appended under a given
  or the next id, and the search for the lowest common ancestor of two versions. The search follows
  parent links in two loops that nothing bounds, so both are partial functions and \<open>None\<close> stands for
  a search that does not return. In a chain in which every parent was present when its child was
  appended the search returns and is exact; with forward parent links it may run forever.
\<close>

section \<open>The version chain\<close>

record version_entry =
  prefix_hash :: string
  version_id :: int
  parent_version :: "int option"

record version_chain =
  versions :: "(int, version_entry) dict"
  next_version :: int

definition Versions :: version_chain where
  "Versions = \<lparr>versions = [], next_version = 1\<rparr>"

definition append_version ::
  "string \<Rightarrow> int option \<Rightarrow> int option \<Rightarrow> version_chain \<Rightarrow> (version_chain \<times> int) result" where
  "append_version pfx vid_arg parent vc =
     (let vid = (case vid_arg of Some v \<Rightarrow> v | None \<Rightarrow> next_version vc)
      in if dict_has (versions vc) vid then Inl ValueError
         else Inr (vc\<lparr>versions := dict_set (versions vc) vid
                         \<lparr>prefix_hash = pfx, version_id = vid, parent_version = parent\<rparr>,
                      next_version := max (next_version vc) (vid + 1)\<rparr>, vid))"

definition get_version :: "int \<Rightarrow> version_chain \<Rightarrow> version_entry option" where
  "get_version v vc = map_of (versions vc) v"

definition latest_version :: "string \<Rightarrow> version_chain \<Rightarrow> int option" where
  "latest_version pfx vc =
     foldl (\<lambda>best (vid, e). if prefix_hash e = pfx \<and> (case best of None \<Rightarrow> True | Some b \<Rightarrow> vid > b)
                           then Some vid else best) None (versions vc)"

partial_function (option) ancestor_loop ::
  "(int, version_entry) dict \<Rightarrow> int option \<Rightarrow> int set \<Rightarrow> int set option" where
  "ancestor_loop d cursor seen =
     (case cursor of
        None \<Rightarrow> Some seen
      | Some v \<Rightarrow>
          (case map_of d v of
             None \<Rightarrow> Some (insert v seen)
           | Some e \<Rightarrow> ancestor_loop d (parent_version e) (insert v seen)))"

partial_function (option) meet_loop ::
  "(int, version_entry) dict \<Rightarrow> int set \<Rightarrow> int option \<Rightarrow> int option option" where
  "meet_loop d seen cursor =
     (case cursor of
        None \<Rightarrow> Some None
      | Some v \<Rightarrow>
          if v \<in> seen then Some (Some v)
          else (case map_of d v of
                  None \<Rightarrow> Some None
                | Some e \<Rightarrow> meet_loop d seen (parent_version e)))"

definition get_common_ancestor :: "int \<Rightarrow> int \<Rightarrow> version_chain \<Rightarrow> int option option" where
  "get_common_ancestor v1 v2 vc =
     (case ancestor_loop (versions vc) (Some v1) {} of
        None \<Rightarrow> None
      | Some seen \<Rightarrow> meet_loop (versions vc) seen (Some v2))"

declare ancestor_loop.simps [code] meet_loop.simps [code]

section \<open>Ancestors\<close>

definition parents :: "(int, version_entry) dict \<Rightarrow> (int \<times> int) set" where
  "parents d = {(p, v). \<exists>e. map_of d v = Some e \<and> parent_version e = Some p}"

definition ancestors :: "(int, version_entry) dict \<Rightarrow> int \<Rightarrow> int set" where
  "ancestors d v = {a. (a, v) \<in> (parents d)\<^sup>*}"

lemma ancestors_unfold:
  "ancestors d v = insert v (case map_of d v of None \<Rightarrow> {} | Some e \<Rightarrow>
     (case parent_version e of None \<Rightarrow> {} | Some p \<Rightarrow> ancestors d p))"
proof -
  have "(a, v) \<in> (parents d)\<^sup>* \<longleftrightarrow> a = v \<or> (\<exists>p. (p, v) \<in> parents d \<and> (a, p) \<in> (parents d)\<^sup>*)" for a
    by (metis rtrancl.simps)
  then show ?thesis by (auto simp: ancestors_def parents_def split: option.splits)
qed

lemma ancestors_self [simp]: "v \<in> ancestors d v"
  by (simp add: ancestors_def)

lemma ancestors_trans: "a \<in> ancestors d v \<Longrightarrow> ancestors d a \<subseteq> ancestors d v"
  by (auto simp: ancestors_def)

text \<open>The two loops return along a well-founded parent relation, with the chain they walked.\<close>

lemma ancestor_loop_returns:
  assumes "wf (parents d)"
  shows "ancestor_loop d (Some v) seen = Some (seen \<union> ancestors d v)"
  using assms
proof (induction v arbitrary: seen rule: wf_induct_rule)
  case (less v)
  show ?case
  proof (cases "map_of d v")
    case None
    then show ?thesis by (subst ancestor_loop.simps, subst ancestors_unfold) simp
  next
    case (Some e)
    show ?thesis
    proof (cases "parent_version e")
      case None
      then show ?thesis using Some
        by (subst ancestor_loop.simps, subst ancestors_unfold) (simp add: ancestor_loop.simps)
    next
      case p: (Some p)
      then have "(p, v) \<in> parents d" using Some by (simp add: parents_def)
      from less.IH [OF this, of "insert v seen"] show ?thesis using Some p
        by (subst ancestor_loop.simps, subst ancestors_unfold) simp
    qed
  qed
qed

lemma meet_loop_returns:
  assumes "wf (parents d)" and down: "\<And>a. a \<in> seen \<Longrightarrow> ancestors d a \<subseteq> seen"
  shows "\<exists>r. meet_loop d seen (Some v) = Some r \<and>
    (case r of None \<Rightarrow> seen \<inter> ancestors d v = {} | Some a \<Rightarrow> seen \<inter> ancestors d v = ancestors d a)"
  using assms(1)
proof (induction v rule: wf_induct_rule)
  case (less v)
  consider (hit) "v \<in> seen" | (leaf) "v \<notin> seen" "map_of d v = None"
    | (root) e where "v \<notin> seen" "map_of d v = Some e" "parent_version e = None"
    | (up) e p where "v \<notin> seen" "map_of d v = Some e" "parent_version e = Some p"
    by (metis not_Some_eq)
  then show ?case
  proof cases
    case hit
    then show ?thesis using down [OF hit] by (subst meet_loop.simps) auto
  next
    case leaf
    then show ?thesis by (subst meet_loop.simps, subst ancestors_unfold) simp
  next
    case root
    then show ?thesis by (subst meet_loop.simps, subst ancestors_unfold) (simp add: meet_loop.simps)
  next
    case up
    then have "(p, v) \<in> parents d" by (simp add: parents_def)
    from less.IH [OF this] obtain r where r: "meet_loop d seen (Some p) = Some r"
      "case r of None \<Rightarrow> seen \<inter> ancestors d p = {} | Some a \<Rightarrow> seen \<inter> ancestors d p = ancestors d a"
      by blast
    have "ancestors d v = insert v (ancestors d p)" using up by (subst ancestors_unfold) simp
    then have "seen \<inter> ancestors d v = seen \<inter> ancestors d p" using up(1) by auto
    moreover have "meet_loop d seen (Some v) = Some r" using up r(1) by (subst meet_loop.simps) simp
    ultimately show ?thesis using r(2) by (intro exI [of _ r]) (cases r, simp_all)
  qed
qed

section \<open>Chains grown from present parents\<close>

inductive grown :: "version_chain \<Rightarrow> bool" where
  start: "grown Versions"
| append: "grown vc \<Longrightarrow> (case parent of None \<Rightarrow> True | Some p \<Rightarrow> dict_has (versions vc) p) \<Longrightarrow>
    append_version pfx vid_arg parent vc = Inr (vc', vid) \<Longrightarrow> grown vc'"

inductive_cases grownE: "grown vc"

lemma append_versionD:
  assumes "append_version pfx vid_arg parent vc = Inr (vc', vid)"
  shows "\<not> dict_has (versions vc) vid"
    "versions vc' = dict_set (versions vc) vid \<lparr>prefix_hash = pfx, version_id = vid, parent_version = parent\<rparr>"
    "next_version vc' = max (next_version vc) (vid + 1)"
  using assms by (auto simp: append_version_def Let_def split: if_splits)

lemma parents_append:
  assumes "\<not> dict_has d v"
  shows "parents (dict_set d v e) = parents d \<union> {(p, v) | p. parent_version e = Some p}"
proof -
  have "map_of d v = None" using assms by (simp add: dict_has_iff map_of_eq_None_iff)
  then show ?thesis by (auto simp: parents_def split: if_splits)
qed

lemma grown_wf: "grown vc \<Longrightarrow> wf (parents (versions vc)) \<and> Domain (parents (versions vc)) \<subseteq> fst ` set (versions vc)"
proof (induction rule: grown.induct)
  case start
  then show ?case by (simp add: Versions_def parents_def)
next
  case (append vc parent pfx vid_arg vc' vid)
  let ?new = "{(p, vid) | p. parent = Some p}"
  have eq: "parents (versions vc') = parents (versions vc) \<union> ?new"
    using append_versionD [OF append.hyps(3)] by (simp add: parents_append)
  have fresh: "vid \<notin> fst ` set (versions vc)"
    using append_versionD(1) [OF append.hyps(3)] by (simp add: dict_has_iff)
  have present: "Domain ?new \<subseteq> fst ` set (versions vc)"
    using append.hyps(2) by (auto simp: dict_has_iff split: option.splits)
  have "?new = (case parent of None \<Rightarrow> {} | Some p \<Rightarrow> {(p, vid)})" by (auto split: option.splits)
  then have "wf ?new" using present fresh by (auto simp: wf_insert split: option.splits)
  moreover have "Domain (parents (versions vc)) \<inter> Range ?new = {}"
    using append.IH fresh by auto
  ultimately have "wf (parents (versions vc'))"
    unfolding eq using append.IH by (intro wf_Un) auto
  moreover have "fst ` set (versions vc') = insert vid (fst ` set (versions vc))"
    using append_versionD(2) [OF append.hyps(3)] dict_set_keys [of vid _ "versions vc"] by simp
  ultimately show ?case using append.IH present unfolding eq by auto
qed

section \<open>Automatic numbering\<close>

lemma grown_next: "grown vc \<Longrightarrow> \<forall>v \<in> fst ` set (versions vc). v < next_version vc"
proof (induction rule: grown.induct)
  case start
  then show ?case by (simp add: Versions_def)
next
  case (append vc parent pfx vid_arg vc' vid)
  have "fst ` set (versions vc') = insert vid (fst ` set (versions vc))"
    using append_versionD(2) [OF append.hyps(3)] dict_set_keys [of vid _ "versions vc"] by simp
  then show ?case using append.IH append_versionD(3) [OF append.hyps(3)] by (force simp: less_max_iff_disj)
qed

text \<open>Without an explicit id an append never fails and gets an id above every earlier one.\<close>

lemma auto_append_succeeds:
  assumes "grown vc"
  shows "\<exists>vc' vid. append_version pfx None parent vc = Inr (vc', vid) \<and> (\<forall>v. dict_has (versions vc) v \<longrightarrow> v < vid)"
  using grown_next [OF assms] by (fastforce simp: append_version_def Let_def dict_has_iff)

lemma latest_version_maximal:
  "case latest_version pfx vc of
     None \<Rightarrow> \<forall>(v, e) \<in> set (versions vc). prefix_hash e \<noteq> pfx
   | Some b \<Rightarrow> (\<exists>e. (b, e) \<in> set (versions vc) \<and> prefix_hash e = pfx) \<and>
       (\<forall>(v, e) \<in> set (versions vc). prefix_hash e = pfx \<longrightarrow> v \<le> b)"
proof -
  have "case foldl (\<lambda>best (vid, e). if prefix_hash e = pfx \<and> (case best of None \<Rightarrow> True | Some b \<Rightarrow> vid > b)
      then Some vid else best) None d of
     None \<Rightarrow> \<forall>(v, e) \<in> set d. prefix_hash e \<noteq> pfx
   | Some b \<Rightarrow> (\<exists>e. (b, e) \<in> set d \<and> prefix_hash e = pfx) \<and> (\<forall>(v, e) \<in> set d. prefix_hash e = pfx \<longrightarrow> v \<le> b)"
    for d :: "(int, version_entry) dict"
    by (induction d rule: rev_induct) (force split: option.splits prod.splits if_splits)+
  then show ?thesis by (simp add: latest_version_def)
qed

section \<open>Properties\<close>

text \<open>
  C35. The common-ancestor search returns in every chain in which each parent was present when its
  child was appended, and its answer is exact: the versions that are ancestors of both arguments are
  precisely the ancestors of the answer, and there are none when it answers None.
\<close>

theorem common_ancestor_lowest:
  assumes "grown vc"
  shows "\<exists>r. get_common_ancestor v1 v2 vc = Some r \<and>
    ancestors (versions vc) v1 \<inter> ancestors (versions vc) v2 =
      (case r of None \<Rightarrow> {} | Some a \<Rightarrow> ancestors (versions vc) a)"
proof -
  have wf: "wf (parents (versions vc))" using grown_wf [OF assms] by simp
  have "ancestors (versions vc) a \<subseteq> ancestors (versions vc) v1" if "a \<in> ancestors (versions vc) v1" for a
    by (rule ancestors_trans [OF that])
  from meet_loop_returns [OF wf this, of v2] obtain r where
    "meet_loop (versions vc) (ancestors (versions vc) v1) (Some v2) = Some r"
    "case r of None \<Rightarrow> ancestors (versions vc) v1 \<inter> ancestors (versions vc) v2 = {}
     | Some a \<Rightarrow> ancestors (versions vc) v1 \<inter> ancestors (versions vc) v2 = ancestors (versions vc) a"
    by blast
  then show ?thesis
    by (intro exI [of _ r]) (cases r, simp_all add: get_common_ancestor_def ancestor_loop_returns [OF wf])
qed

definition forked_chain :: version_chain where
  "forked_chain =
     \<lparr>versions = [(1, \<lparr>prefix_hash = ''p'', version_id = 1, parent_version = None\<rparr>),
                  (2, \<lparr>prefix_hash = ''p'', version_id = 2, parent_version = Some 1\<rparr>),
                  (3, \<lparr>prefix_hash = ''p'', version_id = 3, parent_version = Some 1\<rparr>)],
      next_version = 4\<rparr>"

lemma forked_chain_grown: "grown forked_chain"
proof -
  let ?e = "\<lambda>i q. (i, \<lparr>prefix_hash = ''p'', version_id = i, parent_version = q\<rparr>)"
  have "grown \<lparr>versions = [?e 1 None], next_version = 2\<rparr>"
    by (rule grown.append [OF grown.start, of None "''p''" None _ 1])
      (simp_all add: append_version_def Versions_def dict_has_def)
  then have "grown \<lparr>versions = [?e 1 None, ?e 2 (Some 1)], next_version = 3\<rparr>"
    by (rule grown.append [of _ "Some 1" "''p''" None _ 2]) (simp_all add: append_version_def dict_has_def)
  then show ?thesis unfolding forked_chain_def
    by (rule grown.append [of _ "Some 1" "''p''" None _ 3]) (simp_all add: append_version_def dict_has_def)
qed

theorem common_ancestor_lowest_witness:
  "get_common_ancestor 2 3 forked_chain = Some (Some 1) \<and>
   ancestors (versions forked_chain) 2 \<inter> ancestors (versions forked_chain) 3 = ancestors (versions forked_chain) 1"
proof -
  have "get_common_ancestor 2 3 forked_chain = Some (Some 1)" by code_simp
  then show ?thesis using common_ancestor_lowest [OF forked_chain_grown, of 2 3] by simp
qed

text \<open>
  C36. A parent may be named before it exists, and the chain accepts the version that then closes a
  cycle; from such a version the common-ancestor search never returns.
\<close>

theorem common_ancestor_diverges:
  "\<exists>vc1 vc2. append_version pfx (Some 1) (Some 2) Versions = Inr (vc1, 1) \<and>
     append_version pfx (Some 2) (Some 1) vc1 = Inr (vc2, 2) \<and> get_common_ancestor 1 v2 vc2 = None"
proof -
  let ?d = "[(1, \<lparr>prefix_hash = pfx, version_id = 1, parent_version = Some 2\<rparr>),
             (2, \<lparr>prefix_hash = pfx, version_id = 2, parent_version = Some (1 :: int)\<rparr>)]"
  have "d = ?d \<longrightarrow> c \<notin> {Some 1, Some 2}" if "ancestor_loop d c seen = Some r" for d c seen r
    using that
    by (rule ancestor_loop.raw_induct [rotated]) (fastforce split: option.splits if_splits)
  then have "ancestor_loop ?d (Some 1) {} = None" by (cases "ancestor_loop ?d (Some 1) {}") auto
  then show ?thesis by (simp add: append_version_def Versions_def dict_has_def get_common_ancestor_def)
qed

end
