(* ===== verification/Resilience.thy ===== *)
theory Resilience
  imports Prelude
begin

text \<open>
  Retry and circuit breaking for calls to other nodes: the back-off and the breaker state machine of
  \<^verbatim>\<open>resilience.py\<close>, and the two request loops of \<^verbatim>\<open>network/peer.py\<close> that use them. Clock readings and the
  jitter are arguments, and a transport attempt is what \<open>Transport.request\<close> did: it answered, gave
  nothing, or raised. The breaker is shown to be determined by the log of calls and outcomes, and the
  request loops to send at most the configured number of attempts and to report one outcome to the
  breaker, except when the transport raises something other than a network error.
\<close>

section \<open>Back-off\<close>

record retry_policy =
  max_attempts :: int
  base_delay :: real
  max_delay :: real

definition compute_backoff :: "real \<Rightarrow> retry_policy \<Rightarrow> nat \<Rightarrow> real" where
  "compute_backoff u p attempt = 0 + (min (max_delay p) (base_delay p * 2 ^ attempt) - 0) * u"

lemma compute_backoff_bounds:
  assumes "0 \<le> u" "u \<le> 1" "0 \<le> base_delay p" "0 \<le> max_delay p"
  shows "0 \<le> compute_backoff u p i" "compute_backoff u p i \<le> max_delay p"
    "compute_backoff u p i \<le> base_delay p * 2 ^ i"
proof -
  let ?m = "min (max_delay p) (base_delay p * 2 ^ i)"
  have m: "0 \<le> ?m" using assms by simp
  then show "0 \<le> compute_backoff u p i" using assms by (simp add: compute_backoff_def)
  have "?m * u \<le> ?m" by (rule mult_left_le [OF assms(2) m])
  then show "compute_backoff u p i \<le> max_delay p" "compute_backoff u p i \<le> base_delay p * 2 ^ i"
    by (auto simp: compute_backoff_def)
qed

section \<open>The circuit breaker\<close>

record breaker_policy =
  failure_threshold :: int
  cool_down :: real

record circuit_breaker =
  policy :: breaker_policy
  failures :: int
  open_until :: real
  trial_in_flight :: bool

definition CircuitBreaker :: "breaker_policy \<Rightarrow> circuit_breaker" where
  "CircuitBreaker p = \<lparr>policy = p, failures = 0, open_until = 0, trial_in_flight = False\<rparr>"

definition breaker_state :: "real \<Rightarrow> circuit_breaker \<Rightarrow> string" where
  "breaker_state now b =
     (if failures b < failure_threshold (policy b) then ''closed''
      else if now < open_until b then ''open'' else ''half_open'')"

definition is_open :: "real \<Rightarrow> circuit_breaker \<Rightarrow> bool" where
  "is_open now b = (open_until b > now)"

definition allow :: "real \<Rightarrow> circuit_breaker \<Rightarrow> circuit_breaker \<times> bool" where
  "allow now b =
     (if failures b < failure_threshold (policy b) then (b, True)
      else if now < open_until b \<or> trial_in_flight b then (b, False)
      else (b\<lparr>trial_in_flight := True\<rparr>, True))"

definition record_failure :: "real \<Rightarrow> circuit_breaker \<Rightarrow> circuit_breaker" where
  "record_failure now b =
     (let b1 = b\<lparr>failures := failures b + 1, trial_in_flight := False\<rparr>
      in if failures b1 \<ge> failure_threshold (policy b1)
         then b1\<lparr>open_until := now + cool_down (policy b1)\<rparr> else b1)"

definition record_success :: "circuit_breaker \<Rightarrow> circuit_breaker" where
  "record_success b = b\<lparr>failures := 0, open_until := 0, trial_in_flight := False\<rparr>"

subsection \<open>The breaker as a function of its log\<close>

datatype breaker_event = Allow real | Failed real | Succeeded

fun breaker_step :: "circuit_breaker \<Rightarrow> breaker_event \<Rightarrow> circuit_breaker" where
  "breaker_step b (Allow t) = fst (allow t b)"
| "breaker_step b (Failed t) = record_failure t b"
| "breaker_step b Succeeded = record_success b"

text \<open>
  What the log says, read from its latest event: the failures since the last success, the end of
  the cool-down of the last failure, and whether a call was let through as the trial since the last
  outcome.
\<close>

fun failures_since :: "breaker_event list \<Rightarrow> int" where
  "failures_since [] = 0"
| "failures_since (Succeeded # es) = 0"
| "failures_since (Failed t # es) = failures_since es + 1"
| "failures_since (Allow t # es) = failures_since es"

fun cool_until :: "real \<Rightarrow> breaker_event list \<Rightarrow> real" where
  "cool_until c [] = 0"
| "cool_until c (Succeeded # es) = 0"
| "cool_until c (Failed t # es) = t + c"
| "cool_until c (Allow t # es) = cool_until c es"

fun trial_claimed :: "breaker_policy \<Rightarrow> breaker_event list \<Rightarrow> bool" where
  "trial_claimed p [] = False"
| "trial_claimed p (Succeeded # es) = False"
| "trial_claimed p (Failed t # es) = False"
| "trial_claimed p (Allow t # es) =
     (trial_claimed p es \<or> (failure_threshold p \<le> failures_since es \<and> cool_until (cool_down p) es \<le> t))"

definition log_allows :: "breaker_policy \<Rightarrow> breaker_event list \<Rightarrow> real \<Rightarrow> bool" where
  "log_allows p es t =
     (failures_since es < failure_threshold p \<or> (cool_until (cool_down p) es \<le> t \<and> \<not> trial_claimed p es))"

lemma failures_since_nonneg [simp]: "0 \<le> failures_since es"
  by (induction es rule: failures_since.induct) simp_all

definition follows_log :: "breaker_policy \<Rightarrow> breaker_event list \<Rightarrow> circuit_breaker \<Rightarrow> bool" where
  "follows_log p es b \<longleftrightarrow> policy b = p \<and> failures b = failures_since es \<and> trial_in_flight b = trial_claimed p es \<and>
     (failure_threshold p \<le> failures_since es \<longrightarrow> open_until b = cool_until (cool_down p) es)"

lemma trial_needs_threshold: "trial_claimed p es \<Longrightarrow> failure_threshold p \<le> failures_since es"
  by (induction p es rule: trial_claimed.induct) auto

lemma follows_log_step:
  assumes "follows_log p es b"
  shows "follows_log p (e # es) (breaker_step b e)"
  using assms trial_needs_threshold [of p es]
  by (cases e) (auto simp: follows_log_def allow_def record_failure_def record_success_def Let_def)

lemma follows_log_run: "follows_log p (rev es) (foldl breaker_step (CircuitBreaker p) es)"
  by (induction es rule: rev_induct)
    (simp_all add: follows_log_step, simp add: follows_log_def CircuitBreaker_def)

text \<open>While the breaker has seen its threshold of failures, at most one of any number of calls is let through.\<close>

fun let_through :: "circuit_breaker \<Rightarrow> real list \<Rightarrow> real list" where
  "let_through b [] = []"
| "let_through b (t # ts) = (if snd (allow t b) then [t] else []) @ let_through (fst (allow t b)) ts"

lemma let_through_claimed:
  assumes "failure_threshold (policy b) \<le> failures b" "trial_in_flight b"
  shows "let_through b ts = []"
  using assms by (induction ts) (simp_all add: allow_def)

lemma single_trial:
  assumes "failure_threshold (policy b) \<le> failures b"
  shows "length (let_through b ts) \<le> 1 \<and> (\<forall>t\<in>set (let_through b ts). open_until b \<le> t)"
  using assms
proof (induction ts)
  case Nil
  then show ?case by simp
next
  case (Cons t ts)
  then show ?case using let_through_claimed [of "b\<lparr>trial_in_flight := True\<rparr>" ts] by (auto simp: allow_def)
qed

section \<open>Requests to a peer\<close>

text \<open>
  One attempt of a request: the clock before it, what the transport did, the jitter of the pause
  after it and the clock before that pause.
\<close>

record 'r attempt =
  before :: real
  answer :: "'r option result"
  jitter :: real
  after :: real

record peer =
  breaker :: circuit_breaker
  retry :: retry_policy
  max_retries :: int

definition Peer :: "int \<Rightarrow> real \<Rightarrow> breaker_policy \<Rightarrow> peer" where
  "Peer retries delay p =
     \<lparr>breaker = CircuitBreaker p,
      retry = \<lparr>max_attempts = retries, base_delay = delay, max_delay = max (delay * 8) 0\<rparr>,
      max_retries = retries\<rparr>"

text \<open>
  The retry loop, on the attempts from number \<open>i\<close> on. It returns the number of requests sent with
  the answer, with \<open>None\<close> when the attempts are used up or the deadline has passed, or with the
  exception that is not a network error.
\<close>

fun retry_loop :: "peer \<Rightarrow> real option \<Rightarrow> nat \<Rightarrow> 'r attempt list \<Rightarrow> nat \<times> 'r option result" where
  "retry_loop P deadline i [] = (0, Inr None)"
| "retry_loop P deadline i (a # as) =
     (if (case deadline of None \<Rightarrow> False | Some d \<Rightarrow> d - before a \<le> 0) then (0, Inr None)
      else
        let again =
          (if int i = max_retries P - 1 then (1, Inr None)
           else if (case deadline of None \<Rightarrow> False
                    | Some d \<Rightarrow> after a + compute_backoff (jitter a) (retry P) i \<ge> d) then (1, Inr None)
           else let (n, r) = retry_loop P deadline (Suc i) as in (Suc n, r))
        in (case answer a of
              Inr (Some r) \<Rightarrow> (1, Inr (Some r))
            | Inr None \<Rightarrow> again
            | Inl e \<Rightarrow> if e = NetworkError then again else (1, Inl e)))"

text \<open>
  The whole request: the breaker is asked at the clock reading \<open>now\<close>, the outcome is reported to it,
  and \<open>later\<close> is the clock at a failure. An exception passes the breaker by.
\<close>

definition request_with_retry ::
  "real option \<Rightarrow> real \<Rightarrow> (nat \<Rightarrow> 'r attempt) \<Rightarrow> real \<Rightarrow> peer \<Rightarrow> peer \<times> nat \<times> 'r option result" where
  "request_with_retry deadline now env later P =
     (let (b, ok) = allow now (breaker P)
      in if \<not> ok then (P\<lparr>breaker := b\<rparr>, 0, Inr None)
         else
           let (n, r) = retry_loop P deadline 0 (map env [0..<nat (max_retries P)])
           in (case r of
                 Inl e \<Rightarrow> (P\<lparr>breaker := b\<rparr>, n, Inl e)
               | Inr None \<Rightarrow> (P\<lparr>breaker := record_failure later b\<rparr>, n, Inr None)
               | Inr (Some x) \<Rightarrow> (P\<lparr>breaker := record_success b\<rparr>, n, Inr (Some x))))"

text \<open>The loop for raw responses has no deadline, and a transport that gives nothing counts as an answer.\<close>

fun raw_loop :: "'r attempt list \<Rightarrow> nat \<times> 'r option option result" where
  "raw_loop [] = (0, Inr None)"
| "raw_loop (a # as) =
     (case answer a of
        Inr r \<Rightarrow> (1, Inr (Some r))
      | Inl e \<Rightarrow> if e = NetworkError then (let (n, r) = raw_loop as in (Suc n, r)) else (1, Inl e))"

definition request_raw :: "real \<Rightarrow> (nat \<Rightarrow> 'r attempt) \<Rightarrow> real \<Rightarrow> peer \<Rightarrow> peer \<times> nat \<times> 'r option result" where
  "request_raw now env later P =
     (let (b, ok) = allow now (breaker P)
      in if \<not> ok then (P\<lparr>breaker := b\<rparr>, 0, Inr None)
         else
           let (n, r) = raw_loop (map env [0..<nat (max_retries P)])
           in (case r of
                 Inl e \<Rightarrow> (P\<lparr>breaker := b\<rparr>, n, Inl e)
               | Inr None \<Rightarrow> (P\<lparr>breaker := record_failure later b\<rparr>, n, Inr None)
               | Inr (Some x) \<Rightarrow> (P\<lparr>breaker := record_success b\<rparr>, n, Inr x)))"

subsection \<open>Attempts\<close>

lemma retry_loop_sends: "fst (retry_loop P d i as) \<le> length as"
proof (induction P d i as rule: retry_loop.induct)
  case (2 P d i a as)
  then show ?case by (auto simp: Let_def split: option.splits sum.splits prod.splits)
qed simp

lemma retry_loop_answer:
  "snd (retry_loop P d i as) = Inr (Some r) \<Longrightarrow> \<exists>a\<in>set as. answer a = Inr (Some r)"
proof (induction P d i as rule: retry_loop.induct)
  case (2 P d i a as)
  then show ?case by (auto simp: Let_def split: option.splits sum.splits prod.splits if_splits)
qed simp

lemma retry_loop_raises:
  "snd (retry_loop P d i as) = Inl e \<Longrightarrow> e \<noteq> NetworkError \<and> (\<exists>a\<in>set as. answer a = Inl e)"
proof (induction P d i as rule: retry_loop.induct)
  case (2 P d i a as)
  then show ?case by (auto simp: Let_def split: option.splits sum.splits prod.splits if_splits)
qed simp

text \<open>Without a deadline an answer within the attempts is found: transient failures are ridden out.\<close>

lemma retry_loop_reaches:
  assumes "list_all (\<lambda>a. answer a \<in> {Inr None, Inl NetworkError}) pre" "answer a = Inr (Some r)"
    "int i + int (length pre) < max_retries P"
  shows "retry_loop P None i (pre @ a # post) = (Suc (length pre), Inr (Some r))"
  using assms by (induction pre arbitrary: i) (auto simp: Let_def split: prod.splits)

section \<open>Properties\<close>

text \<open>
  C37. The breaker is a function of its log: after any sequence of calls, failures and successes it
  lets the next call through exactly when there were fewer failures than the threshold since the
  last success, or the cool-down of the last failure is over and no other call has been let through
  as the trial since the last outcome; its failure count is the number of failures since the last
  success.
\<close>

theorem breaker_follows_log:
  "let b = foldl breaker_step (CircuitBreaker p) es in
     failures b = failures_since (rev es) \<and> (snd (allow t b) \<longleftrightarrow> log_allows p (rev es) t)"
  using follows_log_run [of p es] by (auto simp: follows_log_def log_allows_def allow_def Let_def)

text \<open>
  A request sends at most the configured number of attempts, returns only an answer that one of
  them received, and reports exactly one outcome to the breaker: none when the breaker refused the
  call, a success with an answer, a failure without one. Only an exception that is not a network
  error leaves the breaker without an outcome.
\<close>

theorem request_reports_outcome:
  "let (P', n, r) = request_with_retry deadline now env later P; b = fst (allow now (breaker P)) in
     n \<le> nat (max_retries P) \<and>
     (if \<not> snd (allow now (breaker P)) then n = 0 \<and> r = Inr None \<and> breaker P' = b
      else case r of
          Inr (Some x) \<Rightarrow> (\<exists>i. i < nat (max_retries P) \<and> answer (env i) = Inr (Some x)) \<and> breaker P' = record_success b
        | Inr None \<Rightarrow> breaker P' = record_failure later b
        | Inl e \<Rightarrow> (\<exists>i. i < nat (max_retries P) \<and> answer (env i) = Inl e) \<and> e \<noteq> NetworkError \<and> breaker P' = b)"
proof -
  let ?as = "map env [0..<nat (max_retries P)]"
  obtain n r where nr: "retry_loop P deadline 0 ?as = (n, r)" by (cases "retry_loop P deadline 0 ?as")
  have n: "n \<le> nat (max_retries P)" using retry_loop_sends [of P deadline 0 ?as] nr by simp
  have ans: "\<exists>i. i < nat (max_retries P) \<and> answer (env i) = Inr (Some x)" if "r = Inr (Some x)" for x
    using retry_loop_answer [of P deadline 0 ?as x] nr that by auto
  have exn: "e \<noteq> NetworkError \<and> (\<exists>i. i < nat (max_retries P) \<and> answer (env i) = Inl e)" if "r = Inl e" for e
    using retry_loop_raises [of P deadline 0 ?as e] nr that by auto
  show ?thesis
    using n ans exn by (auto simp: request_with_retry_def nr Let_def split: prod.splits sum.splits option.splits)
qed

text \<open>
  C38. An answer that does not decode blocks the peer for good: when the trial call of a half-open
  breaker raises an error other than a network error, no outcome is recorded, the trial stays
  claimed, and every later request is refused without being sent, however much time passes.
\<close>

theorem undecodable_trial_blocks_peer:
  assumes "failure_threshold (policy (breaker P)) \<le> failures (breaker P)" "open_until (breaker P) \<le> now"
    "\<not> trial_in_flight (breaker P)" "0 < max_retries P" "answer (env 0) = Inl ValueError"
  shows "let (P', n, r) = request_with_retry None now env later P in
    r = Inl ValueError \<and> (\<forall>d t env' u. request_with_retry d t env' u P' = (P', 0, Inr None)) \<and>
    (\<forall>t env' u. request_raw t env' u P' = (P', 0, Inr None))"
proof -
  have "map env [0..<nat (max_retries P)] = env 0 # map env [1..<nat (max_retries P)]"
    using assms(4) by (simp add: upt_rec)
  then show ?thesis using assms
    by (auto simp: request_with_retry_def request_raw_def allow_def Let_def)
qed

theorem undecodable_trial_blocks_peer_witness:
  "let P = (Peer 3 1 \<lparr>failure_threshold = 1, cool_down = 30\<rparr>)
             \<lparr>breaker := record_failure 0 (CircuitBreaker \<lparr>failure_threshold = 1, cool_down = 30\<rparr>)\<rparr>;
       (P', n, r) = request_with_retry None 40 (\<lambda>_. \<lparr>before = 0, answer = Inl ValueError, jitter = 0, after = 0\<rparr> :: unit attempt) 41 P
   in r = Inl ValueError \<and>
      request_with_retry None 1000 (\<lambda>_. \<lparr>before = 0, answer = Inr (Some ()), jitter = 0, after = 0\<rparr>) 1000 P' = (P', 0, Inr None)"
proof -
  let ?p = "\<lparr>failure_threshold = 1, cool_down = 30\<rparr>"
  let ?P = "(Peer 3 1 ?p)\<lparr>breaker := record_failure 0 (CircuitBreaker ?p)\<rparr>"
  let ?env = "\<lambda>_. \<lparr>before = 0, answer = Inl ValueError, jitter = 0, after = 0\<rparr> :: unit attempt"
  have "let (P', n, r) = request_with_retry None 40 ?env 41 ?P in
    r = Inl ValueError \<and> (\<forall>d t (env' :: nat \<Rightarrow> unit attempt) u. request_with_retry d t env' u P' = (P', 0, Inr None)) \<and>
    (\<forall>t (env' :: nat \<Rightarrow> unit attempt) u. request_raw t env' u P' = (P', 0, Inr None))"
    by (rule undecodable_trial_blocks_peer) (simp_all add: Peer_def record_failure_def CircuitBreaker_def)
  then show ?thesis by (auto simp: Let_def split: prod.splits)
qed

end
