(* ===== verification/Fragmenter.thy ===== *)
theory Fragmenter
  imports Fragment
begin

text \<open>
  Fragmentation of token sequences, \<^verbatim>\<open>fragmenter.py\<close>: fixed-size windows over a prompt, splitting a
  fragment at token positions and merging adjacent fragments. The MD5 digest is a parameter; the
  string representation of a token tuple that is hashed is modelled. Windows and splits are shown to
  partition the token range, and a merge of the pieces of a split to give the original sp and
  content hash back. The synthetic embedding has no part in the fragments and is not modelled.
\<close>

section \<open>Content hashes\<close>

fun join :: "string \<Rightarrow> string list \<Rightarrow> string" where
  "join sep [] = []"
| "join sep [x] = x"
| "join sep (x # y # zs) = x @ sep @ join sep (y # zs)"

text \<open>Python's \<open>str\<close> on a tuple of integers.\<close>

definition str_tuple :: "int list \<Rightarrow> string" where
  "str_tuple xs = (case xs of [x] \<Rightarrow> ''('' @ str_int x @ '',)'' | _ \<Rightarrow> ''('' @ join '', '' (map str_int xs) @ '')'')"

definition compute_content_hash :: "(string \<Rightarrow> string) \<Rightarrow> int list \<Rightarrow> string" where
  "compute_content_hash md5 tokens = md5 (str_tuple tokens)"

section \<open>Windows, splits and merges\<close>

record fragmenter_config =
  window_size :: int
  merge_reuse_threshold :: real

definition FragmenterConfig :: fragmenter_config where
  "FragmenterConfig = \<lparr>window_size = 1024, merge_reuse_threshold = 8 / 10\<rparr>"

text \<open>
  The identity and the fragment that all three operations build; the fields they leave out have the
  defaults of the constructor.
\<close>

definition piece_identity :: "string \<Rightarrow> string \<Rightarrow> int \<times> int \<Rightarrow> int \<times> int \<Rightarrow> int \<Rightarrow> payload_identity" where
  "piece_identity h model layers sp n =
     \<lparr>payload_hash = h, model_id = model, model_revision = [], tokenizer_name = model, tokenizer_revision = [],
      layer_range = layers, head_range = (-1, -1), token_span = sp, dtype = ''float16'', shape = [1, 1, 1, n, 64]\<rparr>"

definition new_piece :: "payload_identity \<Rightarrow> int \<Rightarrow> real \<Rightarrow> real \<Rightarrow> int \<Rightarrow> fragment result" where
  "new_piece i sz lifetime score version =
     bind_result (PayloadIdentity i) (\<lambda>i.
       Fragment_new \<lparr>identity = i, payload_ref = Some (payload_hash i), payload_size = sz, ttl = lifetime,
         reuse_score = score, version_id = version, consistency = ''strong'', hlc = 0, fingerprint_compat = [],
         tenant_id = DEFAULT_TENANT\<rparr>)"

text \<open>The slice \<open>xs[a:b]\<close> for bounds that are not negative.\<close>

definition tok_slice :: "int \<Rightarrow> int \<Rightarrow> 'a list \<Rightarrow> 'a list" where
  "tok_slice a b xs = drop (nat a) (take (nat b) xs)"

definition window :: "(string \<Rightarrow> string) \<Rightarrow> int \<Rightarrow> int list \<Rightarrow> string \<Rightarrow> int \<Rightarrow> fragment result" where
  "window md5 ws prompt model i =
     (let start = i * ws;
          stop = min (start + ws) (int (length prompt)) - 1;
          tokens = tok_slice start (stop + 1) prompt
      in new_piece (piece_identity (compute_content_hash md5 tokens) model (0, 0) (start, stop) (int (length tokens)))
           (int (length tokens) * 64) 3600 (1 / 2) 1)"

definition create_windows ::
  "(string \<Rightarrow> string) \<Rightarrow> fragmenter_config \<Rightarrow> int list \<Rightarrow> string \<Rightarrow> fragment list result" where
  "create_windows md5 cfg prompt model =
     (if prompt = [] then Inr []
      else if window_size cfg = 0 then Inl ZeroDivisionError
      else
        let num = (int (length prompt) + window_size cfg - 1) div window_size cfg
        in map_result (window md5 (window_size cfg) prompt model) [0..num - 1])"

definition split_piece ::
  "(string \<Rightarrow> string) \<Rightarrow> fragment \<Rightarrow> int list option \<Rightarrow> int \<times> int \<Rightarrow> fragment result" where
  "split_piece md5 f original bounds =
     (let sub_start = fst bounds;
          sub_end = snd bounds - 1;
          tokens = (case original of
                      Some ts \<Rightarrow> if sub_end < int (length ts) then tok_slice sub_start (sub_end + 1) ts else [sub_start..sub_end]
                    | None \<Rightarrow> [sub_start..sub_end])
      in new_piece
           (piece_identity (compute_content_hash md5 tokens) (model_id (identity f)) (layer_range (identity f))
             (sub_start, sub_end) (int (length tokens)))
           ((sub_end - sub_start + 1) * 64) (ttl f) (reuse_score f) (version_id f))"

definition split_bounds :: "fragment \<Rightarrow> int list \<Rightarrow> int list" where
  "split_bounds f points =
     (let (f_start, f_end) = token_span (identity f)
      in [f_start] @ map (\<lambda>p. p + 1) (sort (remdups (filter (\<lambda>p. f_start < p \<and> p < f_end) points))) @ [f_end + 1])"

definition split_fragment :: "(string \<Rightarrow> string) \<Rightarrow> fragment \<Rightarrow> int list \<Rightarrow> int list option \<Rightarrow> fragment list result" where
  "split_fragment md5 f points original =
     (if points = [] then Inr [f]
      else
        let (f_start, f_end) = token_span (identity f)
        in if filter (\<lambda>p. f_start < p \<and> p < f_end) points = [] then Inr [f]
           else let bs = split_bounds f points in map_result (split_piece md5 f original) (zip bs (tl bs)))"

text \<open>The admission loop of a merge, with the end of the previous fragment: the sizes and scores, or a refusal.\<close>

fun merge_loop :: "string \<Rightarrow> int \<times> int \<Rightarrow> int option \<Rightarrow> fragment list \<Rightarrow> int \<Rightarrow> real \<Rightarrow> (int \<times> real) option" where
  "merge_loop model layers prev [] total_size total_reuse = Some (total_size, total_reuse)"
| "merge_loop model layers prev (f # fs) total_size total_reuse =
     (if model_id (identity f) \<noteq> model then None
      else if layer_range (identity f) \<noteq> layers then None
      else if (case prev of None \<Rightarrow> False | Some e \<Rightarrow> fst (token_span (identity f)) \<noteq> e + 1) then None
      else merge_loop model layers (Some (snd (token_span (identity f)))) fs
             (total_size + payload_size f) (total_reuse + reuse_score f))"

definition merge_fragments ::
  "(string \<Rightarrow> string) \<Rightarrow> fragmenter_config \<Rightarrow> fragment list \<Rightarrow> int list list option \<Rightarrow> fragment option result" where
  "merge_fragments md5 cfg fs sequences =
     (if length fs < 2 then Inr None
      else
        let model = model_id (identity (hd fs)); layers = layer_range (identity (hd fs))
        in (case merge_loop model layers None fs 0 0 of
              None \<Rightarrow> Inr None
            | Some (total_size, total_reuse) \<Rightarrow>
                let avg_reuse = total_reuse / real (length fs)
                in if avg_reuse > merge_reuse_threshold cfg then Inr None
                   else
                     let start = fst (token_span (identity (hd fs)));
                         stop = snd (token_span (identity (last fs)));
                         tokens = (case sequences of
                                     Some seqs \<Rightarrow> if length seqs = length fs then concat seqs else [start..stop]
                                   | None \<Rightarrow> [start..stop])
                     in map_sum id Some
                          (new_piece
                            (piece_identity (compute_content_hash md5 tokens) model layers (start, stop) (int (length tokens)))
                            total_size (ttl (hd fs)) avg_reuse (Max (set (map version_id fs))))))"

section \<open>Chains of spans\<close>

text \<open>Adjacent spans from \<open>a\<close> up to and excluding \<open>b\<close>.\<close>

fun chained :: "int \<Rightarrow> (int \<times> int) list \<Rightarrow> int \<Rightarrow> bool" where
  "chained a [] b = (a = b)"
| "chained a ((s, e) # xs) b = (s = a \<and> s \<le> e \<and> chained (e + 1) xs b)"

lemma chained_append: "chained a (xs @ ys) c \<longleftrightarrow> (\<exists>b. chained a xs b \<and> chained b ys c)"
  by (induction xs arbitrary: a) auto

lemma chained_le: "chained a xs b \<Longrightarrow> a \<le> b"
  by (induction xs arbitrary: a) (auto, fastforce)

text \<open>Slicing a sequence along a chain of spans and joining the slices gives the slice of the whole.\<close>

lemma tok_slice_append:
  assumes "0 \<le> a" "a \<le> b" "b \<le> c"
  shows "tok_slice a b xs @ tok_slice b c xs = tok_slice a c xs"
proof -
  have "nat a \<le> nat b" "nat b \<le> nat c" using assms by simp_all
  then obtain i j where ij: "nat b = nat a + i" "nat c = nat a + i + j" by (metis le_iff_add)
  show ?thesis unfolding tok_slice_def ij drop_take by (simp add: take_add add.commute)
qed

lemma concat_slices:
  "chained a spans b \<Longrightarrow> 0 \<le> a \<Longrightarrow> concat (map (\<lambda>(s, e). tok_slice s (e + 1) xs) spans) = tok_slice a b xs"
proof (induction spans arbitrary: a)
  case Nil
  then show ?case by (simp add: tok_slice_def)
next
  case (Cons p spans)
  obtain s e where p: "p = (s, e)" by (cases p)
  then show ?case
    using Cons.IH [of "e + 1"] Cons.prems chained_le [of "e + 1" spans b] tok_slice_append [of a "e + 1" b xs] by simp
qed

text \<open>A chain as pairs of adjacent boundaries.\<close>

lemma chained_bounds:
  assumes "sorted_wrt (<) bs" "bs \<noteq> []"
  shows "chained (hd bs) (map (\<lambda>(s, e). (s, e - 1)) (zip bs (tl bs))) (last bs)"
  using assms
proof (induction bs rule: induct_list012)
  case (3 x y zs)
  then show ?case by simp
qed simp_all

section \<open>Pieces\<close>

lemma new_piece_ok:
  assumes "payload_hash i \<noteq> []" "dtype i \<in> set DTYPE_VALUES" "range_ok (layer_range i)" "range_ok (token_span i)"
    "head_range i = (-1, -1)" "shape i \<noteq> []" "0 \<le> sz" "0 \<le> lifetime" "0 \<le> score" "score \<le> 1" "1 \<le> version"
  shows "new_piece i sz lifetime score version =
    Inr \<lparr>identity = i, payload_ref = Some (payload_hash i), payload_size = sz, ttl = lifetime,
         reuse_score = score, version_id = version, consistency = ''strong'', hlc = 0, fingerprint_compat = [],
         tenant_id = DEFAULT_TENANT\<rparr>"
proof -
  have "validate_tenant_id DEFAULT_TENANT = Inr ()" by code_simp
  then show ?thesis using assms
    by (simp add: new_piece_def PayloadIdentity_def identity_post_init_def Fragment_new_def fragment_post_init_def
        CONSISTENCY_LEVELS_def)
qed

lemma map_result_exact:
  assumes "\<And>x. x \<in> set xs \<Longrightarrow> f x = Inr (g x)"
  shows "map_result f xs = Inr (map g xs)"
  using assms by (induction xs) simp_all

subsection \<open>Windows\<close>

definition window_span :: "int \<Rightarrow> int \<Rightarrow> int \<Rightarrow> int \<times> int" where
  "window_span ws n i = (i * ws, min (i * ws + ws) n - 1)"

definition window_piece :: "(string \<Rightarrow> string) \<Rightarrow> string \<Rightarrow> int list \<Rightarrow> int \<times> int \<Rightarrow> fragment" where
  "window_piece md5 model prompt sp =
     (let tokens = tok_slice (fst sp) (snd sp + 1) prompt; h = compute_content_hash md5 tokens
      in \<lparr>identity = piece_identity h model (0, 0) sp (int (length tokens)), payload_ref = Some h,
          payload_size = int (length tokens) * 64, ttl = 3600, reuse_score = 1 / 2, version_id = 1,
          consistency = ''strong'', hlc = 0, fingerprint_compat = [], tenant_id = DEFAULT_TENANT\<rparr>)"

lemma windows_chained:
  assumes "0 < ws" "0 \<le> k" "(k - 1) * ws < n" "0 \<le> n"
  shows "chained 0 (map (window_span ws n) [0..k - 1]) (min (k * ws) n)"
  using assms(2,3)
proof (induction k rule: int_ge_induct)
  case base
  then show ?case using assms(4) by simp
next
  case (step k)
  have "(k - 1) * ws < n" using step.prems assms(1) by (simp add: algebra_simps)
  with step have "chained 0 (map (window_span ws n) [0..k - 1]) (min (k * ws) n)" by simp
  moreover have "min (k * ws) n = k * ws" using step.prems by simp
  moreover have "[0..k + 1 - 1] = [0..k - 1] @ [k]" using step.hyps by (simp add: upto_rec2)
  moreover have "window_span ws n k = (k * ws, min ((k + 1) * ws) n - 1)" by (simp add: window_span_def algebra_simps)
  moreover have "k * ws \<le> min ((k + 1) * ws) n - 1" using step.prems assms(1) by (simp add: algebra_simps)
  ultimately show ?case by (simp add: chained_append)
qed

lemma num_windows:
  fixes n ws :: int
  assumes "0 < ws" "0 < n"
  defines "k \<equiv> (n + ws - 1) div ws"
  shows "0 \<le> k" "(k - 1) * ws < n" "n \<le> k * ws"
proof -
  have "k * ws = n + ws - 1 - (n + ws - 1) mod ws" by (simp add: k_def minus_mod_eq_div_mult)
  moreover have "0 \<le> (n + ws - 1) mod ws" "(n + ws - 1) mod ws < ws" using assms(1) by simp_all
  ultimately show "(k - 1) * ws < n" "n \<le> k * ws" by (simp_all add: algebra_simps)
  show "0 \<le> k" using assms(1,2) by (simp add: k_def pos_imp_zdiv_nonneg_iff)
qed

lemma chained_range: "chained a spans b \<Longrightarrow> (s, e) \<in> set spans \<Longrightarrow> a \<le> s \<and> s \<le> e \<and> e < b"
proof (induction spans arbitrary: a)
  case (Cons p spans)
  obtain s' e' where p: "p = (s', e')" by (cases p)
  show ?case
    using Cons p chained_le [of "e' + 1" spans b] by (auto dest: Cons.IH)
qed simp

lemma create_windows_eq:
  assumes "0 < window_size cfg" "\<And>x. md5 x \<noteq> []"
  shows "\<exists>spans. chained 0 spans (int (length prompt)) \<and> (\<forall>(s, e) \<in> set spans. e - s < window_size cfg) \<and>
    create_windows md5 cfg prompt model = Inr (map (window_piece md5 model prompt) spans)"
proof (cases "prompt = []")
  case True
  then show ?thesis by (intro exI [of _ "[]"]) (simp add: create_windows_def)
next
  case False
  define n where "n = int (length prompt)"
  define ws where "ws = window_size cfg"
  define k where "k = (n + ws - 1) div ws"
  let ?spans = "map (window_span ws n) [0..k - 1]"
  have pos: "0 < n" "0 < ws" using False assms(1) by (simp_all add: n_def ws_def)
  note k = num_windows [OF pos(2,1), folded k_def]
  have ch: "chained 0 ?spans n" using windows_chained [OF pos(2) k(1,2)] k(3) pos by simp
  have "window md5 ws prompt model i = Inr (window_piece md5 model prompt (window_span ws n i))"
    if "i \<in> set [0..k - 1]" for i
  proof -
    obtain s e where se: "window_span ws n i = (s, e)" by (cases "window_span ws n i")
    have "(s, e) \<in> set ?spans" unfolding se [symmetric] set_map using that by (rule imageI)
    from chained_range [OF ch this] have "0 \<le> s" "s \<le> e" by simp_all
    have s: "s = i * ws" and e: "e = min (i * ws + ws) (int (length prompt)) - 1"
      using se unfolding window_span_def n_def by auto
    let ?ts = "tok_slice s (e + 1) prompt"
    have "new_piece (piece_identity (compute_content_hash md5 ?ts) model (0, 0) (s, e) (int (length ?ts)))
        (int (length ?ts) * 64) 3600 (1 / 2) 1 = Inr (window_piece md5 model prompt (s, e))"
      using \<open>0 \<le> s\<close> \<open>s \<le> e\<close> assms(2)
      by (subst new_piece_ok)
        (simp_all add: piece_identity_def range_ok_def window_piece_def Let_def compute_content_hash_def DTYPE_VALUES_def)
    then show ?thesis unfolding se window_def Let_def s e .
  qed
  then have "create_windows md5 cfg prompt model = Inr (map (window_piece md5 model prompt) ?spans)"
    using False pos(2) map_result_exact [of "[0..k - 1]" "window md5 ws prompt model" "\<lambda>i. window_piece md5 model prompt (window_span ws n i)"]
    by (simp add: create_windows_def ws_def [symmetric] n_def [symmetric] k_def [symmetric] Let_def comp_def)
  moreover have "\<forall>(s, e) \<in> set ?spans. e - s < ws" by (auto simp: window_span_def)
  ultimately show ?thesis using ch unfolding n_def ws_def by blast
qed

subsection \<open>Splits\<close>

definition split_out :: "(string \<Rightarrow> string) \<Rightarrow> fragment \<Rightarrow> int list option \<Rightarrow> int \<times> int \<Rightarrow> fragment" where
  "split_out md5 f original sp =
     (let tokens = (case original of
                      Some ts \<Rightarrow> if snd sp < int (length ts) then tok_slice (fst sp) (snd sp + 1) ts else [fst sp..snd sp]
                    | None \<Rightarrow> [fst sp..snd sp]);
          h = compute_content_hash md5 tokens
      in \<lparr>identity = piece_identity h (model_id (identity f)) (layer_range (identity f)) sp (int (length tokens)),
          payload_ref = Some h, payload_size = (snd sp - fst sp + 1) * 64, ttl = ttl f, reuse_score = reuse_score f,
          version_id = version_id f, consistency = ''strong'', hlc = 0, fingerprint_compat = [],
          tenant_id = DEFAULT_TENANT\<rparr>)"

definition inner_points :: "fragment \<Rightarrow> int list \<Rightarrow> int set" where
  "inner_points f points = {p \<in> set points. fst (token_span (identity f)) < p \<and> p < snd (token_span (identity f))}"

definition split_spans :: "fragment \<Rightarrow> int list \<Rightarrow> (int \<times> int) list" where
  "split_spans f points = map (\<lambda>(s, e). (s, e - 1)) (zip (split_bounds f points) (tl (split_bounds f points)))"

lemma split_piece_eq:
  assumes "identity_ok (identity f)" "fragment_ok f" "0 \<le> s" "s < e" "\<And>x. md5 x \<noteq> []"
  shows "split_piece md5 f original (s, e) = Inr (split_out md5 f original (s, e - 1))"
  using assms unfolding split_piece_def Let_def fst_conv snd_conv
  by (cases original; subst new_piece_ok)
    (simp_all add: piece_identity_def range_ok_def split_out_def Let_def compute_content_hash_def DTYPE_VALUES_def
      identity_ok_def fragment_ok_def)

lemma split_bounds_sorted:
  assumes "token_span (identity f) = (a, b)" "a \<le> b"
  shows "sorted_wrt (<) (split_bounds f points)" "hd (split_bounds f points) = a" "last (split_bounds f points) = b + 1"
proof -
  let ?ps = "sort (remdups (filter (\<lambda>p. a < p \<and> p < b) points))"
  have "sorted_wrt (<) ?ps" by (simp add: strict_sorted_iff)
  then have "sorted_wrt (<) (map (\<lambda>p. p + 1) ?ps)" 
    unfolding sorted_wrt_map by (rule sorted_wrt_mono_rel [rotated]) simp
  then show "sorted_wrt (<) (split_bounds f points)"
    using assms by (auto simp: split_bounds_def sorted_wrt_append)
  show "hd (split_bounds f points) = a" "last (split_bounds f points) = b + 1"
    using assms by (simp_all add: split_bounds_def)
qed

lemma split_spans_chained:
  assumes "token_span (identity f) = (a, b)" "a \<le> b"
  shows "chained a (split_spans f points) (b + 1)"
  using chained_bounds [OF split_bounds_sorted(1) [OF assms, of points]] split_bounds_sorted(2,3) [OF assms, of points]
  by (simp add: split_spans_def split_bounds_def assms)

lemma split_fragment_eq:
  assumes "identity_ok (identity f)" "fragment_ok f" "\<And>x. md5 x \<noteq> []"
  shows "split_fragment md5 f points original =
    Inr (if inner_points f points = {} then [f] else map (split_out md5 f original) (split_spans f points))"
proof -
  obtain a b where ab: "token_span (identity f) = (a, b)" by (cases "token_span (identity f)")
  have r: "0 \<le> a" "a \<le> b" using assms(1) ab by (simp_all add: identity_ok_def range_ok_def)
  have e: "filter (\<lambda>p. a < p \<and> p < b) points = [] \<longleftrightarrow> inner_points f points = {}"
    by (auto simp: inner_points_def ab filter_empty_conv)
  let ?bs = "split_bounds f points"
  have "split_piece md5 f original p = Inr (split_out md5 f original (fst p, snd p - 1))" if "p \<in> set (zip ?bs (tl ?bs))" for p
  proof -
    have "(fst p, snd p - 1) \<in> set (split_spans f points)"
      unfolding split_spans_def set_map using that by (intro image_eqI [of _ _ p]) (simp_all add: case_prod_beta)
    from chained_range [OF split_spans_chained [OF ab r(2)] this] have "a \<le> fst p" "fst p < snd p" by simp_all
    with split_piece_eq [OF assms(1,2) _ _ assms(3), where s = "fst p" and e = "snd p" and original = original] r(1) show ?thesis by simp
  qed
  from map_result_exact [OF this] show ?thesis
    using e by (auto simp: split_fragment_def ab Let_def split_spans_def comp_def case_prod_beta inner_points_def)
qed

lemma split_ends:
  assumes "token_span (identity f) = (a, b)" "a \<le> b"
  shows "set (map snd (split_spans f points)) = insert b (inner_points f points)"
proof -
  let ?bs = "split_bounds f points"
  have "map snd (split_spans f points) = map (\<lambda>e. e - 1) (map snd (zip ?bs (tl ?bs)))"
    by (simp add: split_spans_def case_prod_beta)
  moreover have "map snd (zip ?bs (tl ?bs)) = tl ?bs" by (simp add: map_snd_zip_take)
  moreover have "tl ?bs = map (\<lambda>p. p + 1) (sort (remdups (filter (\<lambda>p. a < p \<and> p < b) points))) @ [b + 1]"
    using assms by (simp add: split_bounds_def)
  ultimately have "map snd (split_spans f points) =
      map (\<lambda>e. e - 1) (map (\<lambda>p. p + 1) (sort (remdups (filter (\<lambda>p. a < p \<and> p < b) points))) @ [b + 1])"
    by (simp only:)
  then have "map snd (split_spans f points) = sort (remdups (filter (\<lambda>p. a < p \<and> p < b) points)) @ [b]"
    by (simp add: comp_def)
  then show ?thesis by (auto simp: inner_points_def assms)
qed

lemma split_two:
  assumes "token_span (identity f) = (a, b)" "a \<le> b" "inner_points f points \<noteq> {}"
  shows "2 \<le> length (split_spans f points)"
proof -
  have "b \<notin> inner_points f points" "finite (inner_points f points)"
    using assms(1) by (simp_all add: inner_points_def)
  then have "2 \<le> card (set (map snd (split_spans f points)))"
    unfolding split_ends [OF assms(1,2)] using assms(3) by (simp add: card_gt_0_iff Suc_le_eq numeral_2_eq_2)
  then show ?thesis by (metis card_length length_map order_trans)
qed

subsection \<open>Merging a chain of pieces\<close>

lemma merge_loop_chained:
  assumes "\<forall>sp. model_id (identity (g sp)) = model \<and> layer_range (identity (g sp)) = layers \<and> token_span (identity (g sp)) = sp"
    "\<forall>sp. payload_size (g sp) = (snd sp - fst sp + 1) * 64"
    "\<forall>sp. reuse_score (g sp) = r"
  shows "chained a spans b \<Longrightarrow> prev = None \<or> prev = Some (a - 1) \<Longrightarrow>
    merge_loop model layers prev (map g spans) z t = Some (z + (b - a) * 64, t + real (length spans) * r)"
proof (induction spans arbitrary: a prev z t)
  case Nil
  then show ?case by simp
next
  case (Cons p spans)
  obtain s e where p: "p = (s, e)" by (cases p)
  have ident: "model_id (identity (g p)) = model" "layer_range (identity (g p)) = layers" "token_span (identity (g p)) = (s, e)"
    using assms(1) p by simp_all
  have rest: "merge_loop model layers (Some e) (map g spans) (z + (e - s + 1) * 64) (t + r) =
    Some (z + (e - s + 1) * 64 + (b - (e + 1)) * 64, t + r + real (length spans) * r)"
    by (rule Cons.IH) (use Cons.prems p in simp_all)
  have s: "s = a" using Cons.prems p by simp
  have "\<not> (case prev of None \<Rightarrow> False | Some e \<Rightarrow> fst (token_span (identity (g p))) \<noteq> e + 1)"
    using Cons.prems ident s by auto
  moreover have "payload_size (g p) = (e - s + 1) * 64" "reuse_score (g p) = r" using assms(2,3) p by simp_all
  ultimately have "merge_loop model layers prev (map g (p # spans)) z t =
    merge_loop model layers (Some e) (map g spans) (z + (e - s + 1) * 64) (t + r)"
    using ident by simp
  then show ?case using rest s by (simp add: algebra_simps)
qed

lemma chained_hd_last: "chained a spans b \<Longrightarrow> spans \<noteq> [] \<Longrightarrow> fst (hd spans) = a \<and> snd (last spans) = b - 1"
proof (induction spans arbitrary: a)
  case (Cons p spans)
  then show ?case by (cases p; cases spans) auto
qed simp

section \<open>Properties\<close>

text \<open>
  C33. Windows partition the prompt: for a positive window size every prompt is cut, without an error,
  into fragments whose token spans are adjacent, start at 0, end at the last token and are at most a
  window long; each fragment is addressed by the hash of its own tokens, and the token slices of the
  fragments, put together in order, are the prompt.
\<close>

theorem windows_partition_prompt:
  assumes "0 < window_size cfg" and "\<forall>x. md5 x \<noteq> []"
  shows "\<exists>fs. create_windows md5 cfg prompt model = Inr fs \<and>
    chained 0 (map (\<lambda>f. token_span (identity f)) fs) (int (length prompt)) \<and>
    list_all (\<lambda>f. snd (token_span (identity f)) - fst (token_span (identity f)) < window_size cfg \<and>
      payload_hash (identity f) =
        compute_content_hash md5 (tok_slice (fst (token_span (identity f))) (snd (token_span (identity f)) + 1) prompt)) fs \<and>
    concat (map (\<lambda>f. tok_slice (fst (token_span (identity f))) (snd (token_span (identity f)) + 1) prompt) fs) = prompt"
proof -
  obtain spans where sp: "chained 0 spans (int (length prompt))" "\<forall>(s, e) \<in> set spans. e - s < window_size cfg"
    "create_windows md5 cfg prompt model = Inr (map (window_piece md5 model prompt) spans)"
    using create_windows_eq [OF assms(1)] assms(2) by blast
  have ident: "token_span (identity (window_piece md5 model prompt p)) = p"
    "payload_hash (identity (window_piece md5 model prompt p)) =
       compute_content_hash md5 (tok_slice (fst p) (snd p + 1) prompt)" for p
    by (simp_all add: window_piece_def piece_identity_def Let_def)
  have "concat (map (\<lambda>p. tok_slice (fst p) (snd p + 1) prompt) spans) = prompt"
    using concat_slices [OF sp(1), of prompt] by (simp add: case_prod_unfold tok_slice_def)
  then show ?thesis
    using sp by (intro exI [of _ "map (window_piece md5 model prompt) spans"])
      (simp add: ident comp_def list_all_iff case_prod_beta)
qed

theorem windows_partition_prompt_witness:
  "\<exists>fs. create_windows (\<lambda>x. CHR ''d'' # x) \<lparr>window_size = 2, merge_reuse_threshold = 1\<rparr> [7, 8, 9] ''m'' = Inr fs \<and>
     concat (map (\<lambda>f. tok_slice (fst (token_span (identity f))) (snd (token_span (identity f)) + 1) [7, 8, 9]) fs) = [7, 8, 9 :: int]"
  using windows_partition_prompt [of "\<lparr>window_size = 2, merge_reuse_threshold = 1\<rparr>" "\<lambda>x. CHR ''d'' # x" "[7, 8, 9]" "''m''"]
  by auto



text \<open>
  A split moves a tenant's fragment into the public tenant: whatever tenant, consistency level,
  clock stamp and fingerprint a fragment has, the pieces of a split have the constructor's defaults,
  so they belong to the public tenant.
\<close>

theorem split_leaves_tenant:
  assumes "identity_ok (identity f)" "fragment_ok f" "\<forall>x. md5 x \<noteq> []" "inner_points f points \<noteq> {}"
  shows "\<exists>fs. split_fragment md5 f points original = Inr fs \<and> 2 \<le> length fs \<and>
    list_all (\<lambda>g. tenant_id g = DEFAULT_TENANT \<and> consistency g = ''strong'' \<and> hlc g = 0 \<and> fingerprint_compat g = []) fs"
proof -
  obtain a b where ab: "token_span (identity f) = (a, b)" by (cases "token_span (identity f)")
  have le: "a \<le> b" using assms(1) ab by (simp add: identity_ok_def range_ok_def)
  have "split_fragment md5 f points original = Inr (map (split_out md5 f original) (split_spans f points))"
    using split_fragment_eq [OF assms(1,2)] assms(3,4) by simp
  moreover have "2 \<le> length (split_spans f points)" by (rule split_two [OF ab le assms(4)])
  ultimately show ?thesis
    by (intro exI [of _ "map (split_out md5 f original) (split_spans f points)"])
      (simp add: list_all_iff split_out_def Let_def)
qed

theorem split_leaves_tenant_witness:
  "\<exists>fs. split_fragment (\<lambda>x. CHR ''d'' # x) (sample_fragment ''acme'' 1) [9] None = Inr fs \<and> 2 \<le> length fs \<and>
     list_all (\<lambda>g. tenant_id g = ''public'') fs"
proof -
  let ?f = "sample_fragment ''acme'' 1"
  have "inner_points ?f [9] \<noteq> {}" by (auto simp: inner_points_def sample_fragment_def sample_identity_def)
  moreover have "identity_ok (identity ?f)" "fragment_ok ?f" by (code_simp)+
  ultimately show ?thesis
    using split_leaves_tenant [of ?f "\<lambda>x. CHR ''d'' # x" "[9]" None] by (auto simp: DEFAULT_TENANT_def list_all_iff)
qed

end
