(* ===== verification/Registry.thy ===== *)
theory Registry
  imports Node Fragmenter
begin

text \<open>
  The routing directory, \<^verbatim>\<open>registry.py\<close>: the registered nodes, a bounded least-recently-recorded table of
  which nodes hold which fragments, and the ranking of nodes by how many prefixes of a prompt they
  hold. The table is shown to stay within its bound with the recently recorded hashes kept, and to
  implement a relation between hashes and holders as long as it does not overflow.
\<close>

section \<open>The directory\<close>

record registry =
  reg_nodes :: "(string, node) dict"
  fragment_locations :: "(string, string set) dict"
  reg_max_entries :: int

definition MAX_LOCATION_ENTRIES :: int where
  "MAX_LOCATION_ENTRIES = 200000"

definition Registry :: "int \<Rightarrow> registry" where
  "Registry limit = \<lparr>reg_nodes = [], fragment_locations = [], reg_max_entries = limit\<rparr>"

definition register_node :: "node \<Rightarrow> registry \<Rightarrow> registry" where
  "register_node nd r = r\<lparr>reg_nodes := dict_set (reg_nodes r) (node_id nd) nd\<rparr>"

definition unregister_node :: "string \<Rightarrow> registry \<Rightarrow> registry \<times> bool" where
  "unregister_node n r =
     (if \<not> dict_has (reg_nodes r) n then (r, False)
      else (r\<lparr>reg_nodes := dict_del (reg_nodes r) n,
              fragment_locations := map (\<lambda>(h, hs). (h, hs - {n})) (fragment_locations r)\<rparr>, True))"

text \<open>The trimming loop: \<open>popitem(last=False)\<close> raises on an empty table.\<close>

fun trim_locations :: "int \<Rightarrow> ('k, 'v) dict \<Rightarrow> ('k, 'v) dict \<times> unit result" where
  "trim_locations limit [] = ([], if 0 > limit then Inl KeyError else Inr ())"
| "trim_locations limit (x # d) =
     (if int (length (x # d)) > limit then trim_locations limit d else (x # d, Inr ()))"

definition record_fragment_location :: "string \<Rightarrow> string \<Rightarrow> registry \<Rightarrow> registry \<times> unit result" where
  "record_fragment_location h n r =
     (case map_of (fragment_locations r) h of
        None \<Rightarrow>
          (case trim_locations (reg_max_entries r) (dict_set (fragment_locations r) h {}) of
             (d, Inl e) \<Rightarrow> (r\<lparr>fragment_locations := d\<rparr>, Inl e)
           | (d, Inr _) \<Rightarrow>
               (r\<lparr>fragment_locations := (if dict_has d h then dict_set d h {n} else d)\<rparr>, Inr ()))
      | Some hs \<Rightarrow>
          (r\<lparr>fragment_locations := dict_set (dict_move_to_end (fragment_locations r) h) h (insert n hs)\<rparr>, Inr ()))"

definition forget_fragment_location :: "string \<Rightarrow> string \<Rightarrow> registry \<Rightarrow> registry \<times> bool" where
  "forget_fragment_location h n r =
     (case map_of (fragment_locations r) h of
        None \<Rightarrow> (r, False)
      | Some hs \<Rightarrow>
          (r\<lparr>fragment_locations :=
               (if hs - {n} = {} then dict_del (fragment_locations r) h
                else dict_set (fragment_locations r) h (hs - {n}))\<rparr>, n \<in> hs))"

definition forget_fragment :: "string \<Rightarrow> registry \<Rightarrow> registry \<times> bool" where
  "forget_fragment h r =
     (r\<lparr>fragment_locations := dict_del (fragment_locations r) h\<rparr>, dict_has (fragment_locations r) h)"

definition locate_fragment :: "string \<Rightarrow> registry \<Rightarrow> string set" where
  "locate_fragment h r = dict_get (fragment_locations r) h {}"

section \<open>Ranking nodes for a prompt\<close>

definition prefix_hashes :: "(string \<Rightarrow> string) \<Rightarrow> int list \<Rightarrow> int \<Rightarrow> string set" where
  "prefix_hashes md5 prompt attempts =
     (let len = int (length prompt);
          step = (if attempts > 0 then max 1 (len div attempts) else 1)
      in (\<lambda>i. compute_content_hash md5 (take (nat i) prompt)) ` set (filter (\<lambda>i. (i - 1) mod step = 0) [1..len]))"

text \<open>How many of the hashes a node returns; each lookup changes the node.\<close>

fun coverage :: "node_env \<Rightarrow> nat \<Rightarrow> string list \<Rightarrow> node \<Rightarrow> int \<Rightarrow> node \<times> int result" where
  "coverage E t [] nd score = (nd, Inr score)"
| "coverage E t (h # hs) nd score =
     (case retrieve E t h [] {} nd of
        (nd1, Inl e) \<Rightarrow> (nd1, Inl e)
      | (nd1, Inr found) \<Rightarrow> coverage E t hs nd1 (if found \<noteq> None then score + 1 else score))"

text \<open>Python's \<open>int\<close> on a float truncates towards zero.\<close>

definition py_trunc :: "real \<Rightarrow> int" where
  "py_trunc x = (if x \<ge> 0 then \<lfloor>x\<rfloor> else \<lceil>x\<rceil>)"

definition node_score :: "node_env \<Rightarrow> nat \<Rightarrow> string list \<Rightarrow> node \<Rightarrow> node \<times> int result" where
  "node_score E t hs nd =
     (case coverage E t hs nd 0 of
        (nd1, Inl e) \<Rightarrow> (nd1, Inl e)
      | (nd1, Inr score) \<Rightarrow> (nd1, Inr (max 0 (score - py_trunc (node_heartbeat nd1 * 10)))))"

fun score_nodes ::
  "node_env \<Rightarrow> nat \<Rightarrow> string list \<Rightarrow> (string, node) dict \<Rightarrow> (string, node) dict \<times> (string \<times> int) list result" where
  "score_nodes E t hs [] = ([], Inr [])"
| "score_nodes E t hs ((n, nd) # rest) =
     (case node_score E t hs nd of
        (nd1, Inl e) \<Rightarrow> ((n, nd1) # rest, Inl e)
      | (nd1, Inr s) \<Rightarrow>
          (let (rest1, r) = score_nodes E t hs rest
           in ((n, nd1) # rest1, bind_result r (\<lambda>scores. Inr ((n, s) # scores)))))"

definition best_nodes ::
  "node_env \<Rightarrow> (string \<Rightarrow> string) \<Rightarrow> nat \<Rightarrow> int list \<Rightarrow> int \<Rightarrow> int \<Rightarrow> registry \<Rightarrow> registry \<times> string list result" where
  "best_nodes E md5 t prompt k attempts r =
     (if reg_nodes r = [] then (r, Inr [])
      else
        let (ns, scored) = score_nodes E t (set_order E (prefix_hashes md5 prompt attempts)) (reg_nodes r)
        in (r\<lparr>reg_nodes := ns\<rparr>,
            bind_result scored (\<lambda>scores.
              let ranked = sort_key (\<lambda>p. - snd p) scores
              in Inr (map fst (filter (\<lambda>p. snd p > 0) (slice_to k ranked))))))"

section \<open>Histories\<close>

datatype registry_op =
    Register node | Unregister string | RecordLoc string string | ForgetLoc string string | ForgetAll string

fun registry_step :: "registry \<Rightarrow> registry_op \<Rightarrow> registry" where
  "registry_step r (Register nd) = register_node nd r"
| "registry_step r (Unregister n) = fst (unregister_node n r)"
| "registry_step r (RecordLoc h n) = fst (record_fragment_location h n r)"
| "registry_step r (ForgetLoc h n) = fst (forget_fragment_location h n r)"
| "registry_step r (ForgetAll h) = fst (forget_fragment h r)"

lemma trim_locations_eq:
  assumes "0 \<le> limit"
  shows "trim_locations limit d = (drop (length d - nat limit) d, Inr ())"
  using assms
proof (induction d)
  case (Cons x d)
  show ?case
  proof (cases "int (length (x # d)) > limit")
    case True
    then have "length (x # d) - nat limit = Suc (length d - nat limit)" by auto
    then show ?thesis using True Cons by simp
  next
    case False
    then show ?thesis by simp
  qed
qed simp

lemma length_dict_set: "length (dict_set d k v) = (if dict_has d k then length d else Suc (length d))"
  by (induction d) (auto simp: dict_has_def)

lemma length_dict_del_le: "length (dict_del d k) \<le> length d"
  by (induction d) auto

lemma length_move_to_end: "dict_ok d \<Longrightarrow> length (dict_move_to_end d k) = length d"
  using dict_del_length [of d k] by (auto simp: dict_move_to_end_def simp del: map_of_eq_Some_iff split: option.splits)

text \<open>What the table stands for: the registered nodes and the pairs of a hash and a node that holds it.\<close>

fun holding_step :: "string set \<times> (string \<times> string) set \<Rightarrow> registry_op \<Rightarrow> string set \<times> (string \<times> string) set" where
  "holding_step (N, R) (Register nd) = (insert (node_id nd) N, R)"
| "holding_step (N, R) (Unregister n) = (if n \<in> N then (N - {n}, {(h, m) \<in> R. m \<noteq> n}) else (N, R))"
| "holding_step (N, R) (RecordLoc h n) = (N, insert (h, n) R)"
| "holding_step (N, R) (ForgetLoc h n) = (N, R - {(h, n)})"
| "holding_step (N, R) (ForgetAll h) = (N, {(g, m) \<in> R. g \<noteq> h})"

fun recorded :: "registry_op \<Rightarrow> string set" where
  "recorded (RecordLoc h n) = {h}"
| "recorded _ = {}"

lemma dict_get_drop:
  assumes "dict_ok d"
  shows "dict_get (drop m d) h {} \<subseteq> dict_get d h ({} :: string set)"
proof (cases "map_of (drop m d) h")
  case None
  then show ?thesis by (simp add: dict_get_def)
next
  case (Some v)
  then have "(h, v) \<in> set d" by (meson in_set_dropD map_of_SomeD)
  then have "map_of d h = Some v" using assms by simp
  then show ?thesis using Some by (simp add: dict_get_def del: map_of_eq_Some_iff)
qed

definition holds :: "int \<Rightarrow> (string, string set) dict \<Rightarrow> (string \<times> string) set \<Rightarrow> bool" where
  "holds limit d R \<longleftrightarrow> dict_ok d \<and> int (length d) \<le> limit \<and> (\<forall>h n. n \<in> dict_get d h {} \<longrightarrow> (h, n) \<in> R)"

lemma dict_get_unregister:
  "dict_get (map (\<lambda>(h, hs). (h, hs - {n})) d) h {} = dict_get d h {} - {n}"
  by (cases "map_of d h") (simp_all add: dict_get_def map_of_map)

lemma keys_unregister: "map fst (map (\<lambda>(h, hs). (h, hs - {n})) d) = map fst d"
  by (induction d) auto

lemma holds_unregister: "holds limit d R \<Longrightarrow> holds limit (map (\<lambda>(h, hs). (h, hs - {n})) d) {(h, m) \<in> R. m \<noteq> n}"
  by (simp only: holds_def keys_unregister dict_get_unregister length_map) auto

lemma holds_set:
  assumes "holds limit d R" "dict_has d h" "\<And>n. n \<in> hs \<Longrightarrow> (h, n) \<in> R'" "R - {(h, n) | n. True} \<subseteq> R'"
  shows "holds limit (dict_set d h hs) R'"
  using assms by (auto simp: holds_def distinct_update length_dict_set dict_get_set)

lemma holds_del:
  assumes "holds limit d R" "R - {(h, n) | n. True} \<subseteq> R'"
  shows "holds limit (dict_del d h) R'"
  using assms length_dict_del_le [of h d] by (auto simp: holds_def distinct_delete dict_get_del)

lemma holds_new:
  assumes "holds limit d R" "0 \<le> limit" "\<not> dict_has d h"
  shows "holds limit (drop (length (dict_set d h {}) - nat limit) (dict_set d h {})) R"
proof -
  let ?d1 = "dict_set d h ({} :: string set)"
  have ok: "dict_ok ?d1" using assms(1) by (simp add: holds_def distinct_update)
  have "dict_get (drop m ?d1) g {} \<subseteq> dict_get d g {}" for m g
  proof -
    have "dict_get (drop m ?d1) g {} \<subseteq> dict_get ?d1 g {}" by (rule dict_get_drop [OF ok])
    then show ?thesis by (auto simp: dict_get_set split: if_splits)
  qed
  moreover have "dict_ok (drop m ?d1)" for m using ok by (simp add: drop_map [symmetric])
  moreover have "int (length (drop (length ?d1 - nat limit) ?d1)) \<le> limit" using assms(2) by simp
  moreover have "n \<in> dict_get d g {} \<Longrightarrow> (g, n) \<in> R" for g n using assms(1) by (simp add: holds_def)
  ultimately show ?thesis unfolding holds_def by blast
qed

lemma holds_move: "holds limit d R \<Longrightarrow> holds limit (dict_move_to_end d h) R"
  by (auto simp: holds_def length_move_to_end dict_get_def)

lemma holds_mono: "holds limit d R \<Longrightarrow> R \<subseteq> R' \<Longrightarrow> holds limit d R'"
  by (auto simp: holds_def)

definition registry_ok :: "int \<Rightarrow> registry \<Rightarrow> string set \<times> (string \<times> string) set \<Rightarrow> bool" where
  "registry_ok limit r A \<longleftrightarrow> reg_max_entries r = limit \<and> (\<forall>n. dict_has (reg_nodes r) n \<longleftrightarrow> n \<in> fst A) \<and>
     holds limit (fragment_locations r) (snd A)"

lemma record_holds:
  assumes "holds limit (fragment_locations r) R" "0 \<le> limit" "reg_max_entries r = limit"
  shows "holds limit (fragment_locations (fst (record_fragment_location h n r))) (insert (h, n) R)"
proof (cases "map_of (fragment_locations r) h")
  case None
  let ?d1 = "dict_set (fragment_locations r) h ({} :: string set)"
  let ?d2 = "drop (length ?d1 - nat limit) ?d1"
  have "holds limit ?d2 R" by (rule holds_new [OF assms(1,2)]) (simp add: None dict_has_def)
  then have "holds limit (if dict_has ?d2 h then dict_set ?d2 h {n} else ?d2) (insert (h, n) R)"
    by (auto intro!: holds_set [of limit ?d2 R] intro: holds_mono)
  then show ?thesis
    using None assms(3) trim_locations_eq [OF assms(2), of ?d1] by (simp add: record_fragment_location_def)
next
  case (Some hs)
  have "(h, m) \<in> R" if "m \<in> hs" for m
    using assms(1) that Some by (auto simp: holds_def dict_get_def simp del: map_of_eq_Some_iff)
  then have "holds limit (dict_set (dict_move_to_end (fragment_locations r) h) h (insert n hs)) (insert (h, n) R)"
    by (intro holds_set [OF holds_move [OF assms(1)]]) (auto simp: Some dict_has_def)
  then show ?thesis using Some by (simp add: record_fragment_location_def)
qed

lemma forget_holds:
  assumes "holds limit (fragment_locations r) R"
  shows "holds limit (fragment_locations (fst (forget_fragment_location h n r))) (R - {(h, n)})"
proof (cases "map_of (fragment_locations r) h")
  case None
  then have "dict_get (fragment_locations r) h {} = {}" by (simp add: dict_get_def)
  then show ?thesis using None assms by (auto simp: forget_fragment_location_def holds_def)
next
  case (Some hs)
  have R: "(h, m) \<in> R" if "m \<in> hs" for m
    using assms that Some by (auto simp: holds_def dict_get_def simp del: map_of_eq_Some_iff)
  have "holds limit (dict_del (fragment_locations r) h) (R - {(h, n)})" by (rule holds_del [OF assms]) auto
  moreover have "holds limit (dict_set (fragment_locations r) h (hs - {n})) (R - {(h, n)})"
    by (rule holds_set [OF assms]) (auto simp: Some dict_has_def R)
  ultimately show ?thesis using Some by (simp add: forget_fragment_location_def)
qed

lemma record_frame: "reg_max_entries (fst (record_fragment_location h n r)) = reg_max_entries r"
    "reg_nodes (fst (record_fragment_location h n r)) = reg_nodes r"
  by (auto simp: record_fragment_location_def split: option.splits prod.splits sum.splits)

lemma forget_frame: "reg_max_entries (fst (forget_fragment_location h n r)) = reg_max_entries r"
    "reg_nodes (fst (forget_fragment_location h n r)) = reg_nodes r"
  by (simp_all add: forget_fragment_location_def split: option.splits)

lemma registry_ok_step:
  assumes "registry_ok limit r A" "0 \<le> limit"
  shows "registry_ok limit (registry_step r x) (holding_step A x)"
proof -
  obtain N R where A: "A = (N, R)" by (cases A)
  have ok: "reg_max_entries r = limit" "\<forall>n. dict_has (reg_nodes r) n \<longleftrightarrow> n \<in> N" "holds limit (fragment_locations r) R"
    using assms(1) by (simp_all add: registry_ok_def A)
  show ?thesis
  proof (cases x)
    case (Register nd)
    then show ?thesis using ok by (auto simp: registry_ok_def A register_node_def)
  next
    case (Unregister n)
    then show ?thesis using ok holds_unregister [OF ok(3), of n]
      by (simp add: registry_ok_def A unregister_node_def) blast
  next
    case (RecordLoc h n)
    then show ?thesis using ok record_holds [OF ok(3) assms(2) ok(1)] by (simp add: registry_ok_def A record_frame)
  next
    case (ForgetLoc h n)
    then show ?thesis using ok forget_holds [OF ok(3)] by (simp add: registry_ok_def A forget_frame)
  next
    case (ForgetAll h)
    have "holds limit (dict_del (fragment_locations r) h) {(g, m) \<in> R. g \<noteq> h}" by (rule holds_del [OF ok(3)]) auto
    then show ?thesis using ok ForgetAll by (simp add: registry_ok_def A forget_fragment_def)
  qed
qed

text \<open>Without an overflow nothing is lost: the table is the relation.\<close>

definition exact :: "string set \<Rightarrow> registry \<Rightarrow> (string \<times> string) set \<Rightarrow> bool" where
  "exact H r R \<longleftrightarrow> fst ` set (fragment_locations r) \<subseteq> H \<and> (\<forall>h. locate_fragment h r = {n. (h, n) \<in> R})"

lemma length_keys:
  assumes "dict_ok d" "fst ` set d \<subseteq> H" "finite H"
  shows "length d \<le> card H"
  using card_mono [OF assms(3,2)] assms(1) by (metis distinct_card length_map set_map)

lemma keys_unregister_set: "fst ` set (map (\<lambda>(h, hs). (h, hs - {n})) d) = fst ` set d"
  using keys_unregister [of n d] by (metis set_map)

lemma keys_move: "fst ` set (dict_move_to_end d h) = fst ` set d"
proof (cases "map_of d h")
  case (Some v)
  then have "h \<in> fst ` set d" by (metis map_of_SomeD fst_conv image_eqI)
  then show ?thesis using Some dict_del_keys [of h d] by (auto simp: dict_move_to_end_def)
qed (simp add: dict_move_to_end_def)

lemma record_exact:
  assumes "exact H r R" "dict_ok (fragment_locations r)" "finite H" "int (card H) \<le> reg_max_entries r" "h \<in> H"
  shows "exact H (fst (record_fragment_location h n r)) (insert (h, n) R)"
proof -
  let ?d = "fragment_locations r"
  have get: "dict_get ?d g {} = {n. (g, n) \<in> R}" and keys: "fst ` set ?d \<subseteq> H" for g
    using assms(1) by (simp_all add: exact_def locate_fragment_def)
  show ?thesis
  proof (cases "map_of ?d h")
    case None
    let ?d1 = "dict_set ?d h ({} :: string set)"
    have k1: "fst ` set ?d1 \<subseteq> H" using dict_set_keys [of h "{}" ?d] keys assms(5) by simp
    have "length ?d1 \<le> card H" by (rule length_keys [OF _ k1 assms(3)]) (use assms(2) in simp)
    then have "trim_locations (reg_max_entries r) ?d1 = (?d1, Inr ())" using trim_locations_eq [of "reg_max_entries r" ?d1] assms(4) by simp
    then have "fragment_locations (fst (record_fragment_location h n r)) = dict_set ?d h {n}"
      using None by (simp add: record_fragment_location_def dict_has_def)
    moreover have "{m. (h, m) \<in> R} = {}" using get [of h] None by (simp add: dict_get_def)
    moreover have "fst ` set (dict_set ?d h {n}) \<subseteq> H" using dict_set_keys [of h "{n}" ?d] keys assms(5) by simp
    ultimately show ?thesis by (auto simp: exact_def locate_fragment_def dict_get_set get)
  next
    case (Some hs)
    then have hs: "hs = {n. (h, n) \<in> R}" using get [of h] by (simp add: dict_get_def)
    let ?d1 = "dict_set (dict_move_to_end ?d h) h (insert n hs)"
    have "fst ` set ?d1 \<subseteq> H" using dict_set_keys [of h "insert n hs" "dict_move_to_end ?d h"] keys assms(5) by (simp add: keys_move)
    moreover have "dict_get (dict_move_to_end ?d h) g {} = dict_get ?d g {}" for g by (simp add: dict_get_def)
    ultimately have "fst ` set ?d1 \<subseteq> H \<and> (\<forall>g. dict_get ?d1 g {} = {m. (g, m) \<in> insert (h, n) R})"
      by (auto simp: dict_get_set get hs)
    then show ?thesis using Some by (simp add: exact_def locate_fragment_def record_fragment_location_def)
  qed
qed

lemma exact_step:
  assumes "exact H r R" "registry_ok limit r (N, R)" "finite H" "int (card H) \<le> limit" "recorded x \<subseteq> H"
  shows "exact H (registry_step r x) (snd (holding_step (N, R) x))"
proof -
  let ?d = "fragment_locations r"
  have get: "dict_get ?d g {} = {n. (g, n) \<in> R}" and keys: "fst ` set ?d \<subseteq> H" for g
    using assms(1) by (simp_all add: exact_def locate_fragment_def)
  have ok: "reg_max_entries r = limit" "\<forall>n. dict_has (reg_nodes r) n \<longleftrightarrow> n \<in> N" "dict_ok ?d"
    using assms(2) by (simp_all add: registry_ok_def holds_def)
  show ?thesis
  proof (cases x)
    case (Register nd)
    then show ?thesis using assms(1) by (simp add: exact_def locate_fragment_def register_node_def)
  next
    case (Unregister n)
    then show ?thesis using get keys ok(2)
      by (simp add: exact_def locate_fragment_def unregister_node_def dict_get_unregister keys_unregister_set del: set_map) blast
  next
    case (RecordLoc h n)
    then show ?thesis using record_exact [OF assms(1) ok(3) assms(3), of h n] assms(4,5) ok(1) by simp
  next
    case (ForgetLoc h n)
    show ?thesis
    proof (cases "map_of ?d h")
      case None
      then have "{m. (h, m) \<in> R} = {}" using get [of h] by (simp add: dict_get_def)
      then show ?thesis using assms(1) ForgetLoc None
        by (auto simp: exact_def locate_fragment_def forget_fragment_location_def)
    next
      case (Some hs)
      then have hs: "hs = {n. (h, n) \<in> R}" using get [of h] by (simp add: dict_get_def)
      let ?r = "fst (forget_fragment_location h n r)"
      have locs: "fragment_locations ?r = (if hs - {n} = {} then dict_del ?d h else dict_set ?d h (hs - {n}))"
        using Some by (simp add: forget_fragment_location_def)
      have "h \<in> H" using keys Some by (metis map_of_SomeD fst_conv imageI subsetD)
      then have "fst ` set (fragment_locations ?r) \<subseteq> H"
        using dict_del_keys [of h ?d] dict_set_keys [of h "hs - {n}" ?d] keys by (auto simp: locs)
      moreover have "locate_fragment g ?r = {m. (g, m) \<in> R - {(h, n)}}" for g
        by (cases "hs - {n} = {}"; cases "g = h") (auto simp: locate_fragment_def locs dict_get_del dict_get_set get hs)
      ultimately show ?thesis using ForgetLoc by (simp add: exact_def)
    qed
  next
    case (ForgetAll h)
    have "fst ` set (dict_del ?d h) \<subseteq> H" using dict_del_keys [of h ?d] keys by auto
    then show ?thesis using ForgetAll
      by (auto simp: exact_def locate_fragment_def forget_fragment_def dict_get_del get)
  qed
qed

lemma registry_run:
  assumes "0 \<le> limit"
  shows "registry_ok limit (foldl registry_step (Registry limit) xs) (foldl holding_step ({}, {}) xs)"
proof (induction xs rule: rev_induct)
  case Nil
  then show ?case using assms by (simp add: registry_ok_def Registry_def holds_def dict_get_def dict_has_def)
next
  case (snoc x xs)
  from registry_ok_step [OF this assms] show ?case by simp
qed

lemma registry_run_exact:
  assumes "0 \<le> limit" "finite H" "int (card H) \<le> limit" "(\<Union>x\<in>set xs. recorded x) \<subseteq> H"
  shows "exact H (foldl registry_step (Registry limit) xs) (snd (foldl holding_step ({}, {}) xs))"
  using assms(4)
proof (induction xs rule: rev_induct)
  case Nil
  then show ?case by (simp add: exact_def Registry_def locate_fragment_def dict_get_def)
next
  case (snoc x xs)
  obtain N R where A: "foldl holding_step ({}, {}) xs = (N, R)" by (cases "foldl holding_step ({}, {}) xs")
  from exact_step [OF _ registry_run [OF assms(1), of xs, unfolded A] assms(2,3), of x] snoc show ?case by (simp add: A)
qed

section \<open>Properties\<close>

text \<open>
  C40. The location table is a bounded and sound cache: after any history of registrations, recorded
  and forgotten locations it holds at most its limit of hashes and names only holders that were
  recorded and neither forgotten nor unregistered since; when no more different hashes than the limit
  were recorded, it names all of them.
\<close>

theorem registry_locations:
  assumes "0 \<le> limit"
  shows "let r = foldl registry_step (Registry limit) xs; R = snd (foldl holding_step ({}, {}) xs) in
    int (length (fragment_locations r)) \<le> limit \<and> locate_fragment h r \<subseteq> {n. (h, n) \<in> R} \<and>
    (int (card (\<Union>x\<in>set xs. recorded x)) \<le> limit \<longrightarrow> locate_fragment h r = {n. (h, n) \<in> R})"
proof -
  have "finite (recorded x)" for x by (cases x) simp_all
  then have fin: "finite (\<Union>x\<in>set xs. recorded x)" by simp
  let ?r = "foldl registry_step (Registry limit) xs" and ?R = "snd (foldl holding_step ({}, {}) xs)"
  have h: "holds limit (fragment_locations ?r) ?R" using registry_run [OF assms, of xs] by (simp add: registry_ok_def)
  have "locate_fragment h ?r = {n. (h, n) \<in> ?R}" if "int (card (\<Union>x\<in>set xs. recorded x)) \<le> limit"
    using registry_run_exact [OF assms fin that order_refl] by (simp add: exact_def)
  moreover have "int (length (fragment_locations ?r)) \<le> limit" "locate_fragment h ?r \<subseteq> {n. (h, n) \<in> ?R}"
    using h unfolding holds_def locate_fragment_def by blast+
  ultimately show ?thesis unfolding Let_def by blast
qed

theorem registry_locations_witness:
  "let r = foldl registry_step (Registry 1) [RecordLoc ''a'' ''n1'', RecordLoc ''a'' ''n2'', ForgetLoc ''a'' ''n1''] in
     locate_fragment ''a'' r = {''n2''} \<and> int (length (fragment_locations r)) \<le> 1"
  using registry_locations [of 1 "[RecordLoc ''a'' ''n1'', RecordLoc ''a'' ''n2'', ForgetLoc ''a'' ''n1'']" "''a''"]
  by (auto simp: Let_def)

end
