(* ===== verification/Gc.thy ===== *)
theory Gc
  imports Prelude
begin

text \<open>
  Garbage collection, \<^verbatim>\<open>gc.py\<close>: the holder sets of content hashes (\<open>RefCount\<close>), the tombstones of deleted
  fragments with their deadlines (\<open>TombstoneTable\<close>) and one pass of the \<open>Sweeper\<close>. Clock readings are
  arguments; the hooks of a sweep are a log of calls. The reference counter is shown to implement a
  relation between hashes and holders, and a tombstone to stay in force until its deadline.
\<close>

section \<open>Reference counts\<close>

type_synonym ref_count = "(string, string set) dict"

definition acquire :: "string \<Rightarrow> string \<Rightarrow> ref_count \<Rightarrow> ref_count" where
  "acquire h n refs =
     (let refs1 = dict_setdefault refs h {} in dict_set refs1 h (insert n (dict_get refs1 h {})))"

definition release :: "string \<Rightarrow> string \<Rightarrow> ref_count \<Rightarrow> ref_count \<times> bool" where
  "release h n refs =
     (case map_of refs h of
        None \<Rightarrow> (refs, True)
      | Some hs \<Rightarrow>
          if hs - {n} = {} then (dict_del refs h, True)
          else (dict_set refs h (hs - {n}), False))"

definition holders :: "string \<Rightarrow> ref_count \<Rightarrow> string set" where
  "holders h refs = dict_get refs h {}"

definition ref_is_active :: "string \<Rightarrow> ref_count \<Rightarrow> bool" where
  "ref_is_active h refs = dict_has refs h"

definition forget :: "string \<Rightarrow> ref_count \<Rightarrow> ref_count" where
  "forget h refs = dict_del refs h"

definition ref_total :: "ref_count \<Rightarrow> nat" where
  "ref_total refs = length refs"

subsection \<open>The holder relation\<close>

datatype ref_op = Acquire string string | Release string string | Forget string

fun ref_step :: "ref_count \<Rightarrow> ref_op \<Rightarrow> ref_count" where
  "ref_step refs (Acquire h n) = acquire h n refs"
| "ref_step refs (Release h n) = fst (release h n refs)"
| "ref_step refs (Forget h) = forget h refs"

fun held_step :: "(string \<times> string) set \<Rightarrow> ref_op \<Rightarrow> (string \<times> string) set" where
  "held_step R (Acquire h n) = insert (h, n) R"
| "held_step R (Release h n) = R - {(h, n)}"
| "held_step R (Forget h) = {(h', n) \<in> R. h' \<noteq> h}"

definition represents :: "ref_count \<Rightarrow> (string \<times> string) set \<Rightarrow> bool" where
  "represents refs R \<longleftrightarrow> dict_ok refs \<and> (\<forall>h. holders h refs = {n. (h, n) \<in> R}) \<and> (\<forall>h. map_of refs h \<noteq> Some {})"

lemma represents_step:
  assumes "represents refs R"
  shows "represents (ref_step refs e) (held_step R e)"
proof -
  have none: "map_of refs h = None \<Longrightarrow> (h, n) \<notin> R" and some: "map_of refs h = Some hs \<Longrightarrow> hs = {n. (h, n) \<in> R}"
    and ok: "dict_ok refs" and ne: "map_of refs h \<noteq> Some {}" for h n hs
    using assms by (force simp: represents_def holders_def dict_get_def simp del: map_of_eq_Some_iff)+
  show ?thesis
    using ok ne by (cases e)
      (auto simp: represents_def acquire_def release_def forget_def holders_def dict_get_def dict_has_def
        dict_setdefault_def Let_def distinct_update distinct_delete simp del: map_of_eq_Some_iff
        split: option.splits if_splits dest: none some)
qed

lemma represents_run: "represents (foldl ref_step [] es) (foldl held_step {} es)"
proof -
  have "represents (foldl ref_step refs es) (foldl held_step R es)" if "represents refs R" for refs R
    using that by (induction es arbitrary: refs R) (auto intro: represents_step)
  from this [of "[]" "{}"] show ?thesis by (simp add: represents_def holders_def dict_get_def)
qed

section \<open>Tombstones\<close>

record tombstone =
  content_hash :: string
  until :: real
  tomb_nodes :: "string set"

type_synonym tombstone_table = "(string, tombstone) dict"

definition record_tombstone ::
  "string \<Rightarrow> real \<Rightarrow> string set option \<Rightarrow> tombstone_table \<Rightarrow> tombstone_table \<times> tombstone" where
  "record_tombstone h deadline ns ts =
     (let given = (case ns of None \<Rightarrow> {} | Some S \<Rightarrow> S);
          r = (case map_of ts h of
                 Some old \<Rightarrow> \<lparr>content_hash = h, until = max (until old) deadline, tomb_nodes = tomb_nodes old \<union> given\<rparr>
               | None \<Rightarrow> \<lparr>content_hash = h, until = deadline, tomb_nodes = given\<rparr>)
      in (dict_set ts h r, r))"

definition get_tombstone :: "real \<Rightarrow> string \<Rightarrow> tombstone_table \<Rightarrow> tombstone_table \<times> tombstone option" where
  "get_tombstone now h ts =
     (case map_of ts h of
        None \<Rightarrow> (ts, None)
      | Some r \<Rightarrow> if now \<ge> until r then (dict_del ts h, None) else (ts, Some r))"

definition tomb_is_active :: "real \<Rightarrow> string \<Rightarrow> tombstone_table \<Rightarrow> tombstone_table \<times> bool" where
  "tomb_is_active now h ts = (let (ts', r) = get_tombstone now h ts in (ts', r \<noteq> None))"

fun sweep_loop :: "real \<Rightarrow> (string \<times> tombstone) list \<Rightarrow> string list \<Rightarrow> tombstone_table \<Rightarrow> tombstone_table \<times> string list" where
  "sweep_loop now [] expired ts = (ts, expired)"
| "sweep_loop now ((h, r) # rest) expired ts =
     (if now \<ge> until r then sweep_loop now rest (expired @ [h]) (dict_del ts h)
      else sweep_loop now rest expired ts)"

definition sweep_tombstones :: "real \<Rightarrow> tombstone_table \<Rightarrow> tombstone_table \<times> string list" where
  "sweep_tombstones now ts = sweep_loop now ts [] ts"

definition tomb_total :: "tombstone_table \<Rightarrow> nat" where
  "tomb_total ts = length ts"

definition tomb_clear :: "tombstone_table \<Rightarrow> tombstone_table" where
  "tomb_clear ts = []"

lemma sweep_loop_map:
  "map_of (fst (sweep_loop now rest expired ts)) h =
     (if \<exists>r. (h, r) \<in> set rest \<and> until r \<le> now then None else map_of ts h)"
  by (induction now rest expired ts rule: sweep_loop.induct) auto

lemma sweep_loop_expired:
  "snd (sweep_loop now rest expired ts) = expired @ map fst (filter (\<lambda>(h, r). until r \<le> now) rest)"
  by (induction now rest expired ts rule: sweep_loop.induct) auto

lemma sweep_loop_ok: "dict_ok ts \<Longrightarrow> dict_ok (fst (sweep_loop now rest expired ts))"
  by (induction now rest expired ts rule: sweep_loop.induct) (simp_all add: distinct_delete)

lemma sweep_tombstones_map:
  assumes "dict_ok ts"
  shows "map_of (fst (sweep_tombstones now ts)) h =
    (case map_of ts h of None \<Rightarrow> None | Some r \<Rightarrow> if until r \<le> now then None else Some r)"
  using assms by (auto simp: sweep_tombstones_def sweep_loop_map split: option.splits)
    (use map_of_is_SomeI in fastforce)+

subsection \<open>Histories\<close>

datatype tomb_op =
    RecordOp string real "string set option" | GetOp real string | SweepTombOp real

fun tomb_step :: "tombstone_table \<Rightarrow> tomb_op \<Rightarrow> tombstone_table" where
  "tomb_step ts (RecordOp h u ns) = fst (record_tombstone h u ns ts)"
| "tomb_step ts (GetOp now h) = fst (get_tombstone now h ts)"
| "tomb_step ts (SweepTombOp now) = fst (sweep_tombstones now ts)"

fun reading :: "tomb_op \<Rightarrow> real option" where
  "reading (RecordOp h u ns) = None"
| "reading (GetOp now h) = Some now"
| "reading (SweepTombOp now) = Some now"

definition covers :: "string \<Rightarrow> real \<Rightarrow> string set \<Rightarrow> tombstone_table \<Rightarrow> bool" where
  "covers h u ns ts \<longleftrightarrow> (\<exists>r. map_of ts h = Some r \<and> u \<le> until r \<and> ns \<subseteq> tomb_nodes r)"

lemma tomb_step_ok: "dict_ok ts \<Longrightarrow> dict_ok (tomb_step ts e)"
  by (cases e) (auto simp: record_tombstone_def get_tombstone_def sweep_tombstones_def Let_def distinct_update
      distinct_delete sweep_loop_ok split: option.splits)

interpretation tombstone_history: stepping tomb_step dict_ok
  by unfold_locales (rule tomb_step_ok)

lemma tomb_step_covers:
  assumes "dict_ok ts" "covers h u ns ts" "\<forall>now. reading e = Some now \<longrightarrow> now < u"
  shows "covers h u ns (tomb_step ts e)"
  using assms by (cases e)
    (auto simp: covers_def record_tombstone_def get_tombstone_def sweep_tombstones_map Let_def
      simp del: map_of_eq_Some_iff split: option.splits)

lemma tomb_run_covers:
  "dict_ok ts \<Longrightarrow> covers h u ns ts \<Longrightarrow> \<forall>e\<in>set es. \<forall>now. reading e = Some now \<longrightarrow> now < u \<Longrightarrow>
   covers h u ns (foldl tomb_step ts es)"
  by (induction es arbitrary: ts) (simp_all add: tomb_step_ok tomb_step_covers)

section \<open>The sweeper\<close>

datatype sweep_event = OnEvictExpired "string list" | OnTombstonesExpired "string list" | OnPostSweep "string list"

record sweeper =
  interval_sec :: real
  on_evict_expired :: bool
  on_tombstones_expired :: bool
  on_post_sweep :: bool

definition Sweeper :: "real \<Rightarrow> sweeper result" where
  "Sweeper interval =
     (if interval \<le> 0 then Inl ValueError
      else Inr \<lparr>interval_sec = interval, on_evict_expired = False, on_tombstones_expired = False, on_post_sweep = False\<rparr>)"

text \<open>One pass; the eviction callback acts on a state of its own.\<close>

definition run_once ::
  "real \<Rightarrow> ('s \<Rightarrow> 's \<times> string list) option \<Rightarrow> 's \<Rightarrow> tombstone_table option \<Rightarrow> sweeper \<Rightarrow>
   's \<times> tombstone_table option \<times> sweep_event list" where
  "run_once now evict s tombs sw =
     (let (s1, evicted) = (case evict of None \<Rightarrow> (s, []) | Some f \<Rightarrow> f s);
          log1 = (if on_evict_expired sw \<and> evicted \<noteq> [] then [OnEvictExpired evicted] else []);
          (tombs1, expired) = (case tombs of
                                 None \<Rightarrow> (None, [])
                               | Some ts \<Rightarrow> (let (ts', gone) = sweep_tombstones now ts in (Some ts', gone)));
          log2 = (if on_tombstones_expired sw \<and> expired \<noteq> [] then [OnTombstonesExpired expired] else []);
          total = evicted @ expired;
          log3 = (if on_post_sweep sw \<and> total \<noteq> [] then [OnPostSweep (sorted_list_of_set (set total))] else [])
      in (s1, tombs1, log1 @ log2 @ log3))"

text \<open>After a pass no expired tombstone is left, and the observer saw every evicted or expired hash once.\<close>

lemma run_once_sweeps:
  assumes "dict_ok ts" "run_once now evict s (Some ts) sw = (s', Some ts', calls)"
  shows "\<forall>(h, r) \<in> set ts'. now < until r"
    "OnPostSweep hs \<in> set calls \<Longrightarrow> distinct hs \<and>
       set hs = set (case evict of None \<Rightarrow> [] | Some f \<Rightarrow> snd (f s)) \<union> {h. \<exists>r. (h, r) \<in> set ts \<and> until r \<le> now}"
proof -
  have ts': "ts' = fst (sweep_tombstones now ts)"
    using assms(2) by (auto simp: run_once_def Let_def split: prod.splits)
  have ok: "dict_ok ts'" unfolding ts' sweep_tombstones_def by (rule sweep_loop_ok [OF assms(1)])
  have "now < until r" if "(h, r) \<in> set ts'" for h r
  proof -
    have "map_of ts' h = Some r" using ok that by simp
    then show ?thesis unfolding ts' sweep_tombstones_map [OF assms(1)]
      by (cases "map_of ts h") (auto simp del: map_of_eq_Some_iff split: if_splits)
  qed
  then show "\<forall>(h, r) \<in> set ts'. now < until r" by blast
  let ?evicted = "case evict of None \<Rightarrow> [] | Some f \<Rightarrow> snd (f s)" and ?expired = "snd (sweep_tombstones now ts)"
  have hs: "hs = sorted_list_of_set (set (?evicted @ ?expired))" if "OnPostSweep hs \<in> set calls"
    using assms(2) that by (cases evict) (auto simp: run_once_def Let_def case_prod_beta split: if_splits)
  have "set ?expired = {h. \<exists>r. (h, r) \<in> set ts \<and> until r \<le> now}"
    using sweep_loop_expired [of now ts "[]" ts] by (force simp: sweep_tombstones_def)
  moreover have "distinct hs \<and> set hs = set ?evicted \<union> set ?expired" if "OnPostSweep hs \<in> set calls"
    unfolding hs [OF that] by (intro conjI distinct_sorted_list_of_set, subst set_sorted_list_of_set [OF finite_set], rule set_append)
  ultimately show "distinct hs \<and> set hs = set ?evicted \<union> {h. \<exists>r. (h, r) \<in> set ts \<and> until r \<le> now}"
    if "OnPostSweep hs \<in> set calls"
    using that by simp
qed

section \<open>Properties\<close>

text \<open>
  The reference counter implements a relation: after any sequence of acquire, release and forget
  the holders of a hash are exactly the nodes that acquired it and have not released it since, a
  hash is active exactly when it has a holder, and a release answers True exactly when it leaves
  the hash without holders.
\<close>

theorem refcount_is_relation:
  "let refs = foldl ref_step [] es; R = foldl held_step {} es in
     holders h refs = {n. (h, n) \<in> R} \<and> (ref_is_active h refs \<longleftrightarrow> (\<exists>n. (h, n) \<in> R)) \<and>
     (snd (release h n refs) \<longleftrightarrow> {m. (h, m) \<in> R} \<subseteq> {n})"
proof -
  have r: "represents (foldl ref_step [] es) (foldl held_step {} es)" by (rule represents_run)
  let ?refs = "foldl ref_step [] es" and ?R = "foldl held_step {} es"
  have H: "holders h ?refs = {n. (h, n) \<in> ?R}" and ne: "map_of ?refs h \<noteq> Some {}"
    using r by (auto simp: represents_def)
  have "snd (release h n ?refs) \<longleftrightarrow> holders h ?refs \<subseteq> {n}"
    by (auto simp: release_def holders_def dict_get_def split: option.splits)
  moreover have "ref_is_active h ?refs \<longleftrightarrow> holders h ?refs \<noteq> {}"
    using ne by (auto simp: ref_is_active_def holders_def dict_get_def dict_has_def split: option.splits)
  ultimately show ?thesis using H by (auto simp: Let_def)
qed

text \<open>
  C39. A tombstone stays in force until its deadline: whatever is recorded, read and swept after it,
  as long as the clock has not reached the deadline a lookup finds a tombstone for the hash with at
  least that deadline and with the nodes it named.
\<close>

theorem tombstone_until_deadline:
  assumes "\<forall>e\<in>set later. \<forall>t. reading e = Some t \<longrightarrow> t < u" and "now < u"
  shows "\<exists>r. snd (get_tombstone now h (foldl tomb_step [] (earlier @ RecordOp h u (Some ns) # later))) = Some r \<and>
    u \<le> until r \<and> ns \<subseteq> tomb_nodes r"
proof -
  let ?ts = "foldl tomb_step [] (earlier @ [RecordOp h u (Some ns)])"
  have ok: "dict_ok ?ts" by (rule tombstone_history.run_ok) simp
  have "covers h u ns ?ts"
    by (auto simp: covers_def record_tombstone_def Let_def split: option.splits)
  from tomb_run_covers [OF ok this assms(1)] show ?thesis
    using assms(2) by (auto simp: covers_def get_tombstone_def)
qed

theorem tombstone_until_deadline_witness:
  "\<exists>r. snd (get_tombstone 9 ''h'' (foldl tomb_step []
        [RecordOp ''h'' 5 None, RecordOp ''h'' 10 (Some {''a''}), SweepTombOp 7, RecordOp ''h'' 6 (Some {''b''})])) = Some r \<and>
     10 \<le> until r \<and> {''a''} \<subseteq> tomb_nodes r"
  using tombstone_until_deadline [of "[SweepTombOp 7, RecordOp ''h'' 6 (Some {''b''})]" 10 9 "''h''" "[RecordOp ''h'' 5 None]" "{''a''}"]
  by simp

end
