(* ===== verification/Ops.thy ===== *)
theory Ops
  imports Node_Props Gc
begin

text \<open>
  The request handlers of \<^verbatim>\<open>transport/ops.py\<close> and \<^verbatim>\<open>transport/ops_cluster.py\<close> over a node: storing with a consistency
  level, retrieving, replicating, blobs, deletion and verification. A handler takes the decoded
  request and returns the changed node with a status and a JSON body, or the exception it raises. The
  authenticated caller is its tenant and scopes, empty when authentication is off. The quorum fan-out
  of a strong write is an argument that acts on a state of its own (the peers); SHA-256 is a
  parameter, and the free text under \<open>detail\<close> is left out. The theorems say what an acknowledged, a refused and a replicated write leave behind.
\<close>

section \<open>Requests and responses\<close>

type_synonym response = "int \<times> (string \<times> json) list"

type_synonym caller = "(string \<times> string set) option"

definition err :: "int \<Rightarrow> string \<Rightarrow> response" where
  "err status message = (status, [(''error'', JStr message)])"

definition ok_response :: "(string \<times> json) list \<Rightarrow> response" where
  "ok_response body = (200, body)"

definition caller_tenant :: "caller \<Rightarrow> string" where
  "caller_tenant auth = (case auth of None \<Rightarrow> [] | Some (subject, _) \<Rightarrow> subject)"

definition caller_scopes :: "caller \<Rightarrow> string set" where
  "caller_scopes auth = (case auth of None \<Rightarrow> {} | Some (_, scs) \<Rightarrow> scs)"

text \<open>Every handler answers with a fixed response when the server has no node.\<close>

definition on_node ::
  "response \<Rightarrow> (node \<Rightarrow> node \<times> response result) \<Rightarrow> node option \<Rightarrow> node option \<times> response result" where
  "on_node absent f server =
     (case server of None \<Rightarrow> (None, Inr absent) | Some nd \<Rightarrow> (let (nd1, r) = f nd in (Some nd1, r)))"

section \<open>Reading\<close>

definition not_found :: response where
  "not_found = ok_response [(''found'', JBool False), (''fragment'', JNull)]"

definition retrieve_body :: "node_env \<Rightarrow> nat \<Rightarrow> string \<Rightarrow> caller \<Rightarrow> node \<Rightarrow> node \<times> response result" where
  "retrieve_body E t h auth nd =
     (case retrieve E t h (caller_tenant auth) (caller_scopes auth) nd of
        (nd1, Inl e) \<Rightarrow> (nd1, Inl e)
      | (nd1, Inr None) \<Rightarrow> (nd1, Inr not_found)
      | (nd1, Inr (Some f)) \<Rightarrow>
          if (case payload_ref f of
                None \<Rightarrow> False
              | Some r \<Rightarrow> r \<noteq> [] \<and> content_get (content_store nd1) r = None)
          then (nd1, Inr not_found)
          else (nd1, Inr (ok_response [(''found'', JBool True), (''fragment'', JObj (to_dict f))])))"

definition op_retrieve ::
  "node_env \<Rightarrow> nat \<Rightarrow> string \<Rightarrow> caller \<Rightarrow> node option \<Rightarrow> node option \<times> response result" where
  "op_retrieve E t h auth = on_node not_found (retrieve_body E t h auth)"

section \<open>Storing\<close>

record quorum_result =
  success :: bool
  ack_count :: int
  timed_out :: bool
  contacted :: nat

record cluster_config =
  default_consistency :: string
  quorum_count :: int
  cluster_quorum_timeout_sec :: real
  cfg_replica_count :: int

record 'p cluster_view =
  view_config :: cluster_config
  view_node_id :: string
  healthy_peers :: "string list"
  client_of :: "string \<Rightarrow> 'p option"

type_synonym ('p, 'w) quorum_attempt =
  "fragment \<Rightarrow> 'p list \<Rightarrow> int \<Rightarrow> real \<Rightarrow> bytes option \<Rightarrow> 'w \<Rightarrow> 'w \<times> quorum_result result"

text \<open>What a store changes: the node, the per-tenant operation counters and the peers.\<close>

record 'w site =
  local_node :: node
  operation_count :: "(string, int) dict option"
  remote :: 'w

definition bump_operation :: "string \<Rightarrow> int \<Rightarrow> (string, int) dict \<Rightarrow> (string, int) dict" where
  "bump_operation t delta counts = dict_set counts t (dict_get counts t 0 + delta)"

definition payload_present :: "node \<Rightarrow> string \<Rightarrow> bool" where
  "payload_present nd r = content_has (content_store nd) r"

definition rollback_local_write :: "node_env \<Rightarrow> string \<Rightarrow> bool \<Rightarrow> node \<Rightarrow> node" where
  "rollback_local_write E k existed_before nd = (if existed_before then nd else fst (remove_fragment E k nd))"

definition select_replica_peers :: "'p cluster_view \<Rightarrow> int \<Rightarrow> 'p list" where
  "select_replica_peers cl n =
     List.map_filter (client_of cl) (slice_to n (filter (\<lambda>p. p \<noteq> view_node_id cl) (healthy_peers cl)))"

text \<open>The fragment that is written: a strong write takes the cluster's weaker default.\<close>

definition effective_fragment :: "'p cluster_view option \<Rightarrow> fragment \<Rightarrow> fragment result" where
  "effective_fragment view f =
     (case view of
        None \<Rightarrow> Inr f
      | Some cl \<Rightarrow>
          if consistency f = ''strong'' \<and> default_consistency (view_config cl) \<in> {''quorum'', ''eventual''}
          then with_consistency f (default_consistency (view_config cl))
          else Inr f)"

definition stored :: "fragment \<Rightarrow> bool \<Rightarrow> response" where
  "stored f taken = ok_response [(''success'', JBool taken), (''content_hash'', JStr (payload_hash (identity f)))]"

definition quorum_error :: "string \<Rightarrow> (string \<times> json) list \<Rightarrow> int \<Rightarrow> int \<Rightarrow> response" where
  "quorum_error message detail acks required =
     (503, [(''error'', JStr message)] @ detail @
        [(''ack_count'', JInt acks), (''required'', JInt required), (''Retry-After'', JInt 1)])"

text \<open>The fan-out of a strong or quorum write, after the local write.\<close>

definition quorum_phase ::
  "node_env \<Rightarrow> 'p cluster_view \<Rightarrow> ('p, 'w) quorum_attempt \<Rightarrow> fragment \<Rightarrow> bool \<Rightarrow> 'w site \<Rightarrow> 'w site \<times> response" where
  "quorum_phase E cl attempt f existed_before site =
     (let required = quorum_count (view_config cl) - 1;
          rollback = (\<lambda>site. site\<lparr>local_node := rollback_local_write E (key f) existed_before (local_node site)\<rparr>)
      in if required \<le> 0 then (site, stored f True)
         else
           let peers = select_replica_peers cl (max required (cfg_replica_count (view_config cl)))
           in if int (length peers) < required
              then (rollback site,
                    quorum_error ''quorum not met'' [(''detail'', JStr ''not enough healthy peers'')] 0
                      (quorum_count (view_config cl)))
              else
                let blob = (case payload_ref f of
                              None \<Rightarrow> None | Some r \<Rightarrow> content_get (content_store (local_node site)) r)
                in (case attempt f peers required (cluster_quorum_timeout_sec (view_config cl)) blob (remote site) of
                      (w, Inl e) \<Rightarrow> (site\<lparr>remote := w\<rparr>, (503, [(''error'', JStr ''quorum_attempt failed'')]))
                    | (w, Inr q) \<Rightarrow>
                        if success q then (site\<lparr>remote := w\<rparr>, stored f True)
                        else (rollback (site\<lparr>remote := w\<rparr>),
                              quorum_error (if timed_out q then ''quorum timeout'' else ''quorum not met'') []
                                (ack_count q) (quorum_count (view_config cl)))))"

text \<open>Refusals before anything is written: absent payload bytes, or the store guard.\<close>

definition store_refusal :: "(fragment \<Rightarrow> int option) option \<Rightarrow> node \<Rightarrow> fragment \<Rightarrow> response option" where
  "store_refusal guard nd f =
     (if (case payload_ref f of None \<Rightarrow> False | Some r \<Rightarrow> \<not> payload_present nd r)
      then Some (422, [(''error'', JStr ''payload_ref not found in content store''),
                       (''payload_ref'', (case payload_ref f of None \<Rightarrow> JNull | Some r \<Rightarrow> JStr r)),
                       (''content_hash'', JStr (payload_hash (identity f)))])
      else case guard of
             None \<Rightarrow> None
           | Some g \<Rightarrow> (case g f of None \<Rightarrow> None | Some status \<Rightarrow> Some (err status ''store refused'')))"

text \<open>The body of \<open>op_store\<close> for the fragment that is written.\<close>

definition store_fragment ::
  "node_env \<Rightarrow> 'p cluster_view option \<Rightarrow> ('p, 'w) quorum_attempt option \<Rightarrow> caller \<Rightarrow>
   (fragment \<Rightarrow> int option) option \<Rightarrow> bool \<Rightarrow> fragment \<Rightarrow> 'w site \<Rightarrow> 'w site \<times> response result" where
  "store_fragment E view attempt auth guard is_primary f site =
     (case store_refusal guard (local_node site) f of
        Some resp \<Rightarrow> (site, Inr resp)
      | None \<Rightarrow>
          let existed_before = table_contains (frag_table (local_node site)) (key f)
          in (case store E f is_primary (caller_tenant auth) (caller_scopes auth) (local_node site) of
                (nd, Inl e) \<Rightarrow>
                  (site\<lparr>local_node := nd\<rparr>, if e = TenantScopeError then Inr (err 403 ''tenant scope'') else Inl e)
              | (nd, Inr False) \<Rightarrow> (site\<lparr>local_node := nd\<rparr>, Inr (stored f False))
              | (nd, Inr True) \<Rightarrow>
                  let site1 = site\<lparr>local_node := nd,
                                   operation_count := map_option (bump_operation (tenant_id f) 1) (operation_count site)\<rparr>
                  in if consistency f = ''eventual'' then (site1, Inr (stored f True))
                     else (case (attempt, view) of
                             (Some qa, Some cl) \<Rightarrow>
                               (let (site2, resp) = quorum_phase E cl qa f existed_before site1 in (site2, Inr resp))
                           | _ \<Rightarrow> (site1, Inr (stored f True)))))"

definition op_store ::
  "node_env \<Rightarrow> 'p cluster_view option \<Rightarrow> ('p, 'w) quorum_attempt option \<Rightarrow> bool \<Rightarrow> caller \<Rightarrow>
   (fragment \<Rightarrow> int option) option \<Rightarrow> (string \<times> json) list \<Rightarrow> bool \<Rightarrow> 'w site \<Rightarrow> 'w site \<times> response result" where
  "op_store E view attempt draining auth guard payload is_primary site =
     (if draining then (site, Inr (503, [(''error'', JStr ''node draining''), (''Retry-After'', JInt 1)]))
      else
        (case bind_result (from_dict (json_repr E) (parse_float E) payload) (effective_fragment view) of
           Inl e \<Rightarrow> (site, Inl e)
         | Inr f \<Rightarrow> store_fragment E view attempt auth guard is_primary f site))"

section \<open>Replication and blobs\<close>

definition no_node :: response where
  "no_node = ok_response [(''error'', JStr ''no node'')]"

definition replicate_body ::
  "node_env \<Rightarrow> (string \<times> json) list \<Rightarrow> caller \<Rightarrow> bool \<Rightarrow> node \<Rightarrow> node \<times> response result" where
  "replicate_body E payload auth is_primary nd =
     (case from_dict (json_repr E) (parse_float E) payload of
        Inl e \<Rightarrow> (nd, Inl e)
      | Inr f \<Rightarrow>
          if (case payload_ref f of None \<Rightarrow> False | Some r \<Rightarrow> \<not> content_has (content_store nd) r)
          then (nd, Inr (422, [(''error'', JStr ''payload missing''),
                               (''content_hash'', JStr (payload_hash (identity f)))]))
          else
            (case store E f is_primary (caller_tenant auth) (caller_scopes auth) nd of
               (nd1, Inl e) \<Rightarrow> (nd1, if e = TenantScopeError then Inr (err 403 ''tenant scope'') else Inl e)
             | (nd1, Inr taken) \<Rightarrow> (nd1, Inr (stored f taken))))"

definition op_replicate ::
  "node_env \<Rightarrow> (string \<times> json) list \<Rightarrow> caller \<Rightarrow> bool \<Rightarrow> node option \<Rightarrow> node option \<times> response result" where
  "op_replicate E payload auth is_primary = on_node no_node (replicate_body E payload auth is_primary)"

text \<open>The pattern \<open>[A-Za-z0-9._:-]{1,256}\<close>.\<close>

definition ref_char :: "char \<Rightarrow> bool" where
  "ref_char c = (let n = (of_char c :: nat)
     in (65 \<le> n \<and> n \<le> 90) \<or> (97 \<le> n \<and> n \<le> 122) \<or> (48 \<le> n \<and> n \<le> 57) \<or> c \<in> set ''._:-'')"

definition valid_payload_ref :: "string \<Rightarrow> bool" where
  "valid_payload_ref r =
     (1 \<le> length r \<and> length r \<le> 256 \<and> list_all ref_char r \<and> r \<notin> {''.'', ''..''})"

text \<open>\<open>str.lower\<close> on ASCII letters.\<close>

definition lower_char :: "char \<Rightarrow> char" where
  "lower_char c = (let n = (of_char c :: nat) in if 65 \<le> n \<and> n \<le> 90 then char_of (n + 32) else c)"

definition put_blob_body ::
  "(bytes \<Rightarrow> string) \<Rightarrow> string \<Rightarrow> bytes \<Rightarrow> string \<Rightarrow> node \<Rightarrow> node \<times> response result" where
  "put_blob_body sha r data claimed nd =
     (if \<not> valid_payload_ref r then (nd, Inr (err 400 ''invalid payload_ref''))
      else if map lower_char claimed \<noteq> sha data then (nd, Inr (err 400 ''digest mismatch''))
      else
        let existing = content_has (content_store nd) r;
            reply = (200, [(''stored'', JBool True), (''existing'', JBool existing), (''bytes'', JInt (int (length data)))])
        in if existing then (nd, Inr reply)
           else (case content_put r data (content_store nd) of
                   Inl e \<Rightarrow> (nd, Inl e)
                 | Inr cs \<Rightarrow> (nd\<lparr>content_store := cs\<rparr>, Inr reply)))"

definition op_put_blob ::
  "(bytes \<Rightarrow> string) \<Rightarrow> string \<Rightarrow> bytes \<Rightarrow> string \<Rightarrow> node option \<Rightarrow> node option \<times> response result" where
  "op_put_blob sha r data claimed = on_node (err 503 ''no node'') (put_blob_body sha r data claimed)"

definition op_get_blob :: "string \<Rightarrow> node option \<Rightarrow> int \<times> bytes option" where
  "op_get_blob r server =
     (case server of
        None \<Rightarrow> (400, None)
      | Some nd \<Rightarrow>
          if \<not> valid_payload_ref r then (400, None)
          else (case content_get (content_store nd) r of None \<Rightarrow> (404, None) | Some data \<Rightarrow> (200, Some data)))"

section \<open>Deletion and verification\<close>

definition delete_body ::
  "node_env \<Rightarrow> real \<Rightarrow> string \<Rightarrow> string \<Rightarrow> real option \<Rightarrow> node \<times> tombstone_table option \<Rightarrow>
   (node \<times> tombstone_table option) \<times> response result" where
  "delete_body E now h n deadline s =
     (let (nd, tombs) = s
      in if \<not> table_contains (frag_table nd) h
         then (s, Inr (ok_response [(''success'', JBool True), (''noop'', JBool True), (''content_hash'', JStr h)]))
         else
           let tombs1 = map_option (\<lambda>ts. fst (record_tombstone h
                 (case deadline of Some u \<Rightarrow> u | None \<Rightarrow> now + 60) (Some {n}) ts)) tombs
           in (case remove_fragment E h nd of
                 (nd1, Inl e) \<Rightarrow> ((nd1, tombs1), Inl e)
               | (nd1, Inr _) \<Rightarrow>
                   ((nd1, tombs1), Inr (ok_response [(''success'', JBool True), (''content_hash'', JStr h)]))))"

definition op_delete ::
  "node_env \<Rightarrow> real \<Rightarrow> string \<Rightarrow> string \<Rightarrow> real option \<Rightarrow> node option \<times> tombstone_table option \<Rightarrow>
   (node option \<times> tombstone_table option) \<times> response result" where
  "op_delete E now h n deadline s =
     (case fst s of
        None \<Rightarrow> (s, Inr no_node)
      | Some nd \<Rightarrow> (let ((nd1, tombs), r) = delete_body E now h n deadline (nd, snd s) in ((Some nd1, tombs), r)))"

definition op_tombstone ::
  "string \<Rightarrow> real \<Rightarrow> string \<Rightarrow> tombstone_table option \<Rightarrow> tombstone_table option \<times> response" where
  "op_tombstone h deadline n tombs =
     (case tombs of
        None \<Rightarrow> (None, ok_response [(''error'', JStr ''no tombstone table configured'')])
      | Some ts \<Rightarrow>
          (Some (fst (record_tombstone h deadline (Some {n}) ts)),
           ok_response [(''success'', JBool True), (''content_hash'', JStr h)]))"

definition op_purge ::
  "node_env \<Rightarrow> real \<Rightarrow> string \<Rightarrow> node option \<times> tombstone_table option \<Rightarrow>
   (node option \<times> tombstone_table option) \<times> response result" where
  "op_purge E now h s =
     (case fst s of
        None \<Rightarrow> (s, Inr no_node)
      | Some nd \<Rightarrow>
          let tombs = map_option (\<lambda>ts. fst (sweep_tombstones now ts)) (snd s);
              removed = table_contains (frag_table nd) h;
              reply = ok_response [(''success'', JBool removed), (''content_hash'', JStr h)]
          in if \<not> removed then ((Some nd, tombs), Inr reply)
             else (case remove_fragment E h nd of
                     (nd1, Inl e) \<Rightarrow> ((Some nd1, tombs), Inl e)
                   | (nd1, Inr _) \<Rightarrow> ((Some nd1, tombs), Inr reply)))"

definition op_verify_received ::
  "(bytes \<Rightarrow> string) \<Rightarrow> string \<Rightarrow> int \<Rightarrow> string \<Rightarrow> node option \<Rightarrow> response" where
  "op_verify_received sha h claimed_size claimed server =
     (case server of
        None \<Rightarrow> no_node
      | Some nd \<Rightarrow>
          (case map_of (fragments (frag_table nd)) h of
             None \<Rightarrow> ok_response [(''success'', JBool False), (''reason'', JStr ''fragment missing''), (''content_hash'', JStr h)]
           | Some f \<Rightarrow>
               if payload_size f \<noteq> claimed_size
               then ok_response [(''success'', JBool False), (''reason'', JStr ''size mismatch''), (''content_hash'', JStr h),
                                 (''claimed'', JInt claimed_size), (''actual'', JInt (payload_size f))]
               else
                 (case (case payload_ref f of None \<Rightarrow> None | Some r \<Rightarrow> content_get (content_store nd) r) of
                    Some actual \<Rightarrow>
                      ok_response [(''success'', JBool True), (''content_hash'', JStr h), (''size'', JInt (payload_size f)),
                                   (''sha256'', JStr (sha actual)), (''claimed_sha256'', JStr claimed),
                                   (''bytes_match'', JBool (sha actual = claimed))]
                  | None \<Rightarrow>
                      ok_response [(''success'', JBool True), (''content_hash'', JStr h), (''size'', JInt (payload_size f)),
                                   (''claimed_sha256'', JStr claimed)])))"

end
