(* ===== verification/Membership.thy ===== *)
theory Membership
  imports Shard Registry Resilience
begin

text \<open>
  Cluster membership: the peer table of \<^verbatim>\<open>network/membership.py\<close> with its HTTP clients, the ring and shard
  map it keeps in step, and the routing directory; one round of the heartbeat loop of
  \<^verbatim>\<open>network/heartbeat.py\<close> and of the failure loop of \<^verbatim>\<open>network/failure.py\<close>, with the two detectors of
  \<^verbatim>\<open>network/strategy.py\<close>. The cluster hands the membership the ring of its shard map, so there is one
  ring, inside the shard. Listeners are a log of their calls. The URL scheme of the default credentials
  and the clock readings are arguments.
\<close>

section \<open>Peers and clients\<close>

record peer_info =
  pi_node_id :: string
  pi_host :: string
  pi_port :: int
  last_heartbeat :: real
  pi_healthy :: bool
  suspect :: bool
  missed_heartbeats :: int
  cluster_epoch :: int
  peer_cn :: string
  lease_until :: real
  latency_ms :: real
  memory_pressure :: real
  gpu_load :: real
  pi_region :: string
  pi_role :: string

definition PeerInfo :: "string \<Rightarrow> string \<Rightarrow> int \<Rightarrow> real \<Rightarrow> string \<Rightarrow> peer_info" where
  "PeerInfo n host port now cn =
     \<lparr>pi_node_id = n, pi_host = host, pi_port = port, last_heartbeat = now, pi_healthy = True, suspect = False,
      missed_heartbeats = 0, cluster_epoch = 0, peer_cn = cn, lease_until = 0, latency_ms = 0,
      memory_pressure = 0, gpu_load = 0, pi_region = [], pi_role = []\<rparr>"

record telemetry =
  tel_node_id :: string
  tel_latency_ms :: real
  bandwidth_cost :: real
  tel_gpu_load :: real
  tel_memory_pressure :: real

definition peer_telemetry :: "peer_info \<Rightarrow> telemetry" where
  "peer_telemetry p =
     \<lparr>tel_node_id = pi_node_id p, tel_latency_ms = latency_ms p, bandwidth_cost = 0,
      tel_gpu_load = gpu_load p, tel_memory_pressure = memory_pressure p\<rparr>"

definition peer_to_json :: "peer_info \<Rightarrow> (string \<times> json) list" where
  "peer_to_json p =
     [(''node_id'', JStr (pi_node_id p)), (''host'', JStr (pi_host p)), (''port'', JInt (pi_port p)),
      (''healthy'', JBool (pi_healthy p)), (''suspect'', JBool (suspect p)),
      (''missed_heartbeats'', JInt (missed_heartbeats p)), (''cluster_epoch'', JInt (cluster_epoch p)),
      (''peer_cn'', JStr (peer_cn p)), (''lease_until'', JFloat (lease_until p)),
      (''latency_ms'', JFloat (latency_ms p)), (''memory_pressure'', JFloat (memory_pressure p)),
      (''gpu_load'', JFloat (gpu_load p)), (''region'', JStr (pi_region p)), (''role'', JStr (pi_role p))]"

definition peer_url :: "string \<Rightarrow> string \<Rightarrow> string" where
  "peer_url scheme host_port = (if substring ''://'' host_port then host_port else scheme @ ''://'' @ host_port)"

definition host_port :: "string \<Rightarrow> int \<Rightarrow> string" where
  "host_port host port = host @ '':'' @ str_int port"

text \<open>A client: the base URL it was made for and its retry and breaker state.\<close>

record peer_client =
  base_url :: string
  link :: peer

definition new_client :: "string \<Rightarrow> string \<Rightarrow> int \<Rightarrow> peer_client" where
  "new_client scheme host port =
     \<lparr>base_url = rev (dropWhile (\<lambda>c. c = CHR ''/'') (rev (peer_url scheme (host_port host port)))),
      link = Peer 3 1 \<lparr>failure_threshold = 5, cool_down = 30\<rparr>\<rparr>"

section \<open>The membership table\<close>

record membership =
  mem_node_id :: string
  mem_shard :: shard
  directory :: registry
  mem_peers :: "(string, peer_info) dict"
  mem_clients :: "(string, peer_client) dict"
  mem_events :: "(string \<times> string) list"

definition Membership :: "(string \<Rightarrow> string) \<Rightarrow> string \<Rightarrow> shard \<Rightarrow> registry \<Rightarrow> membership" where
  "Membership md5 n s d =
     \<lparr>mem_node_id = n, mem_shard = s\<lparr>hash_ring := ring_add_node md5 n (hash_ring s)\<rparr>, directory = d,
      mem_peers = [], mem_clients = [], mem_events = []\<rparr>"

definition mem_notify :: "string \<Rightarrow> string \<Rightarrow> membership \<Rightarrow> membership" where
  "mem_notify change n m = m\<lparr>mem_events := mem_events m @ [(change, n)]\<rparr>"

definition mem_add ::
  "string \<Rightarrow> (string \<Rightarrow> string) \<Rightarrow> real \<Rightarrow> string \<Rightarrow> string \<Rightarrow> int \<Rightarrow> string \<Rightarrow> membership \<Rightarrow> membership \<times> unit result" where
  "mem_add scheme md5 now n host port cn m =
     (if n = mem_node_id m then (m, Inr ())
      else case map_of (mem_peers m) n of
        Some p \<Rightarrow> (m\<lparr>mem_peers := dict_set (mem_peers m) n (p\<lparr>pi_host := host, pi_port := port, peer_cn := cn\<rparr>)\<rparr>, Inr ())
      | None \<Rightarrow>
          let m1 = m\<lparr>mem_peers := dict_set (mem_peers m) n (PeerInfo n host port now cn),
                     mem_clients := dict_set (mem_clients m) n (new_client scheme host port)\<rparr>;
              s = (mem_shard m)\<lparr>hash_ring := ring_add_node md5 n (hash_ring (mem_shard m))\<rparr>
          in (case shard_add_node md5 n s of
                (s1, Inl e) \<Rightarrow> (m1\<lparr>mem_shard := s1\<rparr>, Inl e)
              | (s1, Inr _) \<Rightarrow> (mem_notify ''joined'' n (m1\<lparr>mem_shard := s1\<rparr>), Inr ())))"

definition mem_remove :: "(string \<Rightarrow> string) \<Rightarrow> string \<Rightarrow> membership \<Rightarrow> membership \<times> bool result" where
  "mem_remove md5 n m =
     (if \<not> dict_has (mem_peers m) n then (m, Inr False)
      else
        let m1 = m\<lparr>mem_peers := dict_del (mem_peers m) n, mem_clients := dict_del (mem_clients m) n\<rparr>;
            s = (mem_shard m)\<lparr>hash_ring := ring_remove_node md5 n (hash_ring (mem_shard m))\<rparr>
        in (case shard_remove_node md5 n s of
              (s1, Inl e) \<Rightarrow> (m1\<lparr>mem_shard := s1\<rparr>, Inl e)
            | (s1, Inr _) \<Rightarrow>
                (mem_notify ''left'' n (m1\<lparr>mem_shard := s1, directory := fst (unregister_node n (directory m1))\<rparr>), Inr True)))"

definition get_client :: "string \<Rightarrow> membership \<Rightarrow> peer_client option" where
  "get_client n m = map_of (mem_clients m) n"

definition get_url :: "string \<Rightarrow> string \<Rightarrow> membership \<Rightarrow> string option" where
  "get_url scheme n m =
     map_option (\<lambda>p. peer_url scheme (host_port (pi_host p) (pi_port p))) (map_of (mem_peers m) n)"

definition healthy :: "membership \<Rightarrow> peer_info list" where
  "healthy m = filter pi_healthy (map snd (mem_peers m))"

definition mem_telemetry :: "membership \<Rightarrow> (string, telemetry) dict" where
  "mem_telemetry m = foldl (\<lambda>d p. dict_set d (pi_node_id p) (peer_telemetry p)) [] (healthy m)"

definition mem_to_json :: "membership \<Rightarrow> (string \<times> json) list list" where
  "mem_to_json m = map (\<lambda>(_, p). peer_to_json p) (mem_peers m)"

section \<open>Heartbeats, misses and suspicion\<close>

text \<open>Python's truth value of a JSON value.\<close>

fun truthy :: "json \<Rightarrow> bool" where
  "truthy JNull = False"
| "truthy (JBool b) = b"
| "truthy (JInt n) = (n \<noteq> 0)"
| "truthy (JFloat x) = (x \<noteq> 0)"
| "truthy (JStr s) = (s \<noteq> [])"
| "truthy (JList vs) = (vs \<noteq> [])"
| "truthy (JObj d) = (d \<noteq> [])"

definition or_value :: "json \<Rightarrow> json \<Rightarrow> json" where
  "or_value v w = (if truthy v then v else w)"

definition unit_interval :: "real \<Rightarrow> real" where
  "unit_interval x = min 1 (max 0 x)"

definition report_region :: "(json \<Rightarrow> string) \<Rightarrow> (string \<times> json) list \<Rightarrow> string result" where
  "report_region repr d =
     (if truthy (dict_get d ''region'' JNull) then Inr (to_str repr (dict_get d ''region'' JNull))
      else case or_value (dict_get d ''attributes'' JNull) (JObj []) of
        JObj a \<Rightarrow> Inr (to_str repr (or_value (dict_get a ''region'' (JStr [])) (JStr [])))
      | _ \<Rightarrow> Inl AttributeError)"

definition absorb_report ::
  "(string \<Rightarrow> real option) \<Rightarrow> (json \<Rightarrow> string) \<Rightarrow> (string \<times> json) list \<Rightarrow> peer_info \<Rightarrow> peer_info \<times> unit result" where
  "absorb_report pf repr d p =
     (case to_float pf (or_value (dict_get d ''load'' (JFloat 0)) (JFloat 0)) of
        Inl e \<Rightarrow> (p, Inl e)
      | Inr x \<Rightarrow>
          let p1 = p\<lparr>memory_pressure := unit_interval x\<rparr> in
          (case to_float pf (or_value (dict_get d ''gpu_load'' (JFloat 0)) (JFloat 0)) of
             Inl e \<Rightarrow> (p1, Inl e)
           | Inr y \<Rightarrow>
               let p2 = p1\<lparr>gpu_load := unit_interval y\<rparr> in
               (case report_region repr d of
                  Inl e \<Rightarrow> (p2, Inl e)
                | Inr r \<Rightarrow>
                    (p2\<lparr>pi_region := r, pi_role := to_str repr (or_value (dict_get d ''role'' (JStr [])) (JStr []))\<rparr>,
                     Inr ()))))"

definition record_heartbeat ::
  "(string \<Rightarrow> real option) \<Rightarrow> (json \<Rightarrow> string) \<Rightarrow> real \<Rightarrow> string \<Rightarrow> real \<Rightarrow> (string \<times> json) list option \<Rightarrow> real option \<Rightarrow>
   membership \<Rightarrow> membership \<times> unit result" where
  "record_heartbeat pf repr now n lease report round_trip m =
     (case map_of (mem_peers m) n of
        None \<Rightarrow> (m, Inr ())
      | Some p \<Rightarrow>
          let p1 = p\<lparr>last_heartbeat := now, missed_heartbeats := 0, suspect := False, pi_healthy := True,
                     lease_until := (if lease > 0 then lease else lease_until p),
                     latency_ms := (case round_trip of
                        None \<Rightarrow> latency_ms p
                      | Some ms \<Rightarrow> if latency_ms p = 0 then ms else 8 / 10 * latency_ms p + 2 / 10 * ms)\<rparr>;
              (p2, r) = (case report of
                 None \<Rightarrow> (p1, Inr ())
               | Some d \<Rightarrow> if d = [] then (p1, Inr ()) else absorb_report pf repr d p1)
          in (m\<lparr>mem_peers := dict_set (mem_peers m) n p2\<rparr>, r))"

definition record_peer_cn :: "real \<Rightarrow> string \<Rightarrow> string \<Rightarrow> membership \<Rightarrow> membership" where
  "record_peer_cn now n cn m =
     (case map_of (mem_peers m) n of
        None \<Rightarrow> m
      | Some p \<Rightarrow> m\<lparr>mem_peers := dict_set (mem_peers m) n
          (p\<lparr>peer_cn := cn, last_heartbeat := now, missed_heartbeats := 0, suspect := False, pi_healthy := True\<rparr>)\<rparr>)"

definition record_miss :: "string \<Rightarrow> membership \<Rightarrow> membership" where
  "record_miss n m =
     (case map_of (mem_peers m) n of
        None \<Rightarrow> m
      | Some p \<Rightarrow> m\<lparr>mem_peers := dict_set (mem_peers m) n (p\<lparr>missed_heartbeats := missed_heartbeats p + 1\<rparr>)\<rparr>)"

definition mark_suspect :: "string \<Rightarrow> membership \<Rightarrow> membership \<times> bool" where
  "mark_suspect n m =
     (case map_of (mem_peers m) n of
        None \<Rightarrow> (m, False)
      | Some p \<Rightarrow>
          if suspect p then (m, False)
          else (m\<lparr>mem_peers := dict_set (mem_peers m) n (p\<lparr>suspect := True\<rparr>)\<rparr>, True))"

definition lease_check :: "real \<Rightarrow> membership \<times> string list \<Rightarrow> string \<Rightarrow> membership \<times> string list" where
  "lease_check now s n =
     (let (m, flagged) = s
      in case map_of (mem_peers m) n of
           None \<Rightarrow> s
         | Some p \<Rightarrow>
             if lease_until p > 0 \<and> pi_healthy p \<and> now > lease_until p
             then (let (m1, b) = mark_suspect n m in (m1, if b then flagged @ [n] else flagged))
             else s)"

definition evict_expired_leases :: "real \<Rightarrow> membership \<Rightarrow> membership \<times> string list" where
  "evict_expired_leases now m = foldl (lease_check now) (m, []) (map fst (mem_peers m))"

text \<open>\<open>delivered\<close> is what the call of a peer's client answered or raised.\<close>

definition leave_cluster :: "(string \<Rightarrow> bool result) \<Rightarrow> membership \<Rightarrow> nat" where
  "leave_cluster delivered m =
     length (filter (\<lambda>n. get_client n m \<noteq> None \<and> delivered n = Inr True) (map (pi_node_id \<circ> snd) (mem_peers m)))"

fun add_all ::
  "string \<Rightarrow> (string \<Rightarrow> string) \<Rightarrow> real \<Rightarrow> (string \<times> string \<times> int) list \<Rightarrow> membership \<Rightarrow> membership \<times> unit result" where
  "add_all scheme md5 now [] m = (m, Inr ())"
| "add_all scheme md5 now ((n, host, port) # ps) m =
     (case mem_add scheme md5 now n host port [] m of
        (m1, Inl e) \<Rightarrow> (m1, Inl e) | (m1, Inr _) \<Rightarrow> add_all scheme md5 now ps m1)"

text \<open>\<open>joined\<close> gives the peers a seed lists when it accepts; \<open>None\<close> when it fails or refuses.\<close>

fun join_seeds ::
  "string \<Rightarrow> (string \<Rightarrow> string) \<Rightarrow> real \<Rightarrow> (string \<Rightarrow> (string \<times> string \<times> int) list option) \<Rightarrow> string \<Rightarrow> string list \<Rightarrow>
   membership \<Rightarrow> membership \<times> bool result" where
  "join_seeds scheme md5 now joined local_id [] m = (m, Inr False)"
| "join_seeds scheme md5 now joined local_id (seed # seeds) m =
     (case joined seed of
        None \<Rightarrow> join_seeds scheme md5 now joined local_id seeds m
      | Some ps \<Rightarrow>
          let others = filter (\<lambda>(n, _). n \<noteq> local_id) ps
          in (case add_all scheme md5 now others m of
                (m1, Inl e) \<Rightarrow> (m1, Inl e)
              | (m1, Inr _) \<Rightarrow>
                  if others = [] then join_seeds scheme md5 now joined local_id seeds m1 else (m1, Inr True)))"

section \<open>Snapshots\<close>

fun remove_all :: "(string \<Rightarrow> string) \<Rightarrow> string list \<Rightarrow> membership \<Rightarrow> membership \<times> unit result" where
  "remove_all md5 [] m = (m, Inr ())"
| "remove_all md5 (n # ns) m =
     (case mem_remove md5 n m of (m1, Inl e) \<Rightarrow> (m1, Inl e) | (m1, Inr _) \<Rightarrow> remove_all md5 ns m1)"

definition str_item :: "(string \<times> json) list \<Rightarrow> string \<Rightarrow> string result" where
  "str_item d k = bind_result (item d k) (\<lambda>v. case v of JStr s \<Rightarrow> Inr s | _ \<Rightarrow> Inl UntypedValue)"

definition restore_fields ::
  "(string \<Rightarrow> real option) \<Rightarrow> (string \<times> json) list \<Rightarrow> peer_info \<Rightarrow> peer_info \<times> unit result" where
  "restore_fields pf d p =
     (case to_int (dict_get d ''cluster_epoch'' (JInt 0)) of
        Inl e \<Rightarrow> (p, Inl e)
      | Inr epoch \<Rightarrow>
          let p1 = p\<lparr>cluster_epoch := epoch, pi_healthy := truthy (dict_get d ''healthy'' (JBool True)),
                     suspect := truthy (dict_get d ''suspect'' (JBool False))\<rparr> in
          (case to_int (dict_get d ''missed_heartbeats'' (JInt 0)) of
             Inl e \<Rightarrow> (p1, Inl e)
           | Inr missed \<Rightarrow>
               let p2 = p1\<lparr>missed_heartbeats := missed\<rparr> in
               (case to_float pf (dict_get d ''lease_until'' (JFloat 0)) of
                  Inl e \<Rightarrow> (p2, Inl e)
                | Inr lease \<Rightarrow> (p2\<lparr>lease_until := lease\<rparr>, Inr ()))))"

definition load_entry ::
  "string \<Rightarrow> (string \<Rightarrow> string) \<Rightarrow> (string \<Rightarrow> real option) \<Rightarrow> (json \<Rightarrow> string) \<Rightarrow> real \<Rightarrow> (string \<times> json) list \<Rightarrow> membership \<Rightarrow>
   membership \<times> unit result" where
  "load_entry scheme md5 pf repr now d m =
     (case bind_result (str_item d ''node_id'') (\<lambda>n. bind_result (str_item d ''host'') (\<lambda>host.
             bind_result (bind_result (item d ''port'') to_int) (\<lambda>port. Inr (n, host, port)))) of
        Inl e \<Rightarrow> (m, Inl e)
      | Inr (n, host, port) \<Rightarrow>
          (case mem_add scheme md5 now n host port (to_str repr (dict_get d ''peer_cn'' (JStr []))) m of
             (m1, Inl e) \<Rightarrow> (m1, Inl e)
           | (m1, Inr _) \<Rightarrow>
               (case map_of (mem_peers m1) n of
                  None \<Rightarrow> (m1, Inl KeyError)
                | Some p \<Rightarrow>
                    (let (p1, r) = restore_fields pf d p
                     in (m1\<lparr>mem_peers := dict_set (mem_peers m1) n p1\<rparr>, r)))))"

fun load_entries ::
  "string \<Rightarrow> (string \<Rightarrow> string) \<Rightarrow> (string \<Rightarrow> real option) \<Rightarrow> (json \<Rightarrow> string) \<Rightarrow> real \<Rightarrow> (string \<times> json) list list \<Rightarrow>
   membership \<Rightarrow> membership \<times> unit result" where
  "load_entries scheme md5 pf repr now [] m = (m, Inr ())"
| "load_entries scheme md5 pf repr now (d # ds) m =
     (case load_entry scheme md5 pf repr now d m of
        (m1, Inl e) \<Rightarrow> (m1, Inl e) | (m1, Inr _) \<Rightarrow> load_entries scheme md5 pf repr now ds m1)"

definition load_membership ::
  "string \<Rightarrow> (string \<Rightarrow> string) \<Rightarrow> (string \<Rightarrow> real option) \<Rightarrow> (json \<Rightarrow> string) \<Rightarrow> real \<Rightarrow> (string \<times> json) list list \<Rightarrow>
   membership \<Rightarrow> membership \<times> unit result" where
  "load_membership scheme md5 pf repr now payload m =
     (case remove_all md5 (map fst (mem_peers m)) m of
        (m1, Inl e) \<Rightarrow> (m1, Inl e) | (m1, Inr _) \<Rightarrow> load_entries scheme md5 pf repr now payload m1)"

section \<open>The heartbeat loop\<close>

text \<open>
  What a heartbeat meets: the clock when the breaker is asked, the attempts, the clock at a failure,
  the wall clock when the answer is recorded, and the round trip.
\<close>

record beat =
  asked :: real
  sent :: "nat \<Rightarrow> json attempt"
  failed_at :: real
  seen :: real
  round_trip_ms :: real

definition heartbeat_one ::
  "(string \<Rightarrow> real option) \<Rightarrow> (json \<Rightarrow> string) \<Rightarrow> real \<Rightarrow> (string \<Rightarrow> beat) \<Rightarrow> membership \<Rightarrow> string \<Rightarrow> membership" where
  "heartbeat_one pf repr deadline beats m n =
     (case get_client n m of
        None \<Rightarrow> m
      | Some c \<Rightarrow>
          let b = beats n;
              (P, _, r) = request_with_retry None (asked b) (sent b) (failed_at b) (link c);
              m1 = m\<lparr>mem_clients := dict_set (mem_clients m) n (c\<lparr>link := P\<rparr>)\<rparr>
          in (case r of
                Inl _ \<Rightarrow> record_miss n m1
              | Inr None \<Rightarrow> m1
              | Inr (Some resp) \<Rightarrow>
                  if truthy resp
                  then (case record_heartbeat pf repr (seen b) n deadline
                                (case resp of JObj d \<Rightarrow> Some d | _ \<Rightarrow> None) (Some (round_trip_ms b)) m1 of
                          (m2, Inl _) \<Rightarrow> record_miss n m2
                        | (m2, Inr _) \<Rightarrow> m2)
                  else m1))"

definition heartbeat_round ::
  "(string \<Rightarrow> real option) \<Rightarrow> (json \<Rightarrow> string) \<Rightarrow> real \<Rightarrow> real \<Rightarrow> (string \<Rightarrow> beat) \<Rightarrow> membership \<Rightarrow> membership" where
  "heartbeat_round pf repr lease_timeout now beats m =
     fst (evict_expired_leases now
       (foldl (heartbeat_one pf repr (now + lease_timeout) beats) m (map (pi_node_id \<circ> snd) (mem_peers m))))"

section \<open>Failure detection\<close>

datatype detector = ThresholdDetector int | QuorumDetector int

fun should_remove :: "detector \<Rightarrow> int \<Rightarrow> int \<Rightarrow> int \<Rightarrow> bool" where
  "should_remove (ThresholdDetector threshold) missed votes healthy_count = (missed \<ge> threshold)"
| "should_remove (QuorumDetector threshold) missed votes healthy_count =
     (if healthy_count \<le> 1 then missed \<ge> threshold
      else votes \<ge> healthy_count div 2 + 1 \<and> missed \<ge> threshold)"

record failure_config =
  failure_suspect_threshold :: int
  failure_remove_threshold :: int

definition failure_check ::
  "failure_config \<Rightarrow> detector \<Rightarrow> membership \<times> string list \<Rightarrow> string \<Rightarrow> membership \<times> string list" where
  "failure_check cfg det s n =
     (let (m, to_remove) = s
      in case map_of (mem_peers m) n of
           None \<Rightarrow> s
         | Some p \<Rightarrow>
             if missed_heartbeats p \<ge> failure_remove_threshold cfg
             then (m, if should_remove det (missed_heartbeats p) 0 (int (length (healthy m)) + 1)
                      then to_remove @ [n] else to_remove)
             else if missed_heartbeats p \<ge> failure_suspect_threshold cfg then (fst (mark_suspect n m), to_remove)
             else s)"

definition failure_round ::
  "(string \<Rightarrow> string) \<Rightarrow> failure_config \<Rightarrow> detector \<Rightarrow> membership \<Rightarrow> membership \<times> unit result" where
  "failure_round md5 cfg det m =
     (let (m1, to_remove) = foldl (failure_check cfg det) (m, []) (map (pi_node_id \<circ> snd) (mem_peers m))
      in remove_all md5 to_remove m1)"

section \<open>Histories and the invariant\<close>

datatype mem_op =
    MemJoin real string string int string | MemLeave string | MemAssign string | MemLocate string string
  | MemBeat real real "string \<Rightarrow> beat" | MemDetect failure_config detector

fun mem_step ::
  "string \<Rightarrow> (string \<Rightarrow> string) \<Rightarrow> (string \<Rightarrow> real option) \<Rightarrow> (json \<Rightarrow> string) \<Rightarrow> membership \<Rightarrow> mem_op \<Rightarrow> membership" where
  "mem_step scheme md5 pf repr m (MemJoin now n host port cn) = fst (mem_add scheme md5 now n host port cn m)"
| "mem_step scheme md5 pf repr m (MemLeave n) = fst (mem_remove md5 n m)"
| "mem_step scheme md5 pf repr m (MemAssign h) = m\<lparr>mem_shard := fst (assign_shard md5 h (mem_shard m))\<rparr>"
| "mem_step scheme md5 pf repr m (MemLocate h n) = m\<lparr>directory := fst (record_fragment_location h n (directory m))\<rparr>"
| "mem_step scheme md5 pf repr m (MemBeat lease now beats) = heartbeat_round pf repr lease now beats m"
| "mem_step scheme md5 pf repr m (MemDetect cfg det) = fst (failure_round md5 cfg det m)"

definition labelled :: "membership \<Rightarrow> bool" where
  "labelled m \<longleftrightarrow> (\<forall>n p. map_of (mem_peers m) n = Some p \<longrightarrow> pi_node_id p = n)"

text \<open>Changes that leave the members, the shard map and the directory alone.\<close>

definition table_only :: "membership \<Rightarrow> membership \<Rightarrow> bool" where
  "table_only m m' \<longleftrightarrow> mem_node_id m' = mem_node_id m \<and> mem_shard m' = mem_shard m \<and> directory m' = directory m \<and>
     dom (map_of (mem_peers m')) = dom (map_of (mem_peers m)) \<and>
     dom (map_of (mem_clients m')) = dom (map_of (mem_clients m)) \<and>
     (dict_ok (mem_peers m) \<longrightarrow> dict_ok (mem_peers m')) \<and> (labelled m \<longrightarrow> labelled m')"

lemma table_only_refl [simp]: "table_only m m"
  by (simp add: table_only_def)

lemma table_only_trans: "table_only m m' \<Longrightarrow> table_only m' m'' \<Longrightarrow> table_only m m''"
  by (simp add: table_only_def)

lemma table_only_peer:
  assumes "map_of (mem_peers m) n = Some p" and "pi_node_id p' = pi_node_id p"
  shows "table_only m (m\<lparr>mem_peers := dict_set (mem_peers m) n p'\<rparr>)"
  using assms by (auto simp: table_only_def labelled_def dom_def)

lemma table_only_client:
  assumes "map_of (mem_clients m) n = Some c"
  shows "table_only m (m\<lparr>mem_clients := dict_set (mem_clients m) n c'\<rparr>)"
  using assms by (auto simp: table_only_def labelled_def dom_def)

lemma absorb_report_id: "pi_node_id (fst (absorb_report pf repr d p)) = pi_node_id p"
  by (simp add: absorb_report_def Let_def split: sum.split)

lemma table_only_record_miss: "table_only m (record_miss n m)"
  by (cases "map_of (mem_peers m) n") (simp_all add: record_miss_def table_only_peer)

lemma table_only_mark_suspect: "table_only m (fst (mark_suspect n m))"
  by (cases "map_of (mem_peers m) n") (simp_all add: mark_suspect_def table_only_peer)

lemma table_only_record_heartbeat: "table_only m (fst (record_heartbeat pf repr now n lease report rt m))"
proof (cases "map_of (mem_peers m) n")
  case (Some p)
  show ?thesis
    unfolding record_heartbeat_def Some option.case Let_def
    by (cases report) (simp_all add: case_prod_unfold table_only_peer [OF Some] absorb_report_id)
qed (simp add: record_heartbeat_def)

lemma table_only_heartbeat_one: "table_only m (heartbeat_one pf repr deadline beats m n)"
proof (cases "map_of (mem_clients m) n")
  case (Some c)
  obtain P k r where r: "request_with_retry None (asked (beats n)) (sent (beats n)) (failed_at (beats n)) (link c) = (P, k, r)"
    using prod_cases3 by blast
  let ?m1 = "m\<lparr>mem_clients := dict_set (mem_clients m) n (c\<lparr>link := P\<rparr>)\<rparr>"
  have m1: "table_only m ?m1" by (rule table_only_client [OF Some])
  have hb: "table_only m (case record_heartbeat pf repr (seen (beats n)) n deadline d rt ?m1 of
      (m2, Inl _) \<Rightarrow> record_miss n m2 | (m2, Inr _) \<Rightarrow> m2)" for d rt
    using table_only_trans [OF m1 table_only_record_heartbeat [of ?m1 pf repr "seen (beats n)" n deadline d rt]]
    by (auto split: prod.split sum.split intro: table_only_trans [OF _ table_only_record_miss])
  have miss: "table_only m (record_miss n ?m1)" using m1 table_only_record_miss by (rule table_only_trans)
  have eq: "heartbeat_one pf repr deadline beats m n = (case r of
      Inl _ \<Rightarrow> record_miss n ?m1
    | Inr None \<Rightarrow> ?m1
    | Inr (Some resp) \<Rightarrow>
        if truthy resp
        then (case record_heartbeat pf repr (seen (beats n)) n deadline
                (case resp of JObj d \<Rightarrow> Some d | _ \<Rightarrow> None) (Some (round_trip_ms (beats n))) ?m1 of
                (m2, Inl _) \<Rightarrow> record_miss n m2 | (m2, Inr _) \<Rightarrow> m2)
        else ?m1)"
    by (simp add: heartbeat_one_def get_client_def Some r Let_def)
  show ?thesis
  proof (cases r)
    case (Inr a)
    then show ?thesis unfolding eq using m1 hb by (cases a) simp_all
  qed (simp add: eq miss)
qed (simp add: heartbeat_one_def get_client_def)

lemma table_only_foldl:
  assumes "\<And>s x. table_only (f s) (f (g s x))"
  shows "table_only (f s) (f (foldl g s xs))"
  using assms by (induction xs rule: rev_induct) (auto intro: table_only_trans)

lemma table_only_leases: "table_only m (fst (evict_expired_leases now m))"
proof -
  have "table_only (fst s) (fst (lease_check now s n))" for s n
    using table_only_mark_suspect [of "fst s" n]
    by (auto simp: lease_check_def case_prod_unfold Let_def split: option.split)
  from table_only_foldl [of fst, OF this, of "(m, [])"] show ?thesis by (simp add: evict_expired_leases_def)
qed

lemma table_only_heartbeat_round: "table_only m (heartbeat_round pf repr lease now beats m)"
  unfolding heartbeat_round_def
  using table_only_foldl [of "\<lambda>s. s", OF table_only_heartbeat_one] table_only_leases
  by (rule table_only_trans)

lemma table_only_failure_check: "table_only (fst s) (fst (failure_check cfg det s n))"
  using table_only_mark_suspect [of "fst s" n]
  by (auto simp: failure_check_def case_prod_unfold Let_def split: option.split)

definition ring_good :: "(string \<Rightarrow> string) \<Rightarrow> string set \<Rightarrow> hash_ring \<Rightarrow> bool" where
  "ring_good md5 N R \<longleftrightarrow> ring_inv R \<and> owns_points md5 R \<and> node_ids R \<subseteq> N \<and>
     inj_on md5 (labels N (virtual_nodes R)) \<and> 0 < virtual_nodes R"

lemma ring_good_points: "ring_good md5 N R \<Longrightarrow> n \<in> node_ids R \<Longrightarrow> ring_points R \<noteq> {}"
proof -
  assume R: "ring_good md5 N R" and n: "n \<in> node_ids R"
  have "md5 (n @ '':'' @ str_nat 0) \<in> set (points md5 (virtual_nodes R) n)"
    using R by (auto simp: points_def ring_good_def intro!: image_eqI [where x = 0])
  then have "map_of (ring R) (md5 (n @ '':'' @ str_nat 0)) = Some n"
    using R n by (simp add: ring_good_def owns_points_def)
  then show "ring_points R \<noteq> {}" by blast
qed

lemma ring_add_fields: "node_ids (ring_add_node md5 n R) = insert n (node_ids R)" "virtual_nodes (ring_add_node md5 n R) = virtual_nodes R"
  by (auto simp: ring_add_node_def Let_def)

lemma ring_remove_fields: "node_ids (ring_remove_node md5 n R) = node_ids R - {n}" "virtual_nodes (ring_remove_node md5 n R) = virtual_nodes R"
  by (auto simp: ring_remove_node_def Let_def)

lemma ring_good_add: "ring_good md5 N R \<Longrightarrow> n \<in> N \<Longrightarrow> ring_good md5 N (ring_add_node md5 n R)"
  using step_owns_points(1) [of md5 N R n] by (simp add: ring_good_def ring_add_fields ring_add_node_inv)

lemma ring_good_remove: "ring_good md5 N R \<Longrightarrow> n \<in> N \<Longrightarrow> ring_good md5 N (ring_remove_node md5 n R)"
  using step_owns_points(2) [of md5 N R n] by (auto simp: ring_good_def ring_remove_fields ring_remove_node_inv)

lemma rebalance_returns:
  assumes "ring_inv (hash_ring s)" and "ring_points (hash_ring s) \<noteq> {}" and "dict_ok (primary_map s)"
  shows "\<exists>moved. snd (shard_rebalance md5 s) = Inr moved"
proof -
  have a: "\<forall>h old. (h, old) \<in> set (primary_map s) \<longrightarrow> map_of (primary_map s) h = Some old"
    using assms(3) by (auto intro: map_of_is_SomeI)
  have b: "\<forall>h p. map_of (primary_map s) h = Some p \<longrightarrow> h \<notin> fst ` set (primary_map s) \<longrightarrow> get_node md5 h (hash_ring s) = Inr p"
    by (metis map_of_eq_None_iff option.distinct(1))
  show ?thesis using rebalance_loop_ok [OF assms assms(3) a b, of "[]"] by (auto simp: shard_rebalance_def)
qed

definition mem_inv :: "(string \<Rightarrow> string) \<Rightarrow> string set \<Rightarrow> membership \<Rightarrow> bool" where
  "mem_inv md5 N m \<longleftrightarrow> shard_inv md5 (mem_shard m) \<and> ring_good md5 N (hash_ring (mem_shard m)) \<and>
     node_ids (hash_ring (mem_shard m)) = insert (mem_node_id m) (dom (map_of (mem_peers m))) \<and>
     mem_node_id m \<notin> dom (map_of (mem_peers m)) \<and> dict_ok (mem_peers m) \<and>
     dom (map_of (mem_clients m)) = dom (map_of (mem_peers m)) \<and> labelled m"

lemma mem_inv_table_only: "mem_inv md5 N m \<Longrightarrow> table_only m m' \<Longrightarrow> mem_inv md5 N m'"
  by (simp add: mem_inv_def table_only_def)

lemma dom_dict_set: "dom (map_of (dict_set d k v)) = insert k (dom (map_of d))"
  by (auto simp: dom_def)

lemma dom_dict_del: "dom (map_of (dict_del d k)) = dom (map_of d) - {k}"
  by (auto simp: dom_def)

lemma mem_add_inv:
  assumes inv: "mem_inv md5 N m" and n: "n \<in> N"
  shows "mem_inv md5 N (fst (mem_add scheme md5 now n host port cn m)) \<and> snd (mem_add scheme md5 now n host port cn m) = Inr ()"
proof (cases "map_of (mem_peers m) n")
  case (Some p)
  then have "table_only m (m\<lparr>mem_peers := dict_set (mem_peers m) n (p\<lparr>pi_host := host, pi_port := port, peer_cn := cn\<rparr>)\<rparr>)"
    by (simp add: table_only_peer)
  then show ?thesis using mem_inv_table_only [OF inv] inv Some by (simp add: mem_add_def)
next
  case None
  define s where "s = (mem_shard m)\<lparr>hash_ring := ring_add_node md5 n (hash_ring (mem_shard m))\<rparr>"
  define s1 where "s1 = s\<lparr>hash_ring := ring_add_node md5 n (hash_ring s)\<rparr>"
  have good: "ring_good md5 N (hash_ring s1)" and ok: "dict_ok (primary_map s1)"
    using inv n by (simp_all add: s_def s1_def mem_inv_def ring_good_add shard_inv_def)
  have ids: "node_ids (hash_ring s1) = insert n (node_ids (hash_ring (mem_shard m)))"
    by (simp add: s_def s1_def ring_add_fields)
  obtain moved where moved: "snd (shard_rebalance md5 s1) = Inr moved"
    using rebalance_returns [of s1 md5] good ok ring_good_points [OF good, of n] ids by (auto simp: ring_good_def)
  have reb: "shard_inv md5 (fst (shard_rebalance md5 s1))" "hash_ring (fst (shard_rebalance md5 s1)) = hash_ring s1"
    using rebalance_ok(1,2) [of s1 md5] good ok by (simp_all add: ring_good_def)
  have eq: "shard_add_node md5 n s = (fst (shard_rebalance md5 s1), Inr moved)"
    using moved by (metis shard_add_node_def s1_def prod.collapse)
  show ?thesis
    using inv None reb good ids
    by (cases "n = mem_node_id m")
      (auto simp: mem_add_def Let_def eq [unfolded s_def] mem_notify_def mem_inv_def labelled_def PeerInfo_def dom_dict_set
        simp del: map_of_eq_Some_iff)
qed

lemma mem_remove_inv:
  assumes inv: "mem_inv md5 N m"
  shows "mem_inv md5 N (fst (mem_remove md5 n m)) \<and> snd (mem_remove md5 n m) = Inr (dict_has (mem_peers m) n)"
proof (cases "dict_has (mem_peers m) n")
  case True
  define s where "s = (mem_shard m)\<lparr>hash_ring := ring_remove_node md5 n (hash_ring (mem_shard m))\<rparr>"
  define s1 where "s1 = s\<lparr>hash_ring := ring_remove_node md5 n (hash_ring s)\<rparr>"
  have known: "n \<in> dom (map_of (mem_peers m))" using True by (simp add: dict_has_iff dom_map_of_conv_image_fst)
  then have n: "n \<in> N" "n \<noteq> mem_node_id m" using inv by (auto simp: mem_inv_def ring_good_def)
  have good: "ring_good md5 N (hash_ring s1)" and ok: "dict_ok (primary_map s1)"
    using inv n(1) by (simp_all add: s_def s1_def mem_inv_def ring_good_remove shard_inv_def)
  have ids: "node_ids (hash_ring s1) = node_ids (hash_ring (mem_shard m)) - {n}"
    by (simp add: s_def s1_def ring_remove_fields)
  have self: "mem_node_id m \<in> node_ids (hash_ring s1)" using inv n(2) ids by (simp add: mem_inv_def)
  obtain moved where moved: "snd (shard_rebalance md5 s1) = Inr moved"
    using rebalance_returns [of s1 md5] good ok ring_good_points [OF good self] by (auto simp: ring_good_def)
  have reb: "shard_inv md5 (fst (shard_rebalance md5 s1))" "hash_ring (fst (shard_rebalance md5 s1)) = hash_ring s1"
    using rebalance_ok(1,2) [of s1 md5] good ok by (simp_all add: ring_good_def)
  have eq: "shard_remove_node md5 n s = (fst (shard_rebalance md5 s1), Inr moved)"
    using moved by (metis shard_remove_node_def s1_def prod.collapse)
  show ?thesis
    using inv True reb good ids n(2)
    by (auto simp: mem_remove_def Let_def eq [unfolded s_def] mem_notify_def mem_inv_def labelled_def dom_dict_del
        simp del: map_of_eq_Some_iff split: if_splits)
qed (simp add: mem_remove_def inv)

lemma remove_all_inv:
  "mem_inv md5 N m \<Longrightarrow> mem_inv md5 N (fst (remove_all md5 ns m)) \<and> snd (remove_all md5 ns m) = Inr ()"
proof (induction ns arbitrary: m)
  case (Cons n ns)
  obtain m1 where m1: "mem_remove md5 n m = (m1, Inr (dict_has (mem_peers m) n))" "mem_inv md5 N m1"
    using mem_remove_inv [OF Cons.prems, of n] by (metis prod.collapse)
  show ?case using Cons.IH [OF m1(2)] by (simp add: m1(1))
qed simp

lemma failure_round_inv:
  assumes "mem_inv md5 N m"
  shows "mem_inv md5 N (fst (failure_round md5 cfg det m)) \<and> snd (failure_round md5 cfg det m) = Inr ()"
proof -
  let ?s = "foldl (failure_check cfg det) (m, []) (map (pi_node_id \<circ> snd) (mem_peers m))"
  have "table_only m (fst ?s)" using table_only_foldl [of fst, OF table_only_failure_check, of "(m, [])"] by simp
  from remove_all_inv [OF mem_inv_table_only [OF assms this]] show ?thesis
    by (simp add: failure_round_def case_prod_unfold Let_def)
qed

fun op_members :: "mem_op \<Rightarrow> string set" where
  "op_members (MemJoin now n host port cn) = {n}"
| "op_members _ = {}"

lemma mem_step_inv:
  assumes inv: "mem_inv md5 N m" and x: "op_members x \<subseteq> N"
  shows "mem_inv md5 N (mem_step scheme md5 pf repr m x)"
proof (cases x)
  case (MemJoin now n host port cn)
  then show ?thesis using mem_add_inv [OF inv] x by simp
next
  case (MemAssign h)
  then show ?thesis using assign_shard_inv [of md5 "mem_shard m" h] inv by (simp add: mem_inv_def labelled_def)
next
  case (MemLocate h n)
  then show ?thesis using inv by (simp add: mem_inv_def labelled_def)
next
  case (MemBeat lease now beats)
  then show ?thesis using mem_inv_table_only [OF inv table_only_heartbeat_round] by simp
qed (use mem_remove_inv [OF inv] failure_round_inv [OF inv] in simp_all)

lemma mem_run_inv:
  "mem_inv md5 N m \<Longrightarrow> \<Union> (op_members ` set ops) \<subseteq> N \<Longrightarrow> mem_inv md5 N (foldl (mem_step scheme md5 pf repr) m ops)"
  by (induction ops arbitrary: m) (simp_all add: mem_step_inv)

lemma Membership_inv:
  assumes "inj_on md5 (labels N v)" and "0 < v" and "n \<in> N"
  shows "mem_inv md5 N (Membership md5 n (Shard (Ring v) k attrs) d)"
proof -
  have "ring_good md5 N (Ring v)"
    using assms by (auto simp: ring_good_def Ring_def ring_inv_def owns_points_def)
  then have "ring_good md5 N (ring_add_node md5 n (Ring v))" using assms(3) by (rule ring_good_add)
  then show ?thesis
    by (simp add: mem_inv_def Membership_def Shard_def shard_inv_def follows_ring_def ring_good_def
        ring_add_fields labelled_def) (simp add: Ring_def)
qed

lemma mem_add_self: "mem_node_id (fst (mem_add scheme md5 now n host port cn m)) = mem_node_id m"
  by (simp add: mem_add_def mem_notify_def Let_def split: option.split prod.split sum.split)

lemma mem_remove_self: "mem_node_id (fst (mem_remove md5 n m)) = mem_node_id m"
  by (simp add: mem_remove_def mem_notify_def Let_def split: prod.split sum.split)

lemma remove_all_self: "mem_node_id (fst (remove_all md5 ns m)) = mem_node_id m"
proof (induction ns arbitrary: m)
  case (Cons n ns)
  obtain m1 r where m1: "mem_remove md5 n m = (m1, r)" by fastforce
  then show ?case using Cons.IH [of m1] mem_remove_self [of md5 n m] by (cases r) simp_all
qed simp

lemma failure_scan_table_only:
  "table_only m (fst (foldl (failure_check cfg det) (m, []) ns))"
  using table_only_foldl [of fst, OF table_only_failure_check, of "(m, [])"] by simp

lemma mem_step_self: "mem_node_id (mem_step scheme md5 pf repr m x) = mem_node_id m"
proof (cases x)
  case (MemBeat lease now beats)
  then show ?thesis using table_only_heartbeat_round [of m pf repr lease now beats] by (simp add: table_only_def)
next
  case (MemDetect cfg det)
  then show ?thesis
    using failure_scan_table_only [of m cfg det "map (pi_node_id \<circ> snd) (mem_peers m)"]
    by (simp add: failure_round_def case_prod_unfold Let_def remove_all_self table_only_def)
qed (simp_all add: mem_add_self mem_remove_self)

lemma mem_run_self: "mem_node_id (foldl (mem_step scheme md5 pf repr) m ops) = mem_node_id m"
  by (induction ops arbitrary: m) (simp_all add: mem_step_self)

lemma primary_is_member:
  assumes "mem_inv md5 N m" and "(h, p) \<in> set (primary_map (mem_shard m))"
  shows "p \<in> node_ids (hash_ring (mem_shard m))"
proof -
  let ?R = "hash_ring (mem_shard m)"
  have good: "ring_good md5 N ?R" and pts: "ring_points ?R \<noteq> {}"
    using assms(1) ring_good_points [of md5 N ?R "mem_node_id m"] by (auto simp: mem_inv_def)
  then have "get_node md5 h ?R = Inr p"
    using assms by (auto simp: mem_inv_def shard_inv_def follows_ring_def list_all_iff)
  then have "\<exists>k. map_of (ring ?R) k = Some p"
    using get_node_eq [of ?R md5 h] good pts by (auto simp: ring_good_def owner_at_def split: option.splits)
  then show ?thesis using good by (auto simp: ring_good_def owns_points_def)
qed

section \<open>A peer that does not answer\<close>

text \<open>No attempt of a heartbeat gets through: the transport fails or gives nothing.\<close>

definition unreachable :: "beat \<Rightarrow> bool" where
  "unreachable b \<longleftrightarrow> (\<forall>i. answer (sent b i) = Inr None \<or> answer (sent b i) = Inl NetworkError)"

lemma retry_loop_fails:
  "list_all (\<lambda>a. answer a = Inr None \<or> answer a = Inl NetworkError) as \<Longrightarrow> snd (retry_loop P d i as) = Inr None"
  by (induction as arbitrary: i) (auto simp: Let_def case_prod_unfold)

lemma request_unreachable:
  assumes "unreachable b"
  shows "snd (snd (request_with_retry d t (sent b) l P)) = Inr None"
proof -
  have "snd (retry_loop P d 0 (map (sent b) [0..<nat (max_retries P)])) = Inr None"
    using assms by (intro retry_loop_fails) (simp add: unreachable_def list_all_iff)
  then show ?thesis by (simp add: request_with_retry_def Let_def case_prod_unfold)
qed

text \<open>The peer is listed as healthy, without a missed heartbeat.\<close>

definition counted_alive :: "string \<Rightarrow> membership \<Rightarrow> bool" where
  "counted_alive n m \<longleftrightarrow> (\<exists>p. map_of (mem_peers m) n = Some p \<and> pi_healthy p \<and> missed_heartbeats p = 0)"

lemma counted_alive_other: "k \<noteq> n \<Longrightarrow> counted_alive n (m\<lparr>mem_peers := dict_set (mem_peers m) k p\<rparr>) = counted_alive n m"
  by (simp add: counted_alive_def)

lemma alive_mark_suspect: "counted_alive n m \<Longrightarrow> counted_alive n (fst (mark_suspect k m))"
  by (cases "k = n") (auto simp: mark_suspect_def counted_alive_def split: option.split)

lemma alive_record_miss: "k \<noteq> n \<Longrightarrow> counted_alive n (record_miss k m) = counted_alive n m"
  by (simp add: record_miss_def counted_alive_other split: option.split)

lemma alive_record_heartbeat:
  "k \<noteq> n \<Longrightarrow> counted_alive n (fst (record_heartbeat pf repr now k lease report rt m)) = counted_alive n m"
  by (simp add: record_heartbeat_def Let_def case_prod_unfold counted_alive_other split: option.split)

lemma alive_clients: "counted_alive n (m\<lparr>mem_clients := d\<rparr>) = counted_alive n m"
  by (simp add: counted_alive_def)

lemma alive_heartbeat_one:
  assumes "unreachable (beats n)" and "counted_alive n m"
  shows "counted_alive n (heartbeat_one pf repr deadline beats m k)"
proof (cases "map_of (mem_clients m) k")
  case (Some c)
  obtain P j r where r: "request_with_retry None (asked (beats k)) (sent (beats k)) (failed_at (beats k)) (link c) = (P, j, r)"
    using prod_cases3 by blast
  have none: "r = Inr None" if "k = n"
    using request_unreachable [OF assms(1), of None] r that by (metis snd_conv)
  have recorded: "counted_alive n (case record_heartbeat pf repr t k deadline d rt m1 of
      (m2, Inl _) \<Rightarrow> record_miss k m2 | (m2, Inr _) \<Rightarrow> m2)" if "k \<noteq> n" "counted_alive n m1" for t d rt m1
    using that alive_record_heartbeat [OF that(1), of pf repr t deadline d rt m1]
    by (auto simp: alive_record_miss split: prod.split sum.split)
  show ?thesis
  proof (cases "k = n")
    case True
    then show ?thesis using none assms(2) r Some
      by (simp add: heartbeat_one_def get_client_def Let_def alive_clients)
  next
    case False
    show ?thesis
    proof (cases r)
      case (Inr a)
      then show ?thesis using False assms(2) r Some recorded
        by (cases a) (simp_all add: heartbeat_one_def get_client_def Let_def alive_clients)
    qed (use False assms(2) r Some in \<open>simp add: heartbeat_one_def get_client_def Let_def alive_clients alive_record_miss\<close>)
  qed
qed (simp add: heartbeat_one_def get_client_def assms)

interpretation silent_beats: stepping "heartbeat_one pf repr deadline beats"
  "\<lambda>m. unreachable (beats n) \<and> counted_alive n m" for pf repr deadline beats n
  by unfold_locales (simp add: alive_heartbeat_one)

interpretation silent_leases: stepping "lease_check now" "\<lambda>s. counted_alive n (fst s)" for now n
  by unfold_locales (auto simp: lease_check_def case_prod_unfold Let_def alive_mark_suspect split: option.split)

lemma alive_heartbeat_round:
  "unreachable (beats n) \<Longrightarrow> counted_alive n m \<Longrightarrow> counted_alive n (heartbeat_round pf repr lease now beats m)"
  using silent_beats.run_ok [of beats n m pf repr "now + lease"] silent_leases.run_ok [of n "(_, [])" now]
  by (simp add: heartbeat_round_def evict_expired_leases_def)

lemma alive_mem_remove: "k \<noteq> n \<Longrightarrow> counted_alive n m \<Longrightarrow> counted_alive n (fst (mem_remove md5 k m))"
  by (simp add: mem_remove_def counted_alive_def mem_notify_def Let_def split: prod.split sum.split)

lemma alive_remove_all: "n \<notin> set ns \<Longrightarrow> counted_alive n m \<Longrightarrow> counted_alive n (fst (remove_all md5 ns m))"
proof (induction ns arbitrary: m)
  case (Cons k ns)
  obtain m1 r where m1: "mem_remove md5 k m = (m1, r)" by fastforce
  then have "counted_alive n m1" using Cons.prems alive_mem_remove [of k n m md5] by auto
  then show ?case using Cons m1 by (cases r) simp_all
qed simp

interpretation silent_detection: stepping "failure_check cfg det"
  "\<lambda>s. 1 \<le> failure_suspect_threshold cfg \<and> 1 \<le> failure_remove_threshold cfg \<and> counted_alive n (fst s) \<and> n \<notin> set (snd s)"
  for cfg det n
proof
  show "1 \<le> failure_suspect_threshold cfg \<and> 1 \<le> failure_remove_threshold cfg \<and>
      counted_alive n (fst (failure_check cfg det s k)) \<and> n \<notin> set (snd (failure_check cfg det s k))"
    if "1 \<le> failure_suspect_threshold cfg \<and> 1 \<le> failure_remove_threshold cfg \<and> counted_alive n (fst s) \<and> n \<notin> set (snd s)"
    for s k
    using that alive_mark_suspect [of n "fst s" k]
    by (auto simp: failure_check_def case_prod_unfold Let_def counted_alive_def split: option.split)
qed

lemma alive_failure_round:
  assumes "1 \<le> failure_suspect_threshold cfg" and "1 \<le> failure_remove_threshold cfg" and "counted_alive n m"
  shows "counted_alive n (fst (failure_round md5 cfg det m))"
proof -
  let ?s = "foldl (failure_check cfg det) (m, []) (map (pi_node_id \<circ> snd) (mem_peers m))"
  have "counted_alive n (fst ?s) \<and> n \<notin> set (snd ?s)"
    using silent_detection.run_ok [of cfg n "(m, [])" det] assms by simp
  then show ?thesis using alive_remove_all [of n "snd ?s" "fst ?s" md5]
    by (simp add: failure_round_def case_prod_unfold Let_def)
qed

lemma alive_mem_add: "counted_alive n m \<Longrightarrow> counted_alive n (fst (mem_add scheme md5 now k host port cn m))"
  by (cases "k = n")
    (auto simp: mem_add_def counted_alive_def mem_notify_def Let_def split: option.split prod.split sum.split)

section \<open>Restoring a snapshot\<close>

lemma dict_del_filter: "dict_del d k = filter (\<lambda>(k', _). k' \<noteq> k) d"
  by (induction d) auto

lemma mem_remove_peers:
  assumes "mem_inv md5 N m"
  shows "mem_peers (fst (mem_remove md5 n m)) = filter (\<lambda>(k, _). k \<noteq> n) (mem_peers m)"
proof (cases "dict_has (mem_peers m) n")
  case True
  then show ?thesis
    by (simp add: mem_remove_def mem_notify_def Let_def dict_del_filter
        split: prod.split sum.split)
next
  case False
  then have "\<forall>x\<in>set (mem_peers m). fst x \<noteq> n" by (auto simp: dict_has_iff)
  then show ?thesis using False by (auto simp: mem_remove_def intro!: filter_True [symmetric])
qed

lemma remove_all_peers:
  "mem_inv md5 N m \<Longrightarrow> mem_peers (fst (remove_all md5 ns m)) = filter (\<lambda>(k, _). k \<notin> set ns) (mem_peers m)"
proof (induction ns arbitrary: m)
  case (Cons n ns)
  obtain m1 where m1: "mem_remove md5 n m = (m1, Inr (dict_has (mem_peers m) n))" "mem_inv md5 N m1"
    using mem_remove_inv [OF Cons.prems, of n] by (metis prod.collapse)
  have "mem_peers m1 = filter (\<lambda>(k, _). k \<noteq> n) (mem_peers m)" using mem_remove_peers [OF Cons.prems, of n] m1(1) by simp
  then show ?case using Cons.IH [OF m1(2)] by (simp add: m1(1) case_prod_unfold conj_commute)
qed (simp add: case_prod_unfold)

definition restored :: "real \<Rightarrow> peer_info \<Rightarrow> peer_info" where
  "restored now p = (PeerInfo (pi_node_id p) (pi_host p) (pi_port p) now (peer_cn p))
     \<lparr>cluster_epoch := cluster_epoch p, pi_healthy := pi_healthy p, suspect := suspect p,
      missed_heartbeats := missed_heartbeats p, lease_until := lease_until p\<rparr>"

lemma restore_fields_json:
  "restore_fields pf (peer_to_json p) q =
     (q\<lparr>cluster_epoch := cluster_epoch p, pi_healthy := pi_healthy p, suspect := suspect p,
        missed_heartbeats := missed_heartbeats p, lease_until := lease_until p\<rparr>, Inr ())"
  by (simp add: restore_fields_def peer_to_json_def dict_get_def)

lemma mem_add_new_peers:
  assumes "mem_inv md5 N m" and "n \<noteq> mem_node_id m" and "map_of (mem_peers m) n = None"
  shows "mem_peers (fst (mem_add scheme md5 now n host port cn m)) = mem_peers m @ [(n, PeerInfo n host port now cn)]"
proof -
  have "\<not> dict_has (mem_peers m) n" using assms(3) by (simp add: dict_has_def)
  then show ?thesis
    using assms(2,3) by (simp add: mem_add_def Let_def mem_notify_def dict_set_new split: prod.split sum.split)
qed

lemma dict_set_last: "k \<notin> fst ` set d \<Longrightarrow> dict_set (d @ [(k, v)]) k w = d @ [(k, w)]"
  by (induction d) auto

lemma load_entry_json:
  assumes inv: "mem_inv md5 N m" and n: "pi_node_id p \<in> N" "pi_node_id p \<noteq> mem_node_id m"
    and new: "map_of (mem_peers m) (pi_node_id p) = None"
  shows "\<exists>m1. load_entry scheme md5 pf repr now (peer_to_json p) m = (m1, Inr ()) \<and> mem_inv md5 N m1 \<and>
    mem_node_id m1 = mem_node_id m \<and> mem_peers m1 = mem_peers m @ [(pi_node_id p, restored now p)]"
proof -
  let ?n = "pi_node_id p"
  obtain m1 where m1: "mem_add scheme md5 now ?n (pi_host p) (pi_port p) (peer_cn p) m = (m1, Inr ())" "mem_inv md5 N m1"
    using mem_add_inv [OF inv n(1)] by (metis prod.collapse)
  have peers: "mem_peers m1 = mem_peers m @ [(?n, PeerInfo ?n (pi_host p) (pi_port p) now (peer_cn p))]"
    using mem_add_new_peers [OF inv n(2) new] m1(1) by (metis fst_conv)
  have self: "mem_node_id m1 = mem_node_id m" using mem_add_self m1(1) by (metis fst_conv)
  let ?m2 = "m1\<lparr>mem_peers := dict_set (mem_peers m1) ?n (restored now p)\<rparr>"
  have fields: "bind_result (str_item (peer_to_json p) ''node_id'') (\<lambda>n. bind_result (str_item (peer_to_json p) ''host'') (\<lambda>host.
      bind_result (bind_result (item (peer_to_json p) ''port'') to_int) (\<lambda>port. Inr (n, host, port))))
      = Inr (?n, pi_host p, pi_port p)"
    "to_str repr (dict_get (peer_to_json p) ''peer_cn'' (JStr [])) = peer_cn p"
    by (simp_all add: str_item_def item_def peer_to_json_def dict_get_def)
  have at: "map_of (mem_peers m1) ?n = Some (PeerInfo ?n (pi_host p) (pi_port p) now (peer_cn p))"
    using new by (simp add: peers map_add_def)
  have "load_entry scheme md5 pf repr now (peer_to_json p) m = (?m2, Inr ())"
    by (simp add: load_entry_def fields m1(1) at restore_fields_json restored_def)
  moreover have "mem_inv md5 N ?m2"
    using table_only_peer [OF at, of "restored now p"] mem_inv_table_only [OF m1(2)]
    by (simp add: restored_def PeerInfo_def)
  moreover have "mem_peers ?m2 = mem_peers m @ [(?n, restored now p)]"
    using new by (simp add: peers dict_set_last map_of_eq_None_iff)
  ultimately show ?thesis using self by auto
qed

lemma load_entries_json:
  assumes "mem_inv md5 N m" and "dict_ok (mem_peers m @ ps)" and "fst ` set ps \<subseteq> N - {mem_node_id m}"
    and "\<forall>(n, p) \<in> set ps. pi_node_id p = n"
  shows "\<exists>m1. load_entries scheme md5 pf repr now (map (\<lambda>(_, p). peer_to_json p) ps) m = (m1, Inr ()) \<and>
    mem_peers m1 = mem_peers m @ map (\<lambda>(n, p). (n, restored now p)) ps"
  using assms
proof (induction ps arbitrary: m)
  case (Cons x ps)
  obtain n p where x: "x = (n, p)" "pi_node_id p = n" using Cons.prems(4) by (cases x) auto
  have new: "map_of (mem_peers m) (pi_node_id p) = None" using Cons.prems(2) x by (auto simp: map_of_eq_None_iff)
  obtain m1 where m1: "load_entry scheme md5 pf repr now (peer_to_json p) m = (m1, Inr ())" "mem_inv md5 N m1"
    "mem_node_id m1 = mem_node_id m" "mem_peers m1 = mem_peers m @ [(pi_node_id p, restored now p)]"
    using load_entry_json [OF Cons.prems(1) _ _ new, of scheme pf repr now] Cons.prems(3) x by auto
  have "dict_ok (mem_peers m1 @ ps)" using Cons.prems(2) x m1(4) by auto
  then show ?case using Cons.IH [OF m1(2)] Cons.prems(3,4) x m1 by auto
qed simp

lemma load_saved:
  assumes m: "mem_inv md5 N m" and m0: "mem_inv md5 N m0" and same: "mem_node_id m0 = mem_node_id m"
  shows "\<exists>m1. load_membership scheme md5 pf repr now (mem_to_json m) m0 = (m1, Inr ()) \<and>
    mem_peers m1 = map (\<lambda>(n, p). (n, restored now p)) (mem_peers m)"
proof -
  obtain e where e: "remove_all md5 (map fst (mem_peers m0)) m0 = (e, Inr ())" "mem_inv md5 N e"
    using remove_all_inv [OF m0] by (metis prod.collapse)
  have "mem_peers e = filter (\<lambda>(k, _). k \<notin> set (map fst (mem_peers m0))) (mem_peers m0)"
    using remove_all_peers [OF m0, of "map fst (mem_peers m0)"] e(1) by simp
  then have empty: "mem_peers e = []" by (force simp: filter_empty_conv)
  have self: "mem_node_id e = mem_node_id m"
    using remove_all_self [of md5 "map fst (mem_peers m0)" m0] e(1) same by simp
  have keys: "fst ` set (mem_peers m) \<subseteq> N - {mem_node_id e}"
    using m self by (simp add: mem_inv_def ring_good_def dom_map_of_conv_image_fst subset_Diff_insert)
      (metis insert_subset)
  have lab: "\<forall>(n, p) \<in> set (mem_peers m). pi_node_id p = n"
    using m by (auto simp: mem_inv_def labelled_def)
  have "dict_ok (mem_peers e @ mem_peers m)" using m empty by (simp add: mem_inv_def)
  from load_entries_json [OF e(2) this keys lab] show ?thesis
    by (auto simp: load_membership_def e(1) mem_to_json_def empty)
qed

section \<open>Properties\<close>

text \<open>
  C18. After any history of joins, leaves, shard assignments, heartbeat rounds and failure-detection
  rounds, the hash ring consists of the local node and the listed peers, every peer has a client, every
  cached primary is the local node or a listed peer, and removing a peer succeeds. (No two points of
  these nodes on the ring collide.)
\<close>

theorem membership_follows_ring:
  assumes "inj_on md5 (labels N v)" and "0 < v" and "insert n (\<Union> (op_members ` set ops)) \<subseteq> N"
  shows "let m = foldl (mem_step scheme md5 pf repr) (Membership md5 n (Shard (Ring v) k attrs) d) ops;
             peers = set (map fst (mem_peers m)) in
    node_ids (hash_ring (mem_shard m)) = insert n peers \<and> n \<notin> peers \<and> set (map fst (mem_clients m)) = peers \<and>
    list_all (\<lambda>(h, p). p \<in> insert n peers) (primary_map (mem_shard m)) \<and>
    (\<forall>j. snd (mem_remove md5 j m) = Inr (j \<in> peers))"
proof -
  let ?m0 = "Membership md5 n (Shard (Ring v) k attrs) d"
  let ?m = "foldl (mem_step scheme md5 pf repr) ?m0 ops"
  have inv: "mem_inv md5 N ?m"
    using mem_run_inv [OF Membership_inv [OF assms(1,2)], of n ops scheme pf repr k attrs d] assms(3) by simp
  have self: "mem_node_id ?m = n" by (simp add: mem_run_self Membership_def)
  show ?thesis
    using inv self primary_is_member [OF inv] mem_remove_inv [OF inv]
    by (auto simp: Let_def mem_inv_def dom_map_of_conv_image_fst list_all_iff dict_has_iff)
qed

theorem membership_follows_ring_witness:
  "inj_on (\<lambda>s. s) (labels {''a'', ''b''} 2) \<and>
   (let m = foldl (mem_step ''http'' (\<lambda>s. s) (\<lambda>_. None) (\<lambda>_. [])) (Membership (\<lambda>s. s) ''a'' (Shard (Ring 2) 1 []) (Registry 10))
              [MemJoin 0 ''b'' ''host'' 80 [], MemAssign ''x'', MemLeave ''b''];
        peers = set (map fst (mem_peers m)) in
    node_ids (hash_ring (mem_shard m)) = insert ''a'' peers \<and> ''a'' \<notin> peers \<and> set (map fst (mem_clients m)) = peers \<and>
    list_all (\<lambda>(h, p). p \<in> insert ''a'' peers) (primary_map (mem_shard m)) \<and>
    (\<forall>j. snd (mem_remove (\<lambda>s. s) j m) = Inr (j \<in> peers)))"
  using membership_follows_ring [of "\<lambda>s. s" "{''a'', ''b''}" 2 "''a''" "[MemJoin 0 ''b'' ''host'' 80 [], MemAssign ''x'', MemLeave ''b'']"
      "''http''" "\<lambda>_. None" "\<lambda>_. []" 1 "[]" "Registry 10"]
  by simp

text \<open>What every round does to a peer that never answers: nothing but the loops themselves run.\<close>

fun silent_op :: "string \<Rightarrow> mem_op \<Rightarrow> bool" where
  "silent_op n (MemBeat lease now beats) = unreachable (beats n)"
| "silent_op n (MemDetect cfg det) = (1 \<le> failure_suspect_threshold cfg \<and> 1 \<le> failure_remove_threshold cfg)"
| "silent_op n (MemLeave k) = (k \<noteq> n)"
| "silent_op n _ = True"

interpretation silence: stepping "\<lambda>m x. if silent_op n x then mem_step scheme md5 pf repr m x else m" "counted_alive n"
  for n scheme md5 pf repr
proof
  show "counted_alive n (if silent_op n x then mem_step scheme md5 pf repr m x else m)" if "counted_alive n m" for m x
    using that
    by (cases x) (simp_all add: alive_mem_add alive_mem_remove alive_heartbeat_round alive_failure_round, simp_all add: counted_alive_def)
qed

lemma silent_run:
  "list_all (silent_op n) ops \<Longrightarrow>
     foldl (mem_step scheme md5 pf repr) m ops = foldl (\<lambda>m x. if silent_op n x then mem_step scheme md5 pf repr m x else m) m ops"
  by (induction ops arbitrary: m) simp_all


definition dead_beat :: beat where
  "dead_beat = \<lparr>asked = 0, sent = (\<lambda>_. \<lparr>before = 0, answer = Inl NetworkError, jitter = 0, after = 0\<rparr>),
                failed_at = 0, seen = 0, round_trip_ms = 0\<rparr>"

definition two_members :: membership where
  "two_members = fst (mem_add ''http'' (\<lambda>s. s) 0 ''b'' ''host'' 80 [] (Membership (\<lambda>s. s) ''a'' (Shard (Ring 2) 1 []) (Registry 10)))"

lemma two_members_peer: "map_of (mem_peers two_members) ''b'' = Some (PeerInfo ''b'' ''host'' 80 0 [])"
  by (simp add: two_members_def mem_add_def Membership_def mem_notify_def Let_def split: prod.split sum.split)


lemma mem_add_directory: "directory (fst (mem_add scheme md5 now n host port cn m)) = directory m"
  by (simp add: mem_add_def mem_notify_def Let_def split: option.split prod.split sum.split)

lemma mem_remove_directory:
  "reg_nodes (directory m) = [] \<Longrightarrow> directory (fst (mem_remove md5 n m)) = directory m"
  by (simp add: mem_remove_def mem_notify_def Let_def unregister_node_def dict_has_def split: prod.split sum.split)

lemma remove_all_directory:
  "reg_nodes (directory m) = [] \<Longrightarrow> directory (fst (remove_all md5 ns m)) = directory m"
proof (induction ns arbitrary: m)
  case (Cons n ns)
  obtain m1 r where m1: "mem_remove md5 n m = (m1, r)" by fastforce
  then show ?case using Cons mem_remove_directory [of m md5 n] by (cases r) simp_all
qed simp

lemma record_location_nodes: "reg_nodes (fst (record_fragment_location h n r)) = reg_nodes r"
  by (simp add: record_fragment_location_def split: option.split prod.split sum.split)

interpretation unregistered: stepping "mem_step scheme md5 pf repr" "\<lambda>m. reg_nodes (directory m) = []"
  for scheme md5 pf repr
proof
  show "reg_nodes (directory (mem_step scheme md5 pf repr m x)) = []" if "reg_nodes (directory m) = []" for m x
  proof (cases x)
    case (MemBeat lease now beats)
    then show ?thesis using that table_only_heartbeat_round [of m pf repr lease now beats] by (simp add: table_only_def)
  next
    case (MemDetect cfg det)
    then show ?thesis
      using that failure_scan_table_only [of m cfg det "map (pi_node_id \<circ> snd) (mem_peers m)"]
      by (simp add: failure_round_def case_prod_unfold Let_def remove_all_directory table_only_def)
  qed (simp_all add: that mem_add_directory mem_remove_directory record_location_nodes)
qed

text \<open>
  C20. A removed peer stays in the routing directory. After any history of the cluster, removing a peer
  leaves the recorded fragment locations as they were, so lookups still name it: the directory drops
  the locations of registered nodes only, and the membership registers none.
\<close>

theorem removed_peer_stays_located:
  "let m = foldl (mem_step scheme md5 pf repr) (Membership md5 n s (Registry limit)) ops in
     locate_fragment h (directory (fst (mem_remove md5 j m))) = locate_fragment h (directory m)"
  using unregistered.run_ok [of "Membership md5 n s (Registry limit)" scheme md5 pf repr ops] mem_remove_directory
  by (simp add: Let_def Membership_def Registry_def)

text \<open>
  A peer that joins again under a new address is announced there but not called there: its URL is the
  new one, while the client that heartbeats, gossip and replication use keeps the old address.
\<close>

theorem readdressed_peer_keeps_client:
  assumes "map_of (mem_peers m) n = Some p" and "n \<noteq> mem_node_id m"
  shows "get_url scheme n (fst (mem_add scheme md5 now n host port cn m)) = Some (peer_url scheme (host_port host port)) \<and>
    get_client n (fst (mem_add scheme md5 now n host port cn m)) = get_client n m"
  using assms by (simp add: mem_add_def get_url_def get_client_def)

theorem readdressed_peer_keeps_client_witness:
  "get_url ''http'' ''b'' (fst (mem_add ''http'' (\<lambda>s. s) 5 ''b'' ''other'' 90 [] two_members)) = Some ''http://other:90'' \<and>
   map_option base_url (get_client ''b'' (fst (mem_add ''http'' (\<lambda>s. s) 5 ''b'' ''other'' 90 [] two_members))) = Some ''http://host:80''"
proof -
  have self: "''b'' \<noteq> mem_node_id two_members"
    by (simp add: two_members_def mem_add_self) (simp add: Membership_def)
  have client: "map_option base_url (get_client ''b'' two_members) = Some ''http://host:80''" by code_simp
  have url: "peer_url ''http'' (host_port ''other'' 90) = ''http://other:90''" by code_simp
  show ?thesis
    using readdressed_peer_keeps_client [OF two_members_peer self, of "''http''" "\<lambda>s. s" 5 "''other''" 90 "[]"] client url
    by simp
qed

text \<open>
  A snapshot restores the table. Loading what a membership saved into a membership of the same node,
  after any histories of both, succeeds and gives the same peers in the same order, with address,
  certificate name, epoch, health, suspicion, misses and lease as they were saved.
\<close>

theorem load_saved_membership:
  assumes "inj_on md5 (labels N v)" and "0 < v" and "insert n (\<Union> (op_members ` set (ops @ ops'))) \<subseteq> N"
  shows "let m = foldl (mem_step scheme md5 pf repr) (Membership md5 n (Shard (Ring v) k attrs) d) ops;
             m' = foldl (mem_step scheme md5 pf repr) (Membership md5 n (Shard (Ring v) k attrs) d) ops';
             r = load_membership scheme md5 pf repr now (mem_to_json m) m' in
    snd r = Inr () \<and> mem_peers (fst r) = map (\<lambda>(j, p). (j, restored now p)) (mem_peers m)"
proof -
  let ?m0 = "Membership md5 n (Shard (Ring v) k attrs) d"
  let ?run = "foldl (mem_step scheme md5 pf repr) ?m0"
  have "mem_inv md5 N (?run ops)" "mem_inv md5 N (?run ops')"
    using assms(3) by (auto intro!: mem_run_inv Membership_inv [OF assms(1,2)])
  from load_saved [OF this, of scheme pf repr now] show ?thesis by (auto simp: Let_def mem_run_self)
qed

theorem load_saved_membership_witness:
  "let m = foldl (mem_step ''http'' (\<lambda>s. s) (\<lambda>_. None) (\<lambda>_. [])) (Membership (\<lambda>s. s) ''a'' (Shard (Ring 2) 1 []) (Registry 10))
             [MemJoin 0 ''b'' ''host'' 80 ''cn''];
       m' = foldl (mem_step ''http'' (\<lambda>s. s) (\<lambda>_. None) (\<lambda>_. [])) (Membership (\<lambda>s. s) ''a'' (Shard (Ring 2) 1 []) (Registry 10))
             [MemJoin 0 ''c'' ''host'' 81 []];
       r = load_membership ''http'' (\<lambda>s. s) (\<lambda>_. None) (\<lambda>_. []) 7 (mem_to_json m) m' in
    snd r = Inr () \<and> mem_peers (fst r) = map (\<lambda>(j, p). (j, restored 7 p)) (mem_peers m)"
  using load_saved_membership [of "\<lambda>s. s" UNIV 2 "''a''" "[MemJoin 0 ''b'' ''host'' 80 ''cn'']" "[MemJoin 0 ''c'' ''host'' 81 []]"
      "''http''" "\<lambda>_. None" "\<lambda>_. []" 1 "[]" "Registry 10" 7]
  by simp

end
