(* ===== verification/Replication.thy ===== *)
theory Replication
  imports Ops Membership
begin

text \<open>
  Copying fragments to other nodes: the push and the verified hand-over of \<^verbatim>\<open>replication.py\<close>, the peer
  client calls they use (\<^verbatim>\<open>network/peer.py\<close>), and the quorum fan-out of \<^verbatim>\<open>quorum.py\<close>. A peer is a node
  behind a lossy link: every request consumes one entry of a tape, the list of what happens to its
  attempts, and the handlers of theory Ops run on the peer's node whenever an attempt arrives. The theorems
  say where the copies of an acknowledged, a refused and a handed-over fragment are.
\<close>

section \<open>Requests over a lossy link\<close>

datatype delivery = Delivered | RequestLost | ReplyLost

text \<open>
  The attempts of one request. A lost attempt and an answer with an error status are retried; an
  exception in the handler is such an answer.
\<close>

fun call_peer ::
  "delivery list \<Rightarrow> (int \<Rightarrow> bool) \<Rightarrow> ('s \<Rightarrow> 's \<times> (int \<times> 'b) result) \<Rightarrow> 's \<Rightarrow> 's \<times> (int \<times> 'b) option" where
  "call_peer [] accepts h s = (s, None)"
| "call_peer (RequestLost # ds) accepts h s = call_peer ds accepts h s"
| "call_peer (ReplyLost # ds) accepts h s = call_peer ds accepts h (fst (h s))"
| "call_peer (Delivered # ds) accepts h s =
     (case h s of
        (s1, Inl _) \<Rightarrow> call_peer ds accepts h s1
      | (s1, Inr (status, body)) \<Rightarrow>
          if accepts status then (s1, Some (status, body)) else call_peer ds accepts h s1)"

type_synonym peer_site = "node \<times> delivery list list"

definition over_wire ::
  "(int \<Rightarrow> bool) \<Rightarrow> (node \<Rightarrow> node \<times> (int \<times> 'b) result) \<Rightarrow> peer_site \<Rightarrow> peer_site \<times> (int \<times> 'b) option" where
  "over_wire accepts h s =
     (case snd s of
        [] \<Rightarrow> (s, None)
      | ds # tape \<Rightarrow> (let (nd, r) = call_peer ds accepts h (fst s) in ((nd, tape), r)))"

text \<open>Statuses the transport returns: below 300, and 404 for raw requests.\<close>

definition json_status :: "int \<Rightarrow> bool" where
  "json_status status = (status < 300)"

definition raw_status :: "int \<Rightarrow> bool" where
  "raw_status status = (status < 300 \<or> status = 404)"

section \<open>The peer client\<close>

record 's replica_target =
  put_blob :: "string \<Rightarrow> bytes \<Rightarrow> 's \<Rightarrow> 's \<times> bool result"
  request_replicate :: "fragment \<Rightarrow> bool \<Rightarrow> 's \<Rightarrow> 's \<times> bool result"
  blob_digest :: "string \<Rightarrow> 's \<Rightarrow> 's \<times> string option result"
  retrieve_fragment :: "string \<Rightarrow> 's \<Rightarrow> 's \<times> fragment option result"

definition body_flag :: "string \<Rightarrow> (int \<times> (string \<times> json) list) option \<Rightarrow> bool" where
  "body_flag k r = (case r of None \<Rightarrow> False | Some (_, body) \<Rightarrow> truthy (dict_get body k (JBool False)))"

text \<open>The direct upload, which payloads below the threshold of the resumable one take.\<close>

definition peer_put_blob :: "(bytes \<Rightarrow> string) \<Rightarrow> string \<Rightarrow> bytes \<Rightarrow> peer_site \<Rightarrow> peer_site \<times> bool result" where
  "peer_put_blob sha r data s =
     (let (s1, resp) = over_wire json_status (put_blob_body sha r data (sha data)) s
      in (s1, Inr (body_flag ''stored'' resp)))"

definition peer_request_replicate ::
  "node_env \<Rightarrow> caller \<Rightarrow> fragment \<Rightarrow> bool \<Rightarrow> peer_site \<Rightarrow> peer_site \<times> bool result" where
  "peer_request_replicate E auth f prim s =
     (let (s1, resp) = over_wire json_status (replicate_body E (to_dict f) auth prim) s
      in (s1, Inr (body_flag ''success'' resp)))"

text \<open>\<open>HEAD /blobs\<close> answers with the digest of the bytes in a header.\<close>

definition head_blob :: "(bytes \<Rightarrow> string) \<Rightarrow> string \<Rightarrow> node \<Rightarrow> node \<times> (int \<times> string option) result" where
  "head_blob sha r nd =
     (case op_get_blob r (Some nd) of (status, data) \<Rightarrow> (nd, Inr (status, map_option sha data)))"

definition peer_blob_digest :: "(bytes \<Rightarrow> string) \<Rightarrow> string \<Rightarrow> peer_site \<Rightarrow> peer_site \<times> string option result" where
  "peer_blob_digest sha r s =
     (let (s1, resp) = over_wire raw_status (head_blob sha r) s
      in (s1, Inr (case resp of Some (status, d) \<Rightarrow> if status = 200 then d else None | None \<Rightarrow> None)))"

definition found_fragment :: "node_env \<Rightarrow> (string \<times> json) list \<Rightarrow> fragment option result" where
  "found_fragment E body =
     (if truthy (dict_get body ''found'' JNull)
      then (case map_of body ''fragment'' of
              None \<Rightarrow> Inl KeyError
            | Some (JObj d) \<Rightarrow> (case from_dict (json_repr E) (parse_float E) d of Inl e \<Rightarrow> Inl e | Inr f \<Rightarrow> Inr (Some f))
            | Some _ \<Rightarrow> Inl TypeError)
      else Inr None)"

definition peer_retrieve_fragment ::
  "node_env \<Rightarrow> nat \<Rightarrow> caller \<Rightarrow> string \<Rightarrow> peer_site \<Rightarrow> peer_site \<times> fragment option result" where
  "peer_retrieve_fragment E t auth h s =
     (let (s1, resp) = over_wire json_status (retrieve_body E t h auth) s
      in (s1, case resp of None \<Rightarrow> Inr None | Some (_, body) \<Rightarrow> found_fragment E body))"

definition peer_target :: "node_env \<Rightarrow> (bytes \<Rightarrow> string) \<Rightarrow> nat \<Rightarrow> caller \<Rightarrow> peer_site replica_target" where
  "peer_target E sha t auth =
     \<lparr>put_blob = peer_put_blob sha, request_replicate = peer_request_replicate E auth,
      blob_digest = peer_blob_digest sha, retrieve_fragment = peer_retrieve_fragment E t auth\<rparr>"

section \<open>Pushing, verifying and handing over\<close>

definition payload_for :: "fragment \<Rightarrow> in_process_bytes option \<Rightarrow> bytes option" where
  "payload_for f bytes =
     (case (payload_ref f, bytes) of (Some r, Some cs) \<Rightarrow> content_get cs r | _ \<Rightarrow> None)"

definition digest_matches ::
  "(bytes \<Rightarrow> string) \<Rightarrow> 's replica_target \<Rightarrow> string \<Rightarrow> bytes \<Rightarrow> 's \<Rightarrow> 's \<times> bool result" where
  "digest_matches sha T r data s =
     (case blob_digest T r s of (s1, Inl e) \<Rightarrow> (s1, Inl e) | (s1, Inr d) \<Rightarrow> (s1, Inr (d = Some (sha data))))"

definition push ::
  "(bytes \<Rightarrow> string) \<Rightarrow> 's replica_target \<Rightarrow> fragment \<Rightarrow> bytes option \<Rightarrow> bool \<Rightarrow> bool \<Rightarrow> 's \<Rightarrow> 's \<times> bool result" where
  "push sha T f payload prim skip_if_present s =
     (case payload_ref f of
        None \<Rightarrow> request_replicate T f prim s
      | Some r \<Rightarrow>
          (case payload of
             None \<Rightarrow> (s, Inr False)
           | Some data \<Rightarrow>
               (case (if skip_if_present then digest_matches sha T r data s else (s, Inr False)) of
                  (s1, Inl e) \<Rightarrow> (s1, Inl e)
                | (s1, Inr present) \<Rightarrow>
                    if present then request_replicate T f prim s1
                    else
                      (case put_blob T r data s1 of
                         (s2, Inl e) \<Rightarrow> (s2, Inl e)
                       | (s2, Inr ok) \<Rightarrow> if ok then request_replicate T f prim s2 else (s2, Inr False)))))"

definition verify_replica ::
  "(bytes \<Rightarrow> string) \<Rightarrow> 's replica_target \<Rightarrow> fragment \<Rightarrow> bytes option \<Rightarrow> 's \<Rightarrow> 's \<times> bool result" where
  "verify_replica sha T f payload s =
     (case retrieve_fragment T (key f) s of
        (s1, Inl e) \<Rightarrow> (s1, Inl e)
      | (s1, Inr None) \<Rightarrow> (s1, Inr False)
      | (s1, Inr (Some _)) \<Rightarrow>
          (case payload_ref f of
             None \<Rightarrow> (s1, Inr True)
           | Some r \<Rightarrow>
               (case payload of None \<Rightarrow> (s1, Inr False) | Some data \<Rightarrow> digest_matches sha T r data s1)))"

definition hand_off_primary ::
  "(bytes \<Rightarrow> string) \<Rightarrow> 's replica_target \<Rightarrow> fragment \<Rightarrow> bytes option \<Rightarrow> 's \<Rightarrow> 's \<times> bool result" where
  "hand_off_primary sha T f payload s =
     (case push sha T f payload True True s of
        (s1, Inl e) \<Rightarrow> (s1, Inl e)
      | (s1, Inr ok) \<Rightarrow> if ok then verify_replica sha T f payload s1 else (s1, Inr False))"

section \<open>The quorum fan-out\<close>

text \<open>
  When the pool runs the tasks and what the waits see: the clock at the start, for every wait the
  clock before it and the tasks it finds completed, which tasks the pool started, and the clock at
  the end. The last wait is the one the deadline ends.
\<close>

record fan_schedule =
  started_at :: real
  waits :: "(real \<times> nat set) list"
  running :: "nat set"
  ended_at :: real

text \<open>The tasks, in the order of submission; a task that never started has no outcome.\<close>

fun run_tasks ::
  "('p \<Rightarrow> 's \<Rightarrow> 's \<times> bool result) \<Rightarrow> nat set \<Rightarrow> nat \<Rightarrow> 'p list \<Rightarrow> ('p \<Rightarrow> 's) \<Rightarrow> ('p \<Rightarrow> 's) \<times> bool result option list" where
  "run_tasks task started i [] w = (w, [])"
| "run_tasks task started i (p # ps) w =
     (if i \<in> started
      then let (s, r) = task p (w p);
               (w1, rs) = run_tasks task started (Suc i) ps (w(p := s))
           in (w1, Some r # rs)
      else let (w1, rs) = run_tasks task started (Suc i) ps w in (w1, None # rs))"

definition acks_in :: "bool result option list \<Rightarrow> nat set \<Rightarrow> nat set" where
  "acks_in outs I = {i \<in> I. i < length outs \<and> outs ! i = Some (Inr True)}"

fun ack_loop :: "int \<Rightarrow> real \<Rightarrow> bool result option list \<Rightarrow> nat set \<Rightarrow> int \<Rightarrow> (real \<times> nat set) list \<Rightarrow> int" where
  "ack_loop quorum deadline outs pending acks [] = acks"
| "ack_loop quorum deadline outs pending acks ((t, completed) # ws) =
     (if pending = {} \<or> acks \<ge> quorum \<or> deadline - t \<le> 0 then acks
      else ack_loop quorum deadline outs (pending - completed)
             (acks + int (card (acks_in outs (completed \<inter> pending)))) ws)"

definition fan_out ::
  "fan_schedule \<Rightarrow> ('p \<Rightarrow> 's \<Rightarrow> 's \<times> bool result) \<Rightarrow> 'p list \<Rightarrow> int \<Rightarrow> real \<Rightarrow> ('p \<Rightarrow> 's) \<Rightarrow> ('p \<Rightarrow> 's) \<times> quorum_result" where
  "fan_out sched task peers quorum timeout w =
     (if quorum \<le> 0 \<or> peers = []
      then (w, \<lparr>success = False, ack_count = 0, timed_out = True, contacted = length peers\<rparr>)
      else
        let deadline = started_at sched + timeout;
            (w1, outs) = run_tasks task (running sched) 0 peers w;
            acks = ack_loop quorum deadline outs (set [0..<length peers]) 0 (waits sched)
        in (w1, \<lparr>success = (acks \<ge> quorum), ack_count = acks,
                 timed_out = (acks < quorum \<and> ended_at sched \<ge> deadline), contacted = length peers\<rparr>))"

text \<open>\<open>post_replicate\<close>: every exception becomes \<open>PeerError\<close>, which counts as no acknowledgement.\<close>

definition post_replicate ::
  "(bytes \<Rightarrow> string) \<Rightarrow> 's replica_target \<Rightarrow> fragment \<Rightarrow> bytes option \<Rightarrow> 's \<Rightarrow> 's \<times> bool result" where
  "post_replicate sha T f blob s =
     (case push sha T f blob False False s of (s1, Inl _) \<Rightarrow> (s1, Inl PeerError) | (s1, Inr ok) \<Rightarrow> (s1, Inr ok))"

definition QuorumReplicator ::
  "fan_schedule \<Rightarrow> (bytes \<Rightarrow> string) \<Rightarrow> ('p \<Rightarrow> 's replica_target) \<Rightarrow> ('p, 'p \<Rightarrow> 's) quorum_attempt" where
  "QuorumReplicator sched sha targets f peers quorum timeout blob w =
     (let (w1, q) = fan_out sched (\<lambda>p. post_replicate sha (targets p) f blob) peers quorum timeout w in (w1, Inr q))"

section \<open>What the handlers promise\<close>

lemma call_peer_keeps:
  assumes h: "\<And>s. P s \<Longrightarrow> P (fst (h s))"
  shows "P s \<Longrightarrow> P (fst (call_peer ds accepts h s))"
proof (induction ds arbitrary: s)
  case (Cons d ds)
  obtain s1 r where hs: "h s = (s1, r)" by fastforce
  have "P s1" using h [OF Cons.prems] hs by simp
  then show ?case using Cons hs by (cases d) (auto split: sum.split)
qed simp

lemma call_peer_answer:
  assumes h: "\<And>s. P s \<Longrightarrow> P (fst (h s))"
  shows "P s \<Longrightarrow> call_peer ds accepts h s = (s', Some (status, body)) \<Longrightarrow>
    \<exists>s0. P s0 \<and> h s0 = (s', Inr (status, body)) \<and> accepts status"
proof (induction ds arbitrary: s)
  case (Cons d ds)
  obtain s1 r where hs: "h s = (s1, r)" by fastforce
  have "P s1" using h [OF Cons.prems(1)] hs by simp
  then show ?case using Cons hs by (cases d) (auto split: sum.splits if_splits)
qed simp

lemma over_wire_keeps:
  assumes "\<And>nd. P nd \<Longrightarrow> P (fst (h nd))" and "P (fst s)"
  shows "P (fst (fst (over_wire accepts h s)))"
proof (cases "snd s")
  case (Cons ds tape)
  then show ?thesis using call_peer_keeps [where P = P and h = h, OF assms]
    by (simp add: over_wire_def case_prod_unfold Let_def)
qed (simp add: over_wire_def assms)

lemma over_wire_answer:
  assumes "\<And>nd. P nd \<Longrightarrow> P (fst (h nd))" and "P (fst s)" and "over_wire accepts h s = (s', Some (status, body))"
  shows "\<exists>nd. P nd \<and> h nd = (fst s', Inr (status, body)) \<and> accepts status"
proof -
  obtain ds tape where tape: "snd s = ds # tape" using assms(3) by (cases "snd s") (auto simp: over_wire_def)
  then have "call_peer ds accepts h (fst s) = (fst s', Some (status, body))"
    using assms(3) by (cases "call_peer ds accepts h (fst s)") (auto simp: over_wire_def)
  from call_peer_answer [where P = P and h = h, OF assms(1,2) this] show ?thesis by blast
qed

lemma wire_round_trip: "valid f \<Longrightarrow> from_dict repr pf (to_dict f) = Inr f"
  using decode_round_trip [of f repr pf] by (simp add: from_dict_def to_dict_def valid_def)

lemma from_dict_valid: "from_dict repr pf d = Inr f \<Longrightarrow> valid f"
  by (auto simp: from_dict_def valid_def split: option.splits if_splits sum.splits dest: decode_fragment_ok)

text \<open>A store that answers True leaves the key resident, with the fragment unless it was there before.\<close>

lemma store_taken:
  assumes inv: "node_inv E nd" and f: "valid f" and st: "store E f p caller scs nd = (nd', Inr True)"
  shows "node_inv E nd' \<and> dict_has (residents nd') (key f) \<and>
    (if dict_has (residents nd) (key f) then residents nd' = residents nd else map_of (residents nd') (key f) = Some f)"
proof (rule store_guarded [OF inv, of f p caller scs])
  fix nd1
  assume g: "store E f p caller scs nd = store_locked E f p nd1" "node_inv E nd1" "frag_table nd1 = frag_table nd"
  have known: "residents nd' = residents nd" if "dict_has (residents nd) (key f)"
    using st g that by (simp add: store_locked_def table_contains_def read_clock_def Let_def store_resident_def) auto
  show ?thesis
    by (rule store_locked_ok [OF g(2) f, of p]) (use st g known in \<open>auto simp: dict_has_def\<close>)
qed (use st in auto)

lemma replicate_body_keeps: "node_inv E nd \<Longrightarrow> node_inv E (fst (replicate_body E payload auth p nd))"
  using store_sound(1) from_dict_valid
  by (fastforce simp: replicate_body_def split: sum.split prod.split dest: arg_cong [where f = fst])

lemma replicate_body_taken:
  assumes "node_inv E nd" and "valid f" and "replicate_body E (to_dict f) auth p nd = (nd', Inr (status, body))"
    and "truthy (dict_get body ''success'' (JBool False))"
  shows "dict_has (residents nd') (key f)"
proof -
  obtain nd1 r where st: "store E f p (caller_tenant auth) (caller_scopes auth) nd = (nd1, r)" by fastforce
  have "r = Inr True \<and> nd' = nd1"
    using assms(3,4)
    by (auto simp: replicate_body_def wire_round_trip [OF assms(2)] st err_def stored_def ok_response_def dict_get_def
        split: if_splits sum.splits)
  then show ?thesis using store_taken [OF assms(1,2)] st by blast
qed

lemma put_blob_body_keeps: "node_inv E nd \<Longrightarrow> node_inv E (fst (put_blob_body sha r data claimed nd))"
  by (simp add: put_blob_body_def Let_def split: sum.split)

lemma put_blob_body_residents: "residents (fst (put_blob_body sha r data claimed nd)) = residents nd"
  by (simp add: put_blob_body_def Let_def split: sum.split)

lemma head_blob_node [simp]: "fst (head_blob sha r nd) = nd"
  by (simp add: head_blob_def split: prod.split)

lemma retrieve_body_keeps: "node_inv E nd \<Longrightarrow> node_inv E (fst (retrieve_body E t h auth nd))"
  by (rule retrieve_ok [of E nd t h "caller_tenant auth" "caller_scopes auth"]) (simp_all add: retrieve_body_def split: option.split)

lemma retrieve_key_resident:
  assumes "node_inv E nd" and "retrieve_key E t k caller scs nd = (nd', Inr (Some f))"
  shows "node_inv E nd' \<and> key f = k \<and> map_of (residents nd') (key f) = Some f"
  by (rule retrieve_key_ok [OF assms(1), of t k caller scs]) (use assms(2) in auto)

lemma retrieve_key_inv:
  assumes "node_inv E nd" and "retrieve_key E t k caller scs nd = (nd', r)"
  shows "node_inv E nd'"
  by (rule retrieve_key_ok [OF assms(1), of t k caller scs]) (use assms(2) in auto)

lemma retrieve_shared_resident:
  assumes inv: "node_inv E nd" and r: "retrieve_shared E t h caller scs nd = (nd', Inr (Some f))"
  shows "map_of (residents nd') (key f) = Some f"
proof -
  obtain nd1 r1 where k: "retrieve_key E t h caller scs nd = (nd1, r1)" by fastforce
  note inv1 = retrieve_key_inv [OF inv k]
  show ?thesis
  proof (cases "retrieve_shared E t h caller scs nd = (nd1, r1)")
    case True
    then have "retrieve_key E t h caller scs nd = (nd', Inr (Some f))" using r k by simp
    then show ?thesis using retrieve_key_resident [OF inv] by blast
  next
    case False
    then obtain other where "retrieve_key E t other caller scs nd1 = (nd', Inr (Some f))"
      using r k by (auto simp: retrieve_shared_def split: sum.splits if_splits option.splits)
    then show ?thesis using retrieve_key_resident [OF inv1] by blast
  qed
qed

text \<open>What is retrieved is resident afterwards, and under the very key that was asked for if that is a tenant's.\<close>

lemma retrieve_resident:
  assumes inv: "node_inv E nd" and r: "retrieve E t h caller scs nd = (nd', Inr (Some f))"
  shows "map_of (residents nd') (key f) = Some f \<and> (KEY_SEPARATOR \<in> set h \<longrightarrow> key f = h) \<and> answers h caller f \<and> valid f"
proof -
  have ans: "answers h caller f \<and> valid f"
    by (rule retrieve_ok [OF inv, of t h caller scs]) (use r in auto)
  show ?thesis
  proof (cases "KEY_SEPARATOR \<in> set h")
    case True
    then have "retrieve_key E t h caller scs nd = (nd', Inr (Some f))" using r by (simp add: retrieve_def)
    then show ?thesis using ans retrieve_key_resident [OF inv] by blast
  next
    case False
    show ?thesis
    proof (cases "caller \<noteq> [] \<and> caller \<noteq> DEFAULT_TENANT")
      case True
      obtain nd1 r1 where k: "retrieve_key E t (fragment_key caller h) caller scs nd = (nd1, r1)" by fastforce
      show ?thesis
      proof (cases "r1 = Inr None")
        case none: True
        then show ?thesis
          using False True r ans k retrieve_shared_resident [OF retrieve_key_inv [OF inv k]] by (simp add: retrieve_def)
      next
        case some: False
        then have "(nd1, r1) = (nd', Inr (Some f))"
          using False True r k by (auto simp: retrieve_def split: sum.splits option.splits)
        then show ?thesis using False ans k retrieve_key_resident [OF inv] by blast
      qed
    next
      case no_caller: False
      then show ?thesis using False r ans retrieve_shared_resident [OF inv] by (auto simp: retrieve_def)
    qed
  qed
qed

section \<open>The contract of a replica\<close>

text \<open>
  What pushing and verifying rely on: a copy that was taken is listed, a digest is that of the
  bytes held, and a lookup that answers names something the replica has.
\<close>

locale replica_contract =
  fixes sha :: "bytes \<Rightarrow> string" and T :: "'s replica_target" and good :: "'s \<Rightarrow> bool"
    and lists :: "'s \<Rightarrow> string \<Rightarrow> bool" and blob :: "'s \<Rightarrow> string \<Rightarrow> bytes option" and found :: "'s \<Rightarrow> string \<Rightarrow> bool"
  assumes good_put: "good s \<Longrightarrow> good (fst (put_blob T r data s))"
    and good_replicate: "good s \<Longrightarrow> good (fst (request_replicate T f p s))"
    and good_digest: "good s \<Longrightarrow> good (fst (blob_digest T r s))"
    and good_retrieve: "good s \<Longrightarrow> good (fst (retrieve_fragment T k s))"
    and replicate_lists: "good s \<Longrightarrow> valid f \<Longrightarrow> request_replicate T f p s = (s', Inr True) \<Longrightarrow> lists s' (key f)"
    and digest_sound: "good s \<Longrightarrow> blob_digest T r s = (s', Inr (Some d)) \<Longrightarrow> \<exists>data. blob s' r = Some data \<and> d = sha data"
    and digest_same: "good s \<Longrightarrow> found (fst (blob_digest T r s)) k = found s k"
    and retrieve_found: "good s \<Longrightarrow> retrieve_fragment T k s = (s', Inr (Some g)) \<Longrightarrow> found s' k"
begin

lemma digest_matches_good: "good s \<Longrightarrow> good (fst (digest_matches sha T r data s))"
  using good_digest [of s r] by (cases "blob_digest T r s") (simp add: digest_matches_def split: sum.split)

lemma push_good: "good s \<Longrightarrow> good (fst (push sha T f payload p skip s))"
proof -
  assume s: "good s"
  have put: "good (fst (case put_blob T r data s1 of (s2, Inl e) \<Rightarrow> (s2, Inl e)
      | (s2, Inr ok) \<Rightarrow> if ok then request_replicate T f p s2 else (s2, Inr False)))" if "good s1" for r data s1
    using good_put [OF that, of r data] good_replicate by (cases "put_blob T r data s1") (simp split: sum.split)
  show "good (fst (push sha T f payload p skip s))"
  proof (cases "\<exists>r data. payload_ref f = Some r \<and> payload = Some data")
    case False
    then show ?thesis using s good_replicate by (auto simp: push_def split: option.split)
  next
    case True
    then obtain r data where rd: "payload_ref f = Some r" "payload = Some data" by blast
    obtain s1 x where d: "(if skip then digest_matches sha T r data s else (s, Inr False)) = (s1, x)" by fastforce
    have "good s1" using s digest_matches_good [OF s, of r data] d by (auto split: if_splits)
    then show ?thesis using put good_replicate by (simp add: push_def rd d split: sum.split)
  qed
qed

lemma push_lists:
  assumes s: "good s" and f: "valid f" and ok: "push sha T f payload p skip s = (s', Inr True)"
  shows "lists s' (key f)"
proof -
  have "\<exists>s1. good s1 \<and> request_replicate T f p s1 = (s', Inr True)"
  proof (cases "\<exists>r data. payload_ref f = Some r \<and> payload = Some data")
    case False
    then show ?thesis using s ok by (auto simp: push_def split: option.splits)
  next
    case True
    then obtain r data where rd: "payload_ref f = Some r" "payload = Some data" by blast
    obtain s1 x where d: "(if skip then digest_matches sha T r data s else (s, Inr False)) = (s1, x)" by fastforce
    have s1: "good s1" using s digest_matches_good [OF s, of r data] d by (auto split: if_splits)
    obtain s2 y where u: "put_blob T r data s1 = (s2, y)" by fastforce
    have s2: "good s2" using good_put [OF s1, of r data] u by simp
    show ?thesis using ok s1 s2 by (auto simp: push_def rd d u split: sum.splits if_splits)
  qed
  then show ?thesis using replicate_lists f by blast
qed

lemma digest_matches_sound:
  assumes "good s" and "digest_matches sha T r data s = (s', Inr True)"
  shows "\<exists>held. blob s' r = Some held \<and> sha held = sha data"
proof -
  have "blob_digest T r s = (s', Inr (Some (sha data)))"
    using assms(2) by (auto simp: digest_matches_def split: prod.splits sum.splits)
  then show ?thesis using digest_sound [OF assms(1)] by fastforce
qed

lemma verify_sound:
  assumes s: "good s" and ok: "verify_replica sha T f payload s = (s', Inr True)"
  shows "found s' (key f) \<and>
    (\<forall>r. payload_ref f = Some r \<longrightarrow> (\<exists>data held. payload = Some data \<and> blob s' r = Some held \<and> sha held = sha data))"
proof -
  obtain s1 g where r: "retrieve_fragment T (key f) s = (s1, Inr (Some g))"
    using ok by (auto simp: verify_replica_def split: prod.splits sum.splits option.splits)
  have s1: "good s1" "found s1 (key f)" using good_retrieve [OF s, of "key f"] retrieve_found [OF s r] r by simp_all
  show ?thesis
  proof (cases "payload_ref f")
    case None
    then show ?thesis using ok r s1 by (simp add: verify_replica_def)
  next
    case (Some ref)
    then obtain data where d: "payload = Some data" "digest_matches sha T ref data s1 = (s', Inr True)"
      using ok r by (auto simp: verify_replica_def split: option.splits)
    have "s' = fst (blob_digest T ref s1)"
      using d(2) by (auto simp: digest_matches_def split: prod.splits sum.splits)
    then show ?thesis using digest_matches_sound [OF s1(1) d(2)] digest_same [OF s1(1)] s1(2) d(1) Some by simp
  qed
qed

lemma hand_off_sound:
  assumes "good s" and "hand_off_primary sha T f payload s = (s', Inr True)"
  shows "found s' (key f) \<and>
    (\<forall>r. payload_ref f = Some r \<longrightarrow> (\<exists>data held. payload = Some data \<and> blob s' r = Some held \<and> sha held = sha data))"
proof -
  obtain s1 where p: "push sha T f payload True True s = (s1, Inr True)" "verify_replica sha T f payload s1 = (s', Inr True)"
    using assms(2) by (auto simp: hand_off_primary_def split: prod.splits sum.splits if_splits)
  have "good s1" using push_good [OF assms(1), of f payload True True] p(1) by simp
  from verify_sound [OF this p(2)] show ?thesis .
qed

end

definition site_lists :: "peer_site \<Rightarrow> string \<Rightarrow> bool" where
  "site_lists s k \<longleftrightarrow> dict_has (residents (fst s)) k"

definition site_blob :: "peer_site \<Rightarrow> string \<Rightarrow> bytes option" where
  "site_blob s r = content_get (content_store (fst s)) r"

definition site_answers :: "caller \<Rightarrow> peer_site \<Rightarrow> string \<Rightarrow> bool" where
  "site_answers auth s k \<longleftrightarrow> (\<exists>g. map_of (residents (fst s)) (key g) = Some g \<and>
     answers k (caller_tenant auth) g \<and> (KEY_SEPARATOR \<in> set k \<longrightarrow> key g = k))"

lemma head_blob_same: "fst (over_wire accepts (head_blob sha r) s) = (fst s, snd (fst (over_wire accepts (head_blob sha r) s)))"
  using over_wire_keeps [where P = "\<lambda>nd. nd = fst s" and h = "head_blob sha r" and s = s and accepts = accepts]
  by (simp add: prod_eq_iff)

lemma peer_digest_node: "fst (fst (peer_blob_digest sha r s)) = fst s"
  using head_blob_same [of raw_status sha r s] by (simp add: peer_blob_digest_def case_prod_unfold Let_def prod_eq_iff)

lemma peer_digest_sound:
  assumes "peer_blob_digest sha r s = (s', Inr (Some d))"
  shows "\<exists>data. site_blob s' r = Some data \<and> d = sha data"
proof -
  obtain s1 status where w: "over_wire raw_status (head_blob sha r) s = (s1, Some (status, Some d))" "s' = s1"
    using assms by (auto simp: peer_blob_digest_def case_prod_unfold Let_def prod_eq_iff split: option.splits if_splits)
  obtain nd where "head_blob sha r nd = (fst s1, Inr (status, Some d))"
    using over_wire_answer [where P = "\<lambda>_. True", OF _ _ w(1)] by auto
  then show ?thesis
    using w(2) by (auto simp: head_blob_def op_get_blob_def site_blob_def split: if_splits option.splits)
qed

lemma peer_replicate_lists:
  assumes "node_inv E (fst s)" and "valid f" and "peer_request_replicate E auth f p s = (s', Inr True)"
  shows "site_lists s' (key f)"
proof -
  obtain s1 resp where w: "over_wire json_status (replicate_body E (to_dict f) auth p) s = (s1, resp)" by fastforce
  then obtain status body where r: "resp = Some (status, body)" "truthy (dict_get body ''success'' (JBool False))" "s' = s1"
    using assms(3) by (auto simp: peer_request_replicate_def body_flag_def split: option.splits)
  obtain nd where "node_inv E nd" "replicate_body E (to_dict f) auth p nd = (fst s1, Inr (status, body))"
    using over_wire_answer [where P = "node_inv E", OF _ assms(1) w [unfolded r(1)]] replicate_body_keeps by blast
  from replicate_body_taken [OF this(1) assms(2) this(2) r(2)] show ?thesis using r(3) by (simp add: site_lists_def)
qed

lemma peer_retrieve_found:
  assumes inv: "node_inv E (fst s)" and ret: "peer_retrieve_fragment E t auth k s = (s', Inr (Some g))"
  shows "site_answers auth s' k"
proof -
  obtain s1 resp where w: "over_wire json_status (retrieve_body E t k auth) s = (s1, resp)" by fastforce
  then obtain status body where r: "resp = Some (status, body)" "found_fragment E body = Inr (Some g)" "s' = s1"
    using ret by (auto simp: peer_retrieve_fragment_def split: option.splits)
  obtain nd where nd: "node_inv E nd" "retrieve_body E t k auth nd = (fst s1, Inr (status, body))"
    using over_wire_answer [where P = "node_inv E", OF _ inv w [unfolded r(1)]] retrieve_body_keeps by blast
  have "truthy (dict_get body ''found'' JNull)" using r(2) by (auto simp: found_fragment_def split: if_splits)
  then obtain f where "retrieve E t k (caller_tenant auth) (caller_scopes auth) nd = (fst s1, Inr (Some f))"
    using nd(2)
    by (auto simp: retrieve_body_def not_found_def ok_response_def dict_get_def split: prod.splits sum.splits option.splits if_splits)
  from retrieve_resident [OF nd(1) this] show ?thesis using r(3) by (auto simp: site_answers_def)
qed

interpretation peer_replica: replica_contract sha "peer_target E sha t auth" "\<lambda>s. node_inv E (fst s)"
  site_lists site_blob "site_answers auth" for sha E t auth
proof
  show "node_inv E (fst (fst (put_blob (peer_target E sha t auth) r data s)))" if "node_inv E (fst s)" for r data s
    using over_wire_keeps [where P = "node_inv E", OF put_blob_body_keeps that]
    by (simp add: peer_target_def peer_put_blob_def case_prod_unfold Let_def)
  show "node_inv E (fst (fst (request_replicate (peer_target E sha t auth) f p s)))" if "node_inv E (fst s)" for f p s
    using over_wire_keeps [where P = "node_inv E", OF replicate_body_keeps that]
    by (simp add: peer_target_def peer_request_replicate_def case_prod_unfold Let_def)
  show "node_inv E (fst (fst (retrieve_fragment (peer_target E sha t auth) k s)))" if "node_inv E (fst s)" for k s
    using over_wire_keeps [where P = "node_inv E", OF retrieve_body_keeps that]
    by (simp add: peer_target_def peer_retrieve_fragment_def case_prod_unfold Let_def)
  show "site_answers auth (fst (blob_digest (peer_target E sha t auth) r s)) k = site_answers auth s k" for r s k
    by (simp add: peer_target_def peer_digest_node site_answers_def)
qed (simp_all add: peer_target_def peer_digest_node peer_replicate_lists peer_digest_sound peer_retrieve_found)

section \<open>Counting acknowledgements\<close>

lemma acks_in_split: "acks_in outs pending = acks_in outs (completed \<inter> pending) \<union> acks_in outs (pending - completed)"
  by (auto simp: acks_in_def)

lemma acks_in_finite: "finite (acks_in outs I)"
  by (rule finite_subset [of _ "{..<length outs}"]) (auto simp: acks_in_def)

lemma ack_loop_bound: "ack_loop quorum deadline outs pending acks ws \<le> acks + int (card (acks_in outs pending))"
proof (induction ws arbitrary: pending acks)
  case (Cons w ws)
  obtain t completed where w: "w = (t, completed)" by fastforce
  have "card (acks_in outs pending) = card (acks_in outs (completed \<inter> pending)) + card (acks_in outs (pending - completed))"
    unfolding acks_in_split [of outs pending completed]
    by (intro card_Un_disjoint acks_in_finite) (auto simp: acks_in_def)
  then show ?case
    using Cons.IH [of "pending - completed" "acks + int (card (acks_in outs (completed \<inter> pending)))"] by (simp add: w)
qed simp

lemma run_tasks_spec:
  assumes "distinct ps" and "run_tasks task started i ps w = (w1, outs)"
  shows "length outs = length ps \<and> (\<forall>p. p \<notin> set ps \<longrightarrow> w1 p = w p) \<and>
    (\<forall>j r. j < length ps \<longrightarrow> outs ! j = Some r \<longrightarrow> task (ps ! j) (w (ps ! j)) = (w1 (ps ! j), r))"
  using assms
proof (induction ps arbitrary: i w w1 outs)
  case (Cons p ps)
  define v where "v = (if i \<in> started then w(p := fst (task p (w p))) else w)"
  define out0 where "out0 = (if i \<in> started then Some (snd (task p (w p))) else None)"
  obtain w2 rs where rest: "run_tasks task started (Suc i) ps v = (w2, rs)" by fastforce
  have eq: "w1 = w2" "outs = out0 # rs"
    using Cons.prems(2) rest by (auto simp: v_def out0_def case_prod_unfold Let_def split: if_splits)
  have p: "p \<notin> set ps" "distinct ps" using Cons.prems(1) by simp_all
  note ih = Cons.IH [OF p(2) rest]
  have wp: "w2 p = v p" using ih p(1) by blast
  have "task ((p # ps) ! j) (w ((p # ps) ! j)) = (w1 ((p # ps) ! j), r)" if "j < length (p # ps)" "outs ! j = Some r" for j r
  proof (cases j)
    case 0
    then show ?thesis using that(2) wp eq by (auto simp: out0_def v_def prod_eq_iff split: if_splits)
  next
    case (Suc k)
    then have "ps ! k \<noteq> p" using that(1) p(1) by auto
    then have same: "v (ps ! k) = w (ps ! k)" by (simp add: v_def)
    have "task (ps ! k) (v (ps ! k)) = (w2 (ps ! k), r)" using ih that Suc eq by simp
    then show ?thesis using same Suc eq by simp
  qed
  then show ?case using ih eq p(1) by (auto simp: v_def)
qed simp

lemma fan_out_success:
  assumes "distinct peers" and "fan_out sched task peers quorum timeout w = (w1, q)" and "success q"
  shows "\<exists>P\<subseteq>set peers. quorum \<le> int (card P) \<and> (\<forall>p\<in>P. task p (w p) = (w1 p, Inr True))"
proof -
  obtain w2 outs where run: "run_tasks task (running sched) 0 peers w = (w2, outs)" by fastforce
  have ok: "quorum \<le> ack_loop quorum (started_at sched + timeout) outs (set [0..<length peers]) 0 (waits sched)" "w1 = w2"
    using assms(2,3) run by (auto simp: fan_out_def Let_def split: if_splits)
  let ?A = "acks_in outs (set [0..<length peers])"
  note spec = run_tasks_spec [OF assms(1) run]
  have "inj_on ((!) peers) ?A" using assms(1) by (auto simp: inj_on_def acks_in_def nth_eq_iff_index_eq)
  then have card: "card ((!) peers ` ?A) = card ?A" by (rule card_image)
  show ?thesis
  proof (intro exI conjI ballI)
    show "(!) peers ` ?A \<subseteq> set peers" by (auto simp: acks_in_def)
    show "quorum \<le> int (card ((!) peers ` ?A))"
      using ok(1) ack_loop_bound [of quorum "started_at sched + timeout" outs "(set [0..<length peers])" 0 "waits sched"]
      unfolding card by linarith
    show "task p (w p) = (w1 p, Inr True)" if "p \<in> (!) peers ` ?A" for p
      using that spec ok(2) by (auto simp: acks_in_def)
  qed
qed

lemma map_filter_append: "List.map_filter f (xs @ ys) = List.map_filter f xs @ List.map_filter f ys"
  by (simp add: List.map_filter_def)

lemma set_map_filter: "set (List.map_filter f xs) = {y. \<exists>x\<in>set xs. f x = Some y}"
  by (force simp: List.map_filter_def image_iff)

lemma distinct_map_filter: "distinct (List.map_filter f xs) \<Longrightarrow> distinct (List.map_filter f (filter P xs))"
proof (induction xs)
  case (Cons x xs)
  have c: "List.map_filter f (y # ys) = (case f y of None \<Rightarrow> [] | Some z \<Rightarrow> [z]) @ List.map_filter f ys" for y ys
    by (simp add: List.map_filter_def split: option.split)
  show ?case using Cons by (cases "f x") (auto simp: c set_map_filter)
qed simp

lemma distinct_map_filter_slice: "distinct (List.map_filter f xs) \<Longrightarrow> distinct (List.map_filter f (slice_to n xs))"
proof -
  assume d: "distinct (List.map_filter f xs)"
  have "distinct (List.map_filter f (take k xs))" for k
    using d map_filter_append [of f "take k xs" "drop k xs"] by simp
  then show ?thesis by (simp add: slice_to_def)
qed

lemma set_slice_to: "set (slice_to n xs) \<subseteq> set xs"
  by (auto simp: slice_to_def dest: in_set_takeD)

definition cluster_clients :: "'p cluster_view \<Rightarrow> 'p list" where
  "cluster_clients cl = List.map_filter (client_of cl) (healthy_peers cl)"

lemma select_replica_peers_ok:
  assumes "distinct (cluster_clients cl)"
  shows "distinct (select_replica_peers cl n)" "set (select_replica_peers cl n) \<subseteq> set (cluster_clients cl)"
proof -
  show "distinct (select_replica_peers cl n)"
    using assms by (simp add: cluster_clients_def select_replica_peers_def distinct_map_filter distinct_map_filter_slice)
  show "set (select_replica_peers cl n) \<subseteq> set (cluster_clients cl)"
    using set_slice_to by (fastforce simp: cluster_clients_def select_replica_peers_def set_map_filter)
qed

section \<open>Properties\<close>

text \<open>States that a node reaches by a history of its operations.\<close>

definition reachable_node :: "node_env \<Rightarrow> node \<Rightarrow> bool" where
  "reachable_node E nd \<longleftrightarrow> (\<exists>tier hooked i m measured adm qs tp fr strategy ops.
     nd = foldl (node_step E) (start_node E tier hooked (Node i m measured adm qs tp fr strategy)) ops)"

lemma reachable_inv: "reachable_node E nd \<Longrightarrow> node_inv E nd"
  unfolding reachable_node_def by (elim exE) (simp add: node_run_ok(1) [OF refl])

lemma effective_fragment_valid:
  assumes "valid f0" and "effective_fragment view f0 = Inr f"
  shows "valid f"
proof (cases "f = f0")
  case False
  then have "\<exists>c. with_consistency f0 c = Inr f" using assms(2)
    by (auto simp: effective_fragment_def split: option.splits if_splits)
  then show ?thesis using assms(1) by (auto simp: with_consistency_def valid_def split: if_splits)
qed (use assms in simp)

lemma written_valid: "bind_result (from_dict repr pf payload) (effective_fragment view) = Inr f \<Longrightarrow> valid f"
  by (auto simp: bind_result_eq_Inr intro: effective_fragment_valid from_dict_valid)

lemma post_replicate_lists:
  assumes "node_inv E (fst s)" and "valid f" and "post_replicate sha (peer_target E sha t auth) f blob s = (s', Inr True)"
  shows "site_lists s' (key f)"
proof -
  have "push sha (peer_target E sha t auth) f blob False False s = (s', Inr True)"
    using assms(3) by (auto simp: post_replicate_def split: prod.splits sum.splits)
  then show ?thesis by (rule peer_replica.push_lists [OF assms(1,2)])
qed

text \<open>The quorum phase: what it does to the peers when it answers, and to the local copy when it refuses.\<close>

lemma quorum_phase_answer:
  assumes inv: "\<And>p. node_inv (envs p) (fst (remote site p))" and f: "valid f" and d: "distinct (cluster_clients cl)"
    and q: "quorum_phase E cl (QuorumReplicator sched sha (\<lambda>p. peer_target (envs p) sha 0 auth)) f existed site = (site', (200, body))"
  shows "local_node site' = local_node site \<and> (\<exists>P\<subseteq>set (cluster_clients cl). quorum_count (view_config cl) \<le> 1 + int (card P) \<and>
    (\<forall>p\<in>P. site_lists (remote site' p) (key f)))"
proof (cases "quorum_count (view_config cl) - 1 \<le> 0")
  case True
  then have "local_node site' = local_node site" using q by (simp add: quorum_phase_def)
  then show ?thesis using True by (intro conjI exI [of _ "{}"]) simp_all
next
  case False
  let ?required = "quorum_count (view_config cl) - 1"
  let ?peers = "select_replica_peers cl (max ?required (cfg_replica_count (view_config cl)))"
  let ?blob = "case payload_ref f of None \<Rightarrow> None | Some r \<Rightarrow> content_get (content_store (local_node site)) r"
  let ?task = "\<lambda>p. post_replicate sha (peer_target (envs p) sha 0 auth) f ?blob"
  obtain w qr where fo: "fan_out sched ?task ?peers ?required (cluster_quorum_timeout_sec (view_config cl)) (remote site) = (w, qr)"
    by fastforce
  have site': "success qr" "site' = site\<lparr>remote := w\<rparr>"
    using q False fo by (auto simp: quorum_phase_def Let_def QuorumReplicator_def quorum_error_def split: if_splits)
  obtain P where P: "P \<subseteq> set ?peers" "?required \<le> int (card P)" "\<forall>p\<in>P. ?task p (remote site p) = (w p, Inr True)"
    using fan_out_success [OF select_replica_peers_ok(1) [OF d] fo site'(1)] by blast
  have "site_lists (w p) (key f)" if "p \<in> P" for p
    using post_replicate_lists [OF inv f] P(3) that by blast
  then show ?thesis
    using P(1,2) select_replica_peers_ok(2) [OF d] site'(2) by (intro conjI exI [of _ P]) auto
qed

text \<open>The parts of a store that was answered with status 200 and success.\<close>

lemma op_store_success:
  assumes f: "bind_result (from_dict (json_repr E) (parse_float E) payload) (effective_fragment (Some cl)) = Inr f"
    and c: "consistency f \<noteq> ''eventual''"
    and ok: "op_store E (Some cl) (Some attempt) draining auth guard payload prim site = (site', Inr (200, body))"
      "map_of body ''success'' = Some (JBool True)"
  shows "\<exists>nd counts existed. store E f prim (caller_tenant auth) (caller_scopes auth) (local_node site) = (nd, Inr True) \<and>
    quorum_phase E cl attempt f existed (site\<lparr>local_node := nd, operation_count := counts\<rparr>) = (site', (200, body))"
proof -
  have st: "store_fragment E (Some cl) (Some attempt) auth guard prim f site = (site', Inr (200, body))"
    using ok(1) f by (simp add: op_store_def split: if_splits)
  obtain nd r where store: "store E f prim (caller_tenant auth) (caller_scopes auth) (local_node site) = (nd, r)" by fastforce
  have none: "store_refusal guard (local_node site) f = None"
  proof (rule ccontr)
    assume "store_refusal guard (local_node site) f \<noteq> None"
    then obtain resp where r: "store_refusal guard (local_node site) f = Some resp" by blast
    then have "map_of (snd resp) ''success'' = None"
      by (auto simp: store_refusal_def err_def split: if_splits option.splits)
    moreover have "resp = (200, body)" using st r by (simp add: store_fragment_def)
    ultimately show False using ok(2) by simp
  qed
  have "r = Inr True"
    using st none store ok(2)
    by (auto simp: store_fragment_def Let_def err_def stored_def ok_response_def split: sum.splits bool.splits if_splits)
  then show ?thesis using st none store c
    by (auto simp: store_fragment_def Let_def split: prod.splits)
qed


text \<open>
  C8. A refused write leaves no local trace: when the quorum is not met, the local node holds the key
  afterwards exactly if it held it before, and then with the fragments it had, whatever the fan-out did.
\<close>

theorem refused_write_rolled_back:
  assumes "reachable_node E (local_node site)"
    and "bind_result (from_dict (json_repr E) (parse_float E) payload) (effective_fragment (Some cl)) = Inr f"
    and "op_store E (Some cl) (Some attempt) False auth guard payload prim site = (site', Inr (503, body))"
    and "map_of body ''required'' \<noteq> None"
  shows "dict_has (residents (local_node site')) (key f) = dict_has (residents (local_node site)) (key f) \<and>
    (dict_has (residents (local_node site)) (key f) \<longrightarrow> residents (local_node site') = residents (local_node site))"
proof -
  have f: "valid f" using assms(2) by (rule written_valid)
  let ?nd = "local_node site"
  let ?existed = "table_contains (frag_table ?nd) (key f)"
  have sf: "store_fragment E (Some cl) (Some attempt) auth guard prim f site = (site', Inr (503, body))"
    using assms(3) by (simp add: op_store_def assms(2) del: bind_result_eq_Inr)
  obtain nd r where store: "store E f prim (caller_tenant auth) (caller_scopes auth) ?nd = (nd, r)" by fastforce
  have none: "store_refusal guard ?nd f = None"
    using sf assms(4) by (auto simp: store_fragment_def store_refusal_def err_def split: option.splits if_splits)
  have r: "r = Inr True"
    using sf none store assms(4)
    by (auto simp: store_fragment_def Let_def err_def stored_def ok_response_def split: sum.splits bool.splits if_splits)
  note taken = store_taken [OF reachable_inv [OF assms(1)] f store [unfolded r]]
  let ?site1 = "site\<lparr>local_node := nd, operation_count := map_option (bump_operation (tenant_id f) 1) (operation_count site)\<rparr>"
  have q: "quorum_phase E cl attempt f ?existed ?site1 = (site', (503, body))"
    using sf none store r by (auto simp: store_fragment_def Let_def stored_def ok_response_def split: if_splits prod.splits)
  have "local_node site' = rollback_local_write E (key f) ?existed nd"
    using q assms(4)
    by (auto simp: quorum_phase_def Let_def stored_def ok_response_def quorum_error_def split: if_splits prod.splits sum.splits)
  moreover have "residents (fst (remove_fragment E (key f) nd)) = dict_del (residents nd) (key f)"
    if "map_of (residents nd) (key f) = Some g" for g
    by (rule remove_fragment_ok [OF _ that]) (use taken in auto)
  ultimately show ?thesis
    using taken by (auto simp: rollback_local_write_def table_contains_def split: if_splits)
qed

definition sample_view :: "string cluster_view" where
  "sample_view = \<lparr>view_config = \<lparr>default_consistency = ''strong'', quorum_count = 3, cluster_quorum_timeout_sec = 5, cfg_replica_count = 2\<rparr>,
     view_node_id = ''n'', healthy_peers = [''p'', ''q''], client_of = Some\<rparr>"

definition sample_node :: node where
  "sample_node = foldl (node_step sample_env) (start_node sample_env None False (Node ''n'' 100 False None [] None None None))
     [PayloadOp ''ab12'' ''pay'']"

definition empty_node :: node where
  "empty_node = start_node sample_env None False (Node ''m'' 100 False None [] None None None)"

definition sample_site :: "delivery list list \<Rightarrow> (string \<Rightarrow> peer_site) site" where
  "sample_site tape = \<lparr>local_node = sample_node, operation_count = None,
     remote = (\<lambda>p. (empty_node, if p = ''p'' then [[Delivered], [Delivered]] else tape))\<rparr>"

definition sample_schedule :: fan_schedule where
  "sample_schedule = \<lparr>started_at = 0, waits = [(1, {0}), (2, {1})], running = {0, 1}, ended_at = 3\<rparr>"

definition sample_store :: "delivery list list \<Rightarrow> (string \<Rightarrow> peer_site) site \<times> response result" where
  "sample_store tape = op_store sample_env (Some sample_view)
     (Some (QuorumReplicator sample_schedule (\<lambda>b. b) (\<lambda>p. peer_target sample_env (\<lambda>b. b) 0 None)))
     False None None (to_dict (sample_fragment ''acme'' 1)) True (sample_site tape)"

lemma sample_reachable: "reachable_node sample_env sample_node" "reachable_node sample_env empty_node"
  unfolding reachable_node_def sample_node_def empty_node_def by (intro exI, rule refl, intro exI, rule foldl.simps(1) [symmetric])


theorem refused_write_rolled_back_witness:
  "snd (sample_store []) = Inr (503, [(''error'', JStr ''quorum not met''), (''ack_count'', JInt 1), (''required'', JInt 3), (''Retry-After'', JInt 1)]) \<and>
   \<not> dict_has (residents (local_node (fst (sample_store [])))) (key (sample_fragment ''acme'' 1))"
proof -
  let ?body = "[(''error'', JStr ''quorum not met''), (''ack_count'', JInt 1), (''required'', JInt 3), (''Retry-After'', JInt 1)]"
  have answer: "snd (sample_store []) = Inr (503, ?body)" by code_simp
  then have run: "sample_store [] = (fst (sample_store []), Inr (503, ?body))" by (metis prod.collapse)
  have dec: "bind_result (from_dict (json_repr sample_env) (parse_float sample_env) (to_dict (sample_fragment ''acme'' 1)))
      (effective_fragment (Some sample_view)) = Inr (sample_fragment ''acme'' 1)"
    by (simp add: wire_round_trip valid_def sample_ok effective_fragment_def sample_view_def)
  have new: "\<not> dict_has (residents sample_node) (key (sample_fragment ''acme'' 1))" by code_simp
  show ?thesis
    using refused_write_rolled_back [OF _ dec, of "sample_site []" _ None None True "fst (sample_store [])" ?body] run new answer
    unfolding sample_store_def by (simp add: sample_site_def sample_reachable)
qed


text \<open>
  C10. A hand-over that is reported as done is verified: whatever the link loses, the peer then answers the
  key with a fragment it holds, which is the fragment's own key for a tenant's fragment, and the bytes it
  holds under the payload reference have the digest of the bytes that were handed over.
\<close>

theorem hand_off_verified:
  assumes "reachable_node E (fst s)"
    and "hand_off_primary sha (peer_target E sha t auth) f payload s = (s', Inr True)"
  shows "(\<exists>g. map_of (residents (fst s')) (key g) = Some g \<and> answers (key f) (caller_tenant auth) g \<and>
      (KEY_SEPARATOR \<in> set (key f) \<longrightarrow> key g = key f)) \<and>
    (\<forall>r. payload_ref f = Some r \<longrightarrow> (\<exists>data held. payload = Some data \<and>
      content_get (content_store (fst s')) r = Some held \<and> sha held = sha data))"
  using peer_replica.hand_off_sound [OF reachable_inv [OF assms(1)] assms(2)]
  by (simp add: site_answers_def site_blob_def)

theorem hand_off_verified_witness:
  "\<exists>s' g. hand_off_primary (\<lambda>b. b) (peer_target sample_env (\<lambda>b. b) 0 None) (sample_fragment ''acme'' 1) (Some ''pay'')
      (empty_node, replicate 5 [Delivered]) = (s', Inr True) \<and>
     map_of (residents (fst s')) (key g) = Some g \<and> key g = ''acme:ab12'' \<and> content_get (content_store (fst s')) ''ab12'' = Some ''pay''"
proof -
  let ?run = "hand_off_primary (\<lambda>b. b) (peer_target sample_env (\<lambda>b. b) 0 None) (sample_fragment ''acme'' 1) (Some ''pay'')
      (empty_node, replicate 5 [Delivered])"
  have "snd ?run = Inr True" by code_simp
  then obtain s' where s': "?run = (s', Inr True)" by (metis prod.collapse)
  have k: "key (sample_fragment ''acme'' 1) = ''acme:ab12''" "KEY_SEPARATOR \<in> set ''acme:ab12''"
    "payload_ref (sample_fragment ''acme'' 1) = Some ''ab12''" by code_simp+
  have r: "reachable_node sample_env (fst (empty_node, replicate 5 [Delivered]))" by (simp add: sample_reachable)
  note v = hand_off_verified [OF r s', unfolded k(1,3)]
  obtain g where g: "map_of (residents (fst s')) (key g) = Some g" "key g = ''acme:ab12''" using v k(2) by metis
  have "content_get (content_store (fst s')) ''ab12'' = Some ''pay''" using v by fastforce
  then show ?thesis using s' g by blast
qed

text \<open>
  C11. A replicated newer version is acknowledged and not applied: when the receiving node already holds the
  key, a replicate request that is answered with success leaves its resident fragments as they were,
  whatever version was sent.
\<close>

theorem replicated_version_not_applied:
  assumes "reachable_node E nd" and "fragment_ok f" and "identity_ok (identity f)"
    and "dict_has (residents nd) (key f)"
    and "replicate_body E (to_dict f) auth prim nd = (nd', Inr (200, body))"
    and "map_of body ''success'' = Some (JBool True)"
  shows "residents nd' = residents nd"
proof -
  have f: "valid f" using assms(2,3) by (simp add: valid_def)
  obtain nd1 r where st: "store E f prim (caller_tenant auth) (caller_scopes auth) nd = (nd1, r)" by fastforce
  have "r = Inr True \<and> nd' = nd1"
    using assms(5,6)
    by (auto simp: replicate_body_def wire_round_trip [OF f] st err_def stored_def ok_response_def split: if_splits sum.splits)
  then show ?thesis using store_taken [OF reachable_inv [OF assms(1)] f] st assms(4) by (metis (full_types))
qed

definition first_version_node :: node where
  "first_version_node = foldl (node_step sample_env) (start_node sample_env None False (Node ''n'' 100 False None [] None None None))
     [PayloadOp ''ab12'' ''pay'', StoreOp (sample_fragment ''acme'' 1) True [] {}]"

theorem replicated_version_not_applied_witness:
  "\<exists>nd' body. replicate_body sample_env (to_dict (sample_fragment ''acme'' 2)) None False first_version_node = (nd', Inr (200, body)) \<and>
     map_of body ''success'' = Some (JBool True) \<and> residents nd' = residents first_version_node \<and>
     map_of (residents first_version_node) ''acme:ab12'' = Some (sample_fragment ''acme'' 1)"
proof -
  let ?run = "replicate_body sample_env (to_dict (sample_fragment ''acme'' 2)) None False first_version_node"
  have "snd ?run = Inr (200, [(''success'', JBool True), (''content_hash'', JStr ''ab12'')])" by code_simp
  then obtain nd' where nd': "?run = (nd', Inr (200, [(''success'', JBool True), (''content_hash'', JStr ''ab12'')]))"
    by (metis prod.collapse)
  have ok: "fragment_ok (sample_fragment ''acme'' 2)"
    by (simp add: sample_fragment_def fragment_ok_def tenant_ok_def forbidden_tenant_chars_def CONSISTENCY_LEVELS_def)
  have held: "map_of (residents first_version_node) ''acme:ab12'' = Some (sample_fragment ''acme'' 1)" by code_simp
  have key: "key (sample_fragment ''acme'' 2) = ''acme:ab12''" by code_simp
  have "reachable_node sample_env first_version_node"
    unfolding reachable_node_def first_version_node_def by (intro exI, rule refl)
  from replicated_version_not_applied [OF this ok sample_ok(2) _ nd'] held key nd' show ?thesis by (simp add: dict_has_def)
qed

text \<open>
  The verification of received bytes does not compare them: for a resident fragment whose size matches, the
  handler answers success for every digest the caller claims.
\<close>

theorem verify_accepts_any_digest:
  assumes "map_of (residents nd) h = Some f"
  shows "map_of (snd (op_verify_received sha h (payload_size f) claimed (Some nd))) ''success'' = Some (JBool True)"
  using assms by (simp add: op_verify_received_def ok_response_def split: option.split)

theorem verify_accepts_any_digest_witness:
  "map_of (snd (op_verify_received (\<lambda>b. b) ''acme:ab12'' 64 ''other bytes'' (Some first_version_node))) ''success'' = Some (JBool True) \<and>
   content_get (content_store first_version_node) ''ab12'' = Some ''pay''"
proof -
  have f: "map_of (residents first_version_node) ''acme:ab12'' = Some (sample_fragment ''acme'' 1)" by code_simp
  have "content_get (content_store first_version_node) ''ab12'' = Some ''pay''" by code_simp
  then show ?thesis using verify_accepts_any_digest [OF f, of "\<lambda>b. b" "''other bytes''"] by (simp add: sample_fragment_def)
qed

text \<open>
  A push is acknowledged over foreign bytes: when the peer holds other bytes under the payload reference, the
  upload is answered as stored and the fragment is taken, so the replica lists the fragment with bytes that
  are not its payload.
\<close>

theorem push_keeps_foreign_bytes:
  "let peer = foldl (node_step sample_env) empty_node [PayloadOp ''ab12'' ''other''];
       (s', answer) = push (\<lambda>b. b) (peer_target sample_env (\<lambda>b. b) 0 None) (sample_fragment ''acme'' 1) (Some ''pay'') False False
                        (peer, [[Delivered], [Delivered]]) in
     answer = Inr True \<and> dict_has (residents (fst s')) (key (sample_fragment ''acme'' 1)) \<and>
     content_get (content_store (fst s')) ''ab12'' = Some ''other''"
  by code_simp

end
