(* ===== verification/Inventory.thy ===== *)
theory Inventory
  imports Ops
begin

text \<open>
  Exchanging inventories: the paged \<open>GET /inventory\<close> and \<open>GET /inventory/buckets\<close> handlers of
  \<^verbatim>\<open>transport/ops.py\<close>, the client loops of \<^verbatim>\<open>network/peer.py\<close> that collect the pages, and the delta plan of
  \<^verbatim>\<open>sync.py\<close>. The client loops are partial functions: \<open>None\<close> is a loop that does not return, \<open>Some None\<close> a
  page that could not be fetched. Against an honest node they are shown to return the exact inventory.
\<close>

section \<open>The handlers\<close>

definition dict_update :: "('k, 'v) dict \<Rightarrow> ('k, 'v) dict \<Rightarrow> ('k, 'v) dict" where
  "dict_update d es = foldl (\<lambda>d (k, v). dict_set d k v) d es"

function inventory_loop ::
  "inventory_digest \<Rightarrow> int \<Rightarrow> nat \<Rightarrow> string \<Rightarrow> (string, int) dict \<Rightarrow> (string, int) dict \<times> string" where
  "inventory_loop d limit current last_seen pg =
     (if current < BUCKETS
      then let (entries, more) = page current last_seen (limit - int (length pg)) d;
               pg1 = dict_update pg entries
           in if more \<noteq> [] then (pg1, encode_cursor current more)
              else if int (length pg1) \<ge> limit
              then (pg1, if Suc current < BUCKETS then encode_cursor (Suc current) [] else [])
              else inventory_loop d limit (Suc current) [] pg1
      else (pg, []))"
  by pat_completeness auto
termination by (relation "measure (\<lambda>(d, limit, current, last_seen, pg). BUCKETS - current)") auto

definition versions_json :: "(string, int) dict \<Rightarrow> json" where
  "versions_json d = JObj (map (\<lambda>(h, v). (h, JInt v)) d)"

definition op_inventory :: "string \<Rightarrow> int \<Rightarrow> int option \<Rightarrow> node option \<Rightarrow> response" where
  "op_inventory after_cursor limit bucket server =
     (case server of
        None \<Rightarrow> ok_response [(''node_id'', JStr []), (''digest'', JObj []), (''next'', JStr [])]
      | Some nd \<Rightarrow>
          (case bucket of
             Some b \<Rightarrow>
               if b < 0 \<or> int BUCKETS \<le> b then err 400 ''bucket must be in [0, 1024)''
               else
                 let (es, cursor) = page (nat b) after_cursor limit (digest (frag_table nd))
                 in ok_response [(''node_id'', JStr (node_id nd)), (''bucket'', JInt b), (''digest'', versions_json es),
                                 (''next'', JStr cursor)]
           | None \<Rightarrow>
               if limit \<le> 0
               then ok_response [(''node_id'', JStr (node_id nd)),
                                 (''digest'', versions_json (map (\<lambda>(h, f). (h, version_id f)) (fragment_snapshot nd))),
                                 (''next'', JStr [])]
               else
                 let (current, last_seen) = decode_cursor after_cursor;
                     (pg, cursor) = inventory_loop (digest (frag_table nd)) limit current last_seen []
                 in ok_response [(''node_id'', JStr (node_id nd)), (''digest'', versions_json pg), (''next'', JStr cursor)]))"

text \<open>The format \<open>016x\<close> of an integer below \<open>2^64\<close>, and \<open>int(s, 16)\<close>.\<close>

fun hex_pad :: "nat \<Rightarrow> nat \<Rightarrow> string" where
  "hex_pad 0 n = []"
| "hex_pad (Suc k) n = hex_pad k (n div 16) @ [hex_digits ! (n mod 16)]"

definition hex_value :: "char \<Rightarrow> nat option" where
  "hex_value c =
     (let n = of_char c in
      if 48 \<le> n \<and> n \<le> 57 then Some (n - 48)
      else if 97 \<le> n \<and> n \<le> 102 then Some (n - 87)
      else if 65 \<le> n \<and> n \<le> 70 then Some (n - 55)
      else None)"

fun hex_digits_value :: "nat \<Rightarrow> string \<Rightarrow> nat option" where
  "hex_digits_value acc [] = Some acc"
| "hex_digits_value acc (c # s) =
     (case hex_value c of None \<Rightarrow> None | Some n \<Rightarrow> hex_digits_value (16 * acc + n) s)"

text \<open>Digits with single underscores between them, after an optional sign and \<open>0x\<close>.\<close>

fun hex_form :: "string \<Rightarrow> bool" where
  "hex_form [] = False"
| "hex_form [c] = (hex_value c \<noteq> None)"
| "hex_form (c # d # s) = (hex_value c \<noteq> None \<and> (if d = CHR ''_'' then hex_form s else hex_form (d # s)))"

definition int_base16 :: "string \<Rightarrow> int result" where
  "int_base16 s0 =
     (let s = strip s0;
          (neg, unsigned) = (case s of c # rest \<Rightarrow> if c = CHR ''-'' then (True, rest)
                                         else if c = CHR ''+'' then (False, rest) else (False, s)
                             | [] \<Rightarrow> (False, []));
          body = (case unsigned of
                    z # x # rest \<Rightarrow> if z = CHR ''0'' \<and> (x = CHR ''x'' \<or> x = CHR ''X'')
                                   then (case rest of u # rest' \<Rightarrow> if u = CHR ''_'' then rest' else rest | [] \<Rightarrow> [])
                                   else unsigned
                  | _ \<Rightarrow> unsigned)
      in if hex_form body
         then (case hex_digits_value 0 (filter (\<lambda>c. c \<noteq> CHR ''_'') body) of
                 None \<Rightarrow> Inl ValueError | Some n \<Rightarrow> Inr (if neg then - int n else int n))
         else Inl ValueError)"

definition op_inventory_buckets :: "(string \<Rightarrow> string) \<Rightarrow> node option \<Rightarrow> node option \<times> response" where
  "op_inventory_buckets sha server =
     (case server of
        None \<Rightarrow> (None, ok_response [(''node_id'', JStr []), (''buckets'', JList []), (''root'', JStr []), (''count'', JInt 0)])
      | Some nd \<Rightarrow>
          let (d, r) = digest_root sha (digest (frag_table nd))
          in (Some (nd\<lparr>frag_table := (frag_table nd)\<lparr>digest := d\<rparr>\<rparr>),
              ok_response [(''node_id'', JStr (node_id nd)),
                           (''buckets'', JList (map (\<lambda>w. JStr (hex_pad 16 (unat w))) (buckets (digest (frag_table nd))))),
                           (''root'', JStr (concat (map (\<lambda>c. hex_pad 2 (of_char c)) r))), (''count'', JInt (int (digest_len (digest (frag_table nd)))))]))"

section \<open>The client loops\<close>

text \<open>
  What one page answers: the entries under \<open>digest\<close> and the text under \<open>next\<close>. A \<open>digest\<close> that is neither an
  object nor empty does not update a dict.
\<close>

definition page_entries :: "(string \<times> json) list \<Rightarrow> (string, json) dict result" where
  "page_entries body =
     (case dict_get body ''digest'' (JObj []) of
        JObj d \<Rightarrow> Inr d | JList [] \<Rightarrow> Inr [] | JStr [] \<Rightarrow> Inr []
      | JList _ \<Rightarrow> Inl ValueError | JStr _ \<Rightarrow> Inl ValueError | _ \<Rightarrow> Inl TypeError)"

definition page_next :: "(json \<Rightarrow> string) \<Rightarrow> (string \<times> json) list \<Rightarrow> string" where
  "page_next repr body = to_str repr (dict_get body ''next'' (JStr []))"

partial_function (option) collect_pages ::
  "(json \<Rightarrow> string) \<Rightarrow> (string \<Rightarrow> (string \<times> json) list option) \<Rightarrow> string \<Rightarrow> (string, json) dict \<Rightarrow>
   (string, json) dict option result option" where
  "collect_pages repr ask cursor acc =
     (case ask cursor of
        None \<Rightarrow> Some (Inr None)
      | Some body \<Rightarrow>
          (case page_entries body of
             Inl e \<Rightarrow> Some (Inl e)
           | Inr es \<Rightarrow>
               if page_next repr body = [] then Some (Inr (Some (dict_update acc es)))
               else collect_pages repr ask (page_next repr body) (dict_update acc es)))"

definition peer_inventory_digest ::
  "(json \<Rightarrow> string) \<Rightarrow> (string \<Rightarrow> (string \<times> json) list option) \<Rightarrow> (string, json) dict option result option" where
  "peer_inventory_digest repr ask = collect_pages repr ask [] []"

text \<open>The pages of one bucket, asked for by its index.\<close>

definition peer_inventory_bucket ::
  "(json \<Rightarrow> string) \<Rightarrow> (int \<Rightarrow> string \<Rightarrow> (string \<times> json) list option) \<Rightarrow> int \<Rightarrow> (string, json) dict option result option" where
  "peer_inventory_bucket repr ask bucket = collect_pages repr (ask bucket) [] []"

text \<open>\<open>bucket_digests\<close>: one integer per bucket, or nothing when an entry is not a hexadecimal text.\<close>

definition bucket_value :: "json \<Rightarrow> int result" where
  "bucket_value v = (case v of JStr s \<Rightarrow> int_base16 s | _ \<Rightarrow> Inl TypeError)"

definition peer_bucket_digests :: "(string \<times> json) list option \<Rightarrow> int list option" where
  "peer_bucket_digests resp =
     (case resp of
        None \<Rightarrow> None
      | Some body \<Rightarrow>
          (case dict_get body ''buckets'' JNull of
             JList vs \<Rightarrow> (case map_result bucket_value vs of Inl _ \<Rightarrow> None | Inr ns \<Rightarrow> Some ns)
           | _ \<Rightarrow> None))"

section \<open>Delta plans\<close>

record sync_plan =
  source_id :: string
  target_id :: string
  missing_hashes :: "string list"
  outdated_hashes :: "string list"
  estimated_bytes :: int

definition plan_from_digests ::
  "string \<Rightarrow> string \<Rightarrow> (string, int) dict \<Rightarrow> (string, int) dict \<Rightarrow> sync_plan" where
  "plan_from_digests source target source_digest target_digest =
     (let entries = sort_key fst source_digest
      in \<lparr>source_id = source, target_id = target,
          missing_hashes = map fst (filter (\<lambda>(h, v). map_of target_digest h = None) entries),
          outdated_hashes = map fst (filter (\<lambda>(h, v). case map_of target_digest h of None \<Rightarrow> False | Some t \<Rightarrow> t < v) entries),
          estimated_bytes = 0\<rparr>)"

section \<open>Paging through the whole inventory\<close>

declare inventory_loop.simps [simp del]

text \<open>The hashes of a bucket after a given one, and all that follow in the order of the walk.\<close>

definition bucket_rest :: "inventory_digest \<Rightarrow> nat \<Rightarrow> string \<Rightarrow> string list" where
  "bucket_rest d b a = sort (filter (\<lambda>h. a < h) (map fst (members d ! b)))"

definition walk_rest :: "inventory_digest \<Rightarrow> nat \<Rightarrow> string \<Rightarrow> string list" where
  "walk_rest d b a = (if b < BUCKETS then bucket_rest d b a @ concat (map (\<lambda>c. bucket_rest d c []) [Suc b..<BUCKETS]) else [])"

lemma walk_rest_next: "b < BUCKETS \<Longrightarrow> walk_rest d b a = bucket_rest d b a @ walk_rest d (Suc b) []"
proof (cases "Suc b < BUCKETS")
  case True
  assume "b < BUCKETS"
  moreover have "[Suc b..<BUCKETS] = Suc b # [Suc (Suc b)..<BUCKETS]" using True by (simp add: upt_conv_Cons)
  ultimately show ?thesis using True by (simp add: walk_rest_def)
qed (simp add: walk_rest_def)

definition version_in :: "(string \<Rightarrow> nat) \<Rightarrow> inventory_digest \<Rightarrow> string \<Rightarrow> int" where
  "version_in b4 d h = the (digest_contents b4 d h)"

definition entries_of :: "(string \<Rightarrow> nat) \<Rightarrow> inventory_digest \<Rightarrow> string list \<Rightarrow> (string, int) dict" where
  "entries_of b4 d ks = map (\<lambda>h. (h, version_in b4 d h)) ks"

lemma page_exact:
  assumes inv: "digest_inv b4 b8 d" and b: "b < BUCKETS" and limit: "0 < limit" and pg: "page b a limit d = (es, cont)"
  shows "es = entries_of b4 d (map fst es) \<and>
    bucket_rest d b a = map fst es @ (if cont = [] then [] else bucket_rest d b cont) \<and> (cont \<noteq> [] \<longrightarrow> es \<noteq> [])"
proof -
  note step = page_step_complete [OF inv b limit pg]
  have "version_in b4 d h = v" if "(h, v) \<in> set es" for h v
  proof -
    have m: "map_of (members d ! b) h = Some v" using step that by auto
    then have "dict_has (members d ! b) h" by (simp add: dict_has_def)
    then have "bucket_of b4 h = b" using inv b by (simp add: digest_inv_def)
    then show ?thesis using m by (simp add: version_in_def digest_contents_def)
  qed
  then have "es = entries_of b4 d (map fst es)"
    by (auto simp: entries_of_def comp_def intro!: map_idI [symmetric])
  then show ?thesis using step limit by (auto simp: bucket_rest_def)
qed

lemma entries_append: "entries_of b4 d (xs @ ys) = entries_of b4 d xs @ entries_of b4 d ys"
  by (simp add: entries_of_def)

lemma dict_update_append: "dict_update d (es @ es') = dict_update (dict_update d es) es'"
  by (simp add: dict_update_def)

lemma inventory_loop_spec:
  assumes inv: "digest_inv b4 b8 d" and "int (length pg) < limit" and "inventory_loop d limit b a pg = (pg1, cursor)"
  shows "\<exists>ks. pg1 = dict_update pg (entries_of b4 d ks) \<and>
    (if cursor = [] then walk_rest d b a = ks
     else \<exists>b' a'. decode_cursor cursor = (b', a') \<and> walk_rest d b a = ks @ walk_rest d b' a' \<and> ks \<noteq> [])"
  using assms(2,3)
proof (induction "BUCKETS - b" arbitrary: b a pg)
  case 0
  then show ?case
    by (intro exI [of _ "[]"]) (simp add: inventory_loop.simps walk_rest_def dict_update_def entries_of_def)
next
  case (Suc n)
  have b: "b < BUCKETS" using Suc(2) by simp
  obtain es cont where pg: "page b a (limit - int (length pg)) d = (es, cont)" by fastforce
  note exact = page_exact [OF inv b _ pg]
  let ?ks = "map fst es"
  have rest: "walk_rest d b a = bucket_rest d b a @ walk_rest d (Suc b) []" by (rule walk_rest_next [OF b])
  let ?pg = "dict_update pg es"
  have es: "es = entries_of b4 d ?ks" using exact Suc.prems(1) by simp
  consider (cut) "cont \<noteq> []" | (full) "cont = []" "limit \<le> int (length ?pg)" | (go) "cont = []" "int (length ?pg) < limit"
    by fastforce
  then show ?case
  proof cases
    case cut
    then have "pg1 = ?pg" "cursor = encode_cursor b cont" using Suc.prems(2) pg b by (simp_all add: inventory_loop.simps)
    moreover have "walk_rest d b a = ?ks @ walk_rest d b cont"
      using exact Suc.prems(1) cut by (simp add: walk_rest_next [OF b])
    moreover have "decode_cursor (encode_cursor b cont) = (b, cont)" by (rule decode_encode_cursor [OF b])
    moreover have "encode_cursor b cont \<noteq> []" by (simp add: encode_cursor_def)
    ultimately show ?thesis using exact Suc.prems(1) cut es by (intro exI [of _ ?ks]) auto
  next
    case full
    then have eq: "pg1 = ?pg" "cursor = (if Suc b < BUCKETS then encode_cursor (Suc b) [] else [])"
      using Suc.prems(2) pg b by (simp_all add: inventory_loop.simps)
    have ks: "bucket_rest d b a = ?ks" using exact Suc.prems(1) full by simp
    have "es \<noteq> []" using full(2) Suc.prems(1) by (auto simp: dict_update_def)
    then show ?thesis
      using eq es ks rest decode_encode_cursor [of "Suc b" "[]"]
      by (intro exI [of _ ?ks]) (auto simp: encode_cursor_def walk_rest_def)
  next
    case go
    then have "inventory_loop d limit (Suc b) [] ?pg = (pg1, cursor)"
      using Suc.prems(2) pg b by (simp add: inventory_loop.simps [of d limit b] Let_def)
    moreover have "n = BUCKETS - Suc b" using Suc(2) by simp
    ultimately obtain ks where ks: "pg1 = dict_update ?pg (entries_of b4 d ks)"
      "if cursor = [] then walk_rest d (Suc b) [] = ks
       else \<exists>b' a'. decode_cursor cursor = (b', a') \<and> walk_rest d (Suc b) [] = ks @ walk_rest d b' a' \<and> ks \<noteq> []"
      using Suc(1) go(2) by blast
    have "pg1 = dict_update pg (entries_of b4 d (?ks @ ks))"
      using ks(1) arg_cong [OF es, of "dict_update pg"] by (simp add: entries_append dict_update_append)
    moreover have "bucket_rest d b a = ?ks" using exact Suc.prems(1) go by simp
    ultimately show ?thesis using ks(2) rest by (intro exI [of _ "?ks @ ks"]) (auto split: if_splits)
  qed
qed

lemma map_of_dict_update:
  "map_of (dict_update d es) h = (case map_of (rev es) h of None \<Rightarrow> map_of d h | Some v \<Rightarrow> Some v)"
proof (induction es arbitrary: d)
  case (Cons e es)
  obtain k v where e: "e = (k, v)" by fastforce
  have "map_of (dict_update d (e # es)) h = map_of (dict_update (dict_set d k v) es) h" by (simp add: dict_update_def e)
  also have "\<dots> = (case map_of (rev es) h of None \<Rightarrow> map_of (dict_set d k v) h | Some v \<Rightarrow> Some v)" by (rule Cons.IH)
  finally show ?case by (simp add: e map_add_def split: option.split)
qed (simp add: dict_update_def)

lemma map_of_entries: "map_of (rev (entries_of b4 d ks)) h = (if h \<in> set ks then Some (version_in b4 d h) else None)"
proof -
  have "map_of (map (\<lambda>h. (h, version_in b4 d h)) xs) h = (if h \<in> set xs then Some (version_in b4 d h) else None)" for xs
    by (induction xs) auto
  then show ?thesis by (simp add: entries_of_def rev_map)
qed

lemma map_of_rev_distinct: "dict_ok d \<Longrightarrow> map_of (rev d) = map_of d"
  by (simp add: map_of_inject_set distinct_map)

lemma dict_ok_update: "dict_ok d \<Longrightarrow> dict_ok (dict_update d es)"
  unfolding dict_update_def by (induction es arbitrary: d) auto

lemma map_of_rev_pages: "map_of (rev (dict_update [] es)) = map_of (dict_update [] es)"
  by (rule map_of_rev_distinct) (simp add: dict_ok_update)

lemma dict_update_json:
  "dict_update (map (\<lambda>(h, v). (h, JInt v)) d) (map (\<lambda>(h, v). (h, JInt v)) es) = map (\<lambda>(h, v). (h, JInt v)) (dict_update d es)"
proof (induction es arbitrary: d)
  case (Cons e es)
  have "dict_set (map (\<lambda>(h, v). (h, JInt v)) d) k (JInt v) = map (\<lambda>(h, v). (h, JInt v)) (dict_set d k v)" for k v
    by (induction d) auto
  then show ?case using Cons.IH by (cases e) (simp add: dict_update_def)
qed (simp add: dict_update_def)

definition ask_node :: "int \<Rightarrow> int option \<Rightarrow> node \<Rightarrow> string \<Rightarrow> (string \<times> json) list option" where
  "ask_node limit bucket nd cursor = (let (status, body) = op_inventory cursor limit bucket (Some nd)
     in if status < 300 then Some body else None)"

lemma collect_all:
  assumes inv: "digest_inv b4 b8 (digest (frag_table nd))" and limit: "0 < limit"
    and cursor: "decode_cursor cursor = (b, a)"
  shows "\<exists>D. collect_pages repr (ask_node limit None nd) cursor (map (\<lambda>(h, v). (h, JInt v)) acc) =
      Some (Inr (Some (map (\<lambda>(h, v). (h, JInt v)) D))) \<and>
    map_of D = (\<lambda>h. if h \<in> set (walk_rest (digest (frag_table nd)) b a)
      then Some (version_in b4 (digest (frag_table nd)) h) else map_of acc h) \<and> (dict_ok acc \<longrightarrow> dict_ok D)"
  using cursor
proof (induction "length (walk_rest (digest (frag_table nd)) b a)" arbitrary: b a cursor acc rule: less_induct)
  case less
  let ?d = "digest (frag_table nd)" and ?j = "map (\<lambda>(h, v). (h, JInt v))"
  obtain pg next_cursor where loop: "inventory_loop ?d limit b a [] = (pg, next_cursor)" by fastforce
  obtain ks where ks: "pg = dict_update [] (entries_of b4 ?d ks)"
    "if next_cursor = [] then walk_rest ?d b a = ks
     else \<exists>b' a'. decode_cursor next_cursor = (b', a') \<and> walk_rest ?d b a = ks @ walk_rest ?d b' a' \<and> ks \<noteq> []"
    using inventory_loop_spec [OF inv _ loop] limit by auto
  let ?body = "[(''node_id'', JStr (node_id nd)), (''digest'', versions_json pg), (''next'', JStr next_cursor)]"
  let ?acc = "dict_update acc pg"
  have ask: "ask_node limit None nd cursor = Some ?body"
    using limit by (simp add: ask_node_def op_inventory_def less.prems loop ok_response_def)
  have body: "page_entries ?body = Inr (?j pg)" "page_next repr ?body = next_cursor"
    by (simp_all add: page_entries_def page_next_def dict_get_def versions_json_def)
  have step: "collect_pages repr (ask_node limit None nd) cursor (?j acc) =
      (if next_cursor = [] then Some (Inr (Some (?j ?acc))) else collect_pages repr (ask_node limit None nd) next_cursor (?j ?acc))"
    by (subst collect_pages.simps) (simp only: ask body option.case sum.case dict_update_json)
  have acc: "map_of ?acc = (\<lambda>h. if h \<in> set ks then Some (version_in b4 ?d h) else map_of acc h)"
    using ks(1) by (simp add: fun_eq_iff map_of_dict_update map_of_entries map_of_rev_pages)
  show ?case
  proof (cases "next_cursor = []")
    case True
    then show ?thesis using step acc ks(2) dict_ok_update [of acc pg] by (intro exI [of _ ?acc]) auto
  next
    case False
    then obtain b' a' where nx: "decode_cursor next_cursor = (b', a')" "walk_rest ?d b a = ks @ walk_rest ?d b' a'" "ks \<noteq> []"
      using ks(2) by auto
    have "length (walk_rest ?d b' a') < length (walk_rest ?d b a)" using nx by simp
    from less.hyps [OF this nx(1), of ?acc] obtain D where
      D: "collect_pages repr (ask_node limit None nd) next_cursor (?j ?acc) = Some (Inr (Some (?j D)))"
        "map_of D = (\<lambda>h. if h \<in> set (walk_rest ?d b' a') then Some (version_in b4 ?d h) else map_of ?acc h)"
        "dict_ok ?acc \<longrightarrow> dict_ok D" by blast
    show ?thesis using step False D acc nx(2) dict_ok_update [of acc pg] by (intro exI [of _ D]) (auto simp: fun_eq_iff)
  qed
qed

lemma walk_rest_set:
  assumes inv: "digest_inv b4 b8 d" and nonempty: "\<And>h. digest_contents b4 d h \<noteq> None \<Longrightarrow> h \<noteq> []"
  shows "h \<in> set (walk_rest d 0 []) \<longleftrightarrow> digest_contents b4 d h \<noteq> None"
proof -
  have in_bucket: "h \<in> fst ` set (members d ! b) \<longleftrightarrow> bucket_of b4 h = b \<and> digest_contents b4 d h \<noteq> None" if "b < BUCKETS" for b h
    using inv that by (auto simp: digest_inv_def digest_contents_def dict_has_iff [symmetric] dict_has_def)
  have "h \<in> set (bucket_rest d b []) \<longleftrightarrow> bucket_of b4 h = b \<and> digest_contents b4 d h \<noteq> None" if "b < BUCKETS" for b h
    using in_bucket [OF that, of h] nonempty [of h] by (cases h) (auto simp: bucket_rest_def)
  moreover have "walk_rest d 0 [] = concat (map (\<lambda>c. bucket_rest d c []) [0..<BUCKETS])"
  proof -
    have "[0..<BUCKETS] = 0 # [Suc 0..<BUCKETS]" by (rule upt_conv_Cons) (simp add: BUCKETS_def)
    then show ?thesis by (simp add: walk_rest_def BUCKETS_def)
  qed
  ultimately show ?thesis using bucket_of_less [of b4 h] by auto
qed

text \<open>The pages of a node in good order are its resident keys and their versions.\<close>

lemma inventory_collected:
  assumes limit: "0 < limit" and inv: "node_inv E nd"
  shows "\<exists>D. collect_pages repr (ask_node limit None nd) [] [] = Some (Inr (Some (map (\<lambda>(h, v). (h, JInt v)) D))) \<and>
    map_of D = (\<lambda>h. map_option version_id (map_of (residents nd) h)) \<and> dict_ok D"
proof -
  let ?d = "digest (frag_table nd)"
  have table: "table_inv (bucket_hash E) (leaf_hash E) (frag_table nd)" by (rule node_invD(1) [OF inv])
  note dinv = table_invD(4) [OF table] and contents = table_invD(5) [OF table]
  have ne: "h \<noteq> []" if held: "digest_contents (bucket_hash E) ?d h \<noteq> None" for h
  proof -
    obtain f where f: "map_of (residents nd) h = Some f" using held contents by (cases "map_of (residents nd) h") simp_all
    have "key f = h" by (rule table_invD(2) [OF table f])
    moreover have "valid f" using residents_okD [OF node_invD(4) [OF inv] f] .
    ultimately have "key f = h" "valid f" by simp_all
    then show ?thesis by (auto simp: valid_def identity_ok_def key_def fragment_key_def split: if_splits)
  qed
  have all: "h \<in> set (walk_rest ?d 0 []) \<longleftrightarrow> digest_contents (bucket_hash E) ?d h \<noteq> None" for h
    by (rule walk_rest_set [OF dinv ne])
  have "decode_cursor [] = (0, [])" by (simp add: decode_cursor_def partition_str_def)
  from collect_all [OF dinv limit this, of repr "[]", unfolded list.map map_of.simps] obtain D where
    D: "collect_pages repr (ask_node limit None nd) [] [] = Some (Inr (Some (map (\<lambda>(h, v). (h, JInt v)) D)))"
      "map_of D = (\<lambda>h. if h \<in> set (walk_rest ?d 0 []) then Some (version_in (bucket_hash E) ?d h) else None)" "dict_ok D" by auto
  have "map_of D h = map_option version_id (map_of (residents nd) h)" for h
    by (cases "map_of (residents nd) h") (simp_all add: D(2) all version_in_def contents del: map_of_eq_Some_iff)
  then show ?thesis using D(1,3) by blast
qed

section \<open>Properties\<close>

text \<open>
  C12. Fetching an inventory page by page returns, and returns exactly what the node holds: against a node in
  any state it can reach and with any positive page size, the client loop ends with the versions of all
  resident fragments under their keys, and nothing else.
\<close>

theorem inventory_pages_complete:
  assumes "0 < limit" and nd: "nd = foldl (node_step E) (start_node E tier hooked (Node i m measured adm qs tp fr strategy)) ops"
  shows "\<exists>D. peer_inventory_digest repr (ask_node limit None nd) = Some (Inr (Some D)) \<and>
    map_of D = (\<lambda>h. map_option (JInt \<circ> version_id) (map_of (fragment_snapshot nd) h))"
proof -
  have "node_inv E nd" unfolding nd by (rule node_run_ok(1) [OF refl])
  from inventory_collected [OF assms(1) this] obtain D where
    D: "collect_pages repr (ask_node limit None nd) [] [] = Some (Inr (Some (map (\<lambda>(h, v). (h, JInt v)) D)))"
      "map_of D = (\<lambda>h. map_option version_id (map_of (residents nd) h))" by blast
  have "map_of (map (\<lambda>(h, v). (h, JInt v)) D) h = map_option JInt (map_of D h)" for h
    by (induction D) auto
  then show ?thesis
    using D by (auto simp: peer_inventory_digest_def fragment_snapshot_def snapshot_def fun_eq_iff option.map_comp
        simp del: map_of_eq_Some_iff)
qed

theorem inventory_pages_complete_witness:
  "let nd = foldl (node_step sample_env) (start_node sample_env None False (Node ''n'' 100 False None [] None None None))
              [StoreOp (sample_fragment ''acme'' 1) True [] {}] in
   \<exists>D. peer_inventory_digest (\<lambda>_. []) (ask_node 1 None nd) = Some (Inr (Some D)) \<and> map_of D ''acme:ab12'' = Some (JInt 1)"
proof -
  let ?nd = "foldl (node_step sample_env) (start_node sample_env None False (Node ''n'' 100 False None [] None None None))
              [StoreOp (sample_fragment ''acme'' 1) True [] {}]"
  have "map_of (fragment_snapshot ?nd) ''acme:ab12'' = Some (sample_fragment ''acme'' 1)" by code_simp
  then show ?thesis
    using inventory_pages_complete [of 1 ?nd sample_env None False "''n''" 100 False None "[]" None None None
        "[StoreOp (sample_fragment ''acme'' 1) True [] {}]" "\<lambda>_. []"]
    by (auto simp: Let_def sample_fragment_def)
qed

section \<open>Bucket digests on the wire\<close>

lemma hex_digit_value: "n < 16 \<Longrightarrow> hex_value (hex_digits ! n) = Some n"
proof -
  have "\<forall>n\<in>set [0..<16]. hex_value (hex_digits ! n) = Some n" by code_simp
  then show "n < 16 \<Longrightarrow> hex_value (hex_digits ! n) = Some n" by simp
qed

lemma hex_pad_length: "length (hex_pad k n) = k"
  by (induction k arbitrary: n) simp_all

lemma hex_pad_digits: "\<forall>c\<in>set (hex_pad k n). \<exists>j<16. c = hex_digits ! j"
  by (induction k arbitrary: n) (auto intro: exI [of _ "_ mod 16"])

lemma hex_digits_value_append:
  "hex_digits_value acc (s @ [c]) =
     (case hex_digits_value acc s of None \<Rightarrow> None | Some a \<Rightarrow> map_option (\<lambda>n. 16 * a + n) (hex_value c))"
  by (induction s arbitrary: acc) (auto split: option.split)

lemma hex_pad_value: "hex_digits_value 0 (hex_pad k n) = Some (n mod 16 ^ k)"
proof (induction k arbitrary: n)
  case (Suc k)
  have "16 * (n div 16 mod 16 ^ k) + n mod 16 = n mod 16 ^ Suc k" by (simp add: mod_mult2_eq mult.commute)
  then show ?case by (simp add: hex_digits_value_append Suc hex_digit_value)
qed simp

lemma hex_digit_facts:
  assumes "j < 16"
  shows "hex_digits ! j \<notin> {CHR ''-'', CHR ''+'', CHR ''_'', CHR ''x'', CHR ''X''} \<and> \<not> is_space (hex_digits ! j)"
proof -
  have "\<forall>j\<in>set [0..<16]. hex_digits ! j \<notin> {CHR ''-'', CHR ''+'', CHR ''_'', CHR ''x'', CHR ''X''} \<and> \<not> is_space (hex_digits ! j)"
    by code_simp
  then show ?thesis using assms by simp
qed

lemma strip_plain: "\<forall>c\<in>set s. \<not> is_space c \<Longrightarrow> strip s = s"
proof -
  assume a: "\<forall>c\<in>set s. \<not> is_space c"
  have dw: "dropWhile is_space t = t" if "\<forall>c\<in>set t. \<not> is_space c" for t using that by (cases t) auto
  show "strip s = s" using dw [of s] dw [of "rev s"] a by (simp add: strip_def)
qed

lemma hex_form_plain: "s \<noteq> [] \<Longrightarrow> \<forall>c\<in>set s. hex_value c \<noteq> None \<and> c \<noteq> CHR ''_'' \<Longrightarrow> hex_form s"
proof (induction s rule: hex_form.induct)
  case (3 c d s)
  then show ?case by (cases "d = CHR ''_''") auto
qed auto

lemma int_base16_hex_pad:
  assumes "0 < k"
  shows "int_base16 (hex_pad k n) = Inr (int (n mod 16 ^ k))"
proof -
  let ?s = "hex_pad k n"
  have plain: "c \<notin> {CHR ''-'', CHR ''+'', CHR ''_'', CHR ''x'', CHR ''X''}" "\<not> is_space c" "hex_value c \<noteq> None" if "c \<in> set ?s" for c
    using hex_pad_digits [of k n] that hex_digit_facts hex_digit_value by (metis option.distinct(1))+
  have ne: "?s \<noteq> []" using hex_pad_length [of k n] assms by auto
  have strip: "strip ?s = ?s" using plain(2) by (simp add: strip_plain)
  have form: "hex_form ?s" using hex_form_plain [OF ne] plain by auto
  have under: "filter (\<lambda>c. c \<noteq> CHR ''_'') ?s = ?s" using plain(1) by (auto intro: filter_True)
  obtain c rest where s: "?s = c # rest" using ne by (cases ?s) auto
  have sign: "c \<noteq> CHR ''-'' \<and> c \<noteq> CHR ''+''" using plain(1) [of c] s by simp
  note facts = strip [unfolded s] form [unfolded s] under [unfolded s] hex_pad_value [of k n, unfolded s]
  show ?thesis
  proof (cases rest)
    case Nil
    then show ?thesis using facts sign by (simp add: int_base16_def s)
  next
    case (Cons x xs)
    then have "x \<noteq> CHR ''x'' \<and> x \<noteq> CHR ''X''" using plain(1) [of x] s by simp
    then show ?thesis using facts sign Cons by (simp add: int_base16_def s del: filter.simps hex_digits_value.simps hex_form.simps)
  qed
qed

text \<open>
  C13. Bucket digests cross the wire unchanged: what a client reads from the answer of a node is the list of the
  node's bucket digests, one number per bucket.
\<close>

theorem bucket_digests_round_trip:
  "peer_bucket_digests (Some (snd (snd (op_inventory_buckets sha (Some nd))))) =
     Some (map (\<lambda>w. int (unat w)) (buckets (digest (frag_table nd))))"
proof -
  have bv: "bucket_value (JStr (hex_pad 16 (unat w))) = Inr (int (unat w))" for w :: "64 word"
  proof -
    have "unat w < 16 ^ 16" using unsigned_less [of w] by simp
    then show ?thesis by (simp add: bucket_value_def int_base16_hex_pad)
  qed
  have "map_result bucket_value (map (\<lambda>w. JStr (hex_pad 16 (unat w))) ws) = Inr (map (\<lambda>w. int (unat w)) ws)" for ws :: "64 word list"
    by (induction ws) (simp_all add: bv)
  then show ?thesis
    by (simp add: peer_bucket_digests_def op_inventory_buckets_def ok_response_def dict_get_def case_prod_unfold Let_def)
qed

section \<open>What a delta plan contains\<close>

text \<open>
  A delta plan names exactly what the target lacks: its missing hashes are those of the source that the target
  does not have, its outdated ones those the target has in an older version, each listed once and in order.
\<close>

theorem plan_exact:
  assumes "dict_ok source"
  shows "let p = plan_from_digests s t source target in
    set (missing_hashes p) = {h. \<exists>v. map_of source h = Some v \<and> map_of target h = None} \<and>
    set (outdated_hashes p) = {h. \<exists>v w. map_of source h = Some v \<and> map_of target h = Some w \<and> w < v} \<and>
    distinct (missing_hashes p @ outdated_hashes p) \<and> sorted (missing_hashes p) \<and> sorted (outdated_hashes p)"
proof -
  have d: "distinct (map fst (sort_key fst source))" "sorted (map fst (sort_key fst source))"
    using assms by (simp_all add: distinct_map distinct_sort)
  have sub: "distinct (map fst (filter P (sort_key fst source)))" "sorted (map fst (filter P (sort_key fst source)))" for P
    using d by (simp_all add: distinct_map_filter sorted_filter)
  show ?thesis
    using sub assms
    by (auto simp: plan_from_digests_def Let_def image_iff split: option.splits)
qed

end
