(* ===== verification/Spec2Isabelle.thy ===== *)
theory Spec2Isabelle
  imports Table Positional_Map Graphs Indexes Warm Node_Props Shard Versions Resilience Registry Replication Inventory
begin

text \<open>
  Membrane is a distributed cache for model state. A \<^emph>\<open>fragment\<close> describes the cached state of a
  span of tokens: an identity (model, tokenizer, layer, span, payload hash), a tenant, a size, a
  lifetime, a hybrid-logical-clock version and a reference to its payload. A \<^emph>\<open>node\<close> keeps fragments
  and payloads in memory under a byte limit; nodes form a cluster in which a consistent-hash ring names
  the owner and the replicas of a key. Requests reach a node through handlers, which other nodes use as
  well: to replicate, to delete and to compare inventories. All sources are under \<^verbatim>\<open>src/membrane/\<close>.

  \<^bold>\<open>How the code is translated.\<close> Classes are records and operations are functions from the state to
  the changed state and the answer. An exception is a value of \<open>py_error\<close> in a result \<open>Inl e\<close>, returned
  beside the state as it was when it was raised, so that partial updates stay visible. A dictionary is an
  association list in insertion order (\<open>dict_set\<close>, \<open>dict_del\<close>, \<open>dict_get\<close> in Prelude), because several
  parts depend on that order; a set whose order is not observed is a HOL set. Integers are unbounded as
  in Python, except in the clock, whose stamps are masked to 64 bits as the code does it. Floats are
  real numbers: rounding is not modelled. Locked methods are single steps; histories of steps stand
  for the interleavings of threads. Clock readings, random choices, hash functions (MD5, SHA-256,
  BLAKE2b), JSON text and the behaviour of the HTTP transport are arguments.

  \<^bold>\<open>The data model.\<close> \<^emph>\<open>Hlc\<close> (\<^verbatim>\<open>hlc.py\<close>): packing, tick and merge; stamps strictly increase.
  \<^emph>\<open>Fragment\<close> (\<^verbatim>\<open>identity.py\<close>, \<^verbatim>\<open>fragment.py\<close>): construction with every check, the storage key
  and when it can be split again, merging. \<^emph>\<open>Wire\<close> (\<^verbatim>\<open>serialization.py\<close>, \<^verbatim>\<open>identity.py\<close>): decoding
  inverts encoding and never yields an invalid fragment. \<^emph>\<open>Tenant\<close> (\<^verbatim>\<open>security/tenant.py\<close>,
  \<^verbatim>\<open>store/tenant_guard.py\<close>): who may read and write. \<^emph>\<open>Versions\<close> (\<^verbatim>\<open>versions.py\<close>): version chains;
  the common-ancestor search returns the lowest one on chains grown forwards, and never returns on a
  cycle two appends can close. \<^emph>\<open>Fragmenter\<close> (\<^verbatim>\<open>fragmenter.py\<close>): windows cover a prompt, merging
  undoes splitting up to the tenant, which splitting loses.

  \<^bold>\<open>The node.\<close> \<^emph>\<open>Table\<close> (\<^verbatim>\<open>store/table.py\<close>) holds the fragments with their byte total, payload
  reference counts, tenant index, inventory digest and the per-thread read caches; its invariant holds
  after every history and reading through a cache is the same as reading the table. \<^emph>\<open>Digest\<close>
  (\<^verbatim>\<open>store/digest.py\<close>): bucket fingerprints depend on the contents only, paging is complete.
  \<^emph>\<open>Positional\<close> and \<^emph>\<open>Positional_Map\<close> (\<^verbatim>\<open>tree.py\<close>): the AVL interval tree answers queries exactly
  and is a map as long as no hash is inserted twice. \<^emph>\<open>Indexes\<close> (\<^verbatim>\<open>exacts.py\<close>, \<^verbatim>\<open>coaccess.py\<close>,
  \<^verbatim>\<open>semantics.py\<close>, \<^verbatim>\<open>index.py\<close>) and \<^emph>\<open>Graphs\<close> (\<^verbatim>\<open>graph.py\<close>, \<^verbatim>\<open>weighted.py\<close>): the co-access index is a
  symmetric relation, clustering partitions, the bounded component search is exact. \<^emph>\<open>Policies\<close>
  (\<^verbatim>\<open>decision.py\<close>, \<^verbatim>\<open>store/eviction.py\<close>, \<^verbatim>\<open>tiers.py\<close>): quota counters stay within the caps, an eviction
  order is a permutation of the candidates. \<^emph>\<open>Content\<close> and \<^emph>\<open>Warm\<close> (\<^verbatim>\<open>content_store.py\<close>,
  \<^verbatim>\<open>store/tiered.py\<close>): byte stores and the tier that demoted fragments go to; what was demoted comes
  back unchanged. \<^emph>\<open>Node\<close> (\<^verbatim>\<open>node.py\<close>) composes them; \<^emph>\<open>Node_Inv\<close> states its invariant and that each
  operation keeps it, whichever exception it raises; \<^emph>\<open>Node_Props\<close> draws the consequences for all
  histories: exact accounting within the limit, a persistence log that rebuilds the residents,
  tenant isolation of reads, a store that is only refused for admission, quota or size, and reading
  what was stored. \<^emph>\<open>Gc\<close> (\<^verbatim>\<open>gc.py\<close>): holder counts, tombstones and sweeping.

  \<^bold>\<open>The cluster.\<close> \<^emph>\<open>Ring\<close> (\<^verbatim>\<open>ring.py\<close>): joins and leaves move only the keys they must, the replica
  walk returns distinct nodes. \<^emph>\<open>Shard\<close> (\<^verbatim>\<open>shard.py\<close>): the primary map follows the ring; a removed
  node can stay listed as a replica. \<^emph>\<open>Registry\<close> (\<^verbatim>\<open>registry.py\<close>): the bounded location table and the
  ranking of nodes for a prompt. \<^emph>\<open>Resilience\<close> (\<^verbatim>\<open>resilience.py\<close>, request loops of
  \<^verbatim>\<open>network/peer.py\<close>): the circuit breaker is determined by its log of calls. \<^emph>\<open>Ops\<close>
  (\<^verbatim>\<open>transport/ops.py\<close>, \<^verbatim>\<open>transport/ops_cluster.py\<close>): the request handlers over a node.

  \<^bold>\<open>Interfaces.\<close> Prelude has the locales \<open>keyed_store\<close> (what a byte store promises its clients),
  \<open>stepping\<close> (a property every step keeps holds after a run) and \<open>stamping\<close> (steps that advance a
  stamp); Policies has \<open>eviction_order\<close>. Each is interpreted on the definitions of the theories that
  provide it.

  \<^bold>\<open>Loops.\<close> Loops over lists are structural recursion. The component search, the ring walk and the
  retry loops are functions with termination proofs or recursion over the list of attempts. The
  ancestor searches are partial functions into \<open>option\<close>, where \<open>None\<close> means that the loop does not
  return. No definition uses fuel.

  \<^bold>\<open>Not modelled.\<close> Engine adapters and compute backends (\<^verbatim>\<open>adapters/\<close>, \<^verbatim>\<open>compute/\<close>) and the tensor
  code (\<^verbatim>\<open>quantization.py\<close>, \<^verbatim>\<open>codec.py\<close>, \<^verbatim>\<open>kv.py\<close>): their meaning is that of vLLM, torch and numpy.
  The analytical performance model (\<^verbatim>\<open>model/\<close> and the cost and latency modules): floating-point
  estimates no serving operation depends on. Cryptography, certificates and secrets (\<^verbatim>\<open>auth/\<close>,
  \<^verbatim>\<open>secrets/\<close>, \<^verbatim>\<open>security/\<close> apart from the tenant rules): thin wrappers of libraries. Routes, command
  line, server composition and settings: parsing, printing and wiring, without state of their own.
  gRPC services and generated protocol code (\<^verbatim>\<open>disagg/\<close>, \<^verbatim>\<open>wire/v3/\<close>), Redis and file back ends, sockets
  and shared memory. Threads that only wait for the next tick.
\<close>

end
